(* ===== verification/Prelude.thy ===== *)
theory Prelude
  imports Main "HOL-Library.Word"
begin

text \<open>
  Shared vocabulary of the development: the machine types of the i386 build (\<^verbatim>\<open>char\<close>,
  \<^verbatim>\<open>short\<close>, \<^verbatim>\<open>int\<close>, \<^verbatim>\<open>long\<close> and pointers have 8, 16, 32, 32 and 32 bits), the way a kernel
  path can end without returning, the collections of rewrite rules the component proofs use, the
  lemmas on words, lists and function updates that several components share, and the interface of a
  bit field that can be read and written (\<open>field_lens\<close>).
\<close>

unbundle bit_operations_syntax

section \<open>Machine types\<close>

type_synonym u8 = "8 word"
type_synonym u16 = "16 word"
type_synonym u32 = "32 word"

text \<open>A C pointer of the 32-bit kernel is its address.\<close>

type_synonym ptr = "32 word"

abbreviation (input) NULL :: ptr where
  "NULL \<equiv> 0"

text \<open>
  A \<^verbatim>\<open>long\<close> or \<^verbatim>\<open>int\<close> is kept as the 32-bit word it occupies; a signed comparison reads it
  with \<^const>\<open>sint\<close>.  Signed division of C truncates towards zero.
\<close>

definition c_div :: "u32 \<Rightarrow> u32 \<Rightarrow> u32" where
  "c_div x y = word_of_int (sgn (sint x) * sgn (sint y) * (\<bar>sint x\<bar> div \<bar>sint y\<bar>))"

section \<open>Paths that do not return\<close>

text \<open>
  \<^verbatim>\<open>panic\<close> prints its message and spins for ever, and an access outside an array or through a
  pointer with no object has no meaning in C.  Both are values here, so that every such path of the
  source is a branch of the model.
\<close>

datatype kexc = Panic string | Out_of_bounds string

type_synonym 'a kres = "kexc + 'a"

section \<open>Rule collections\<close>

named_theorems bitfields \<open>definitions of the i386 bit fields\<close>
named_theorems kconsts \<open>constants of the headers\<close>
named_theorems frame \<open>what an operation leaves unchanged\<close>

section \<open>Words\<close>

text \<open>
  Two 32-bit words are equal when their 32 bits are.  Unfolding both lemmas turns an equation
  between expressions of masks and shifts into 32 propositional equations, which
  \<open>simp add: bit_simps\<close> decides.
\<close>

lemma all_less_32:
  "(\<forall>n < 32. P n) \<longleftrightarrow>
     P 0 \<and> P 1 \<and> P 2 \<and> P 3 \<and> P 4 \<and> P 5 \<and> P 6 \<and> P 7 \<and>
     P 8 \<and> P 9 \<and> P 10 \<and> P 11 \<and> P 12 \<and> P 13 \<and> P 14 \<and> P 15 \<and>
     P 16 \<and> P 17 \<and> P 18 \<and> P 19 \<and> P 20 \<and> P 21 \<and> P 22 \<and> P 23 \<and>
     P 24 \<and> P 25 \<and> P 26 \<and> P 27 \<and> P 28 \<and> P 29 \<and> P 30 \<and> P (31 :: nat)"
  by (simp add: numeral_eq_Suc All_less_Suc conj_ac)

lemma u32_bits_eq_iff: "(x :: u32) = y \<longleftrightarrow> (\<forall>n < 32. bit x n \<longleftrightarrow> bit y n)"
  by (auto intro: bit_word_eqI)

lemmas u32_bitwise = u32_bits_eq_iff all_less_32

lemma bit_u32_beyond [simp]: "32 \<le> n \<Longrightarrow> \<not> bit (x :: u32) n"
  using bit_imp_le_length by fastforce

lemma sint_small: "uint (x :: u32) < 2 ^ 31 \<Longrightarrow> sint x = uint x"
  unfolding sint_uint
  by (intro signed_take_bit_int_eq_self) (auto intro: order_trans [OF _ uint_ge_0])

lemma sint_of_nat_small: "n < 2 ^ 31 \<Longrightarrow> sint (of_nat n :: u32) = int n"
  by (simp add: signed_of_nat signed_take_bit_int_eq_self)

lemma sint_plus:
  "- (2 ^ 31) \<le> sint a + sint b \<Longrightarrow> sint a + sint b < 2 ^ 31 \<Longrightarrow> sint (a + b :: u32) = sint a + sint b"
  by (simp add: sint_word_ariths signed_take_bit_int_eq_self)

lemma uint_minus: "(y :: u32) \<le> x \<Longrightarrow> uint (x - y) = uint x - uint y"
  by (simp add: uint_minus_simple_alt word_le_def uint_sub_if' )

section \<open>Lists\<close>

lemma find_append:
  "find P (xs @ ys) = (case find P xs of None \<Rightarrow> find P ys | Some x \<Rightarrow> Some x)"
  by (induction xs) auto

lemma find_SomeD: "find P xs = Some x \<Longrightarrow> x \<in> set xs \<and> P x"
  by (auto simp: find_Some_iff)

section \<open>Readable and writable fields\<close>

text \<open>
  The contract of a field of a hardware structure: what was written is read back, the last write
  wins, and writing back what was read changes nothing.  \<open>valid\<close> restricts the values that fit
  the field.
\<close>

locale field_lens =
  fixes get :: "'s \<Rightarrow> 'v"
    and put :: "'s \<Rightarrow> 'v \<Rightarrow> 's"
    and valid :: "'v \<Rightarrow> bool"
  assumes get_put: "valid v \<Longrightarrow> get (put s v) = v"
    and put_put: "valid u \<Longrightarrow> valid v \<Longrightarrow> put (put s u) v = put s v"
    and put_get: "put s (get s) = s"
begin

lemma put_inject: "valid v \<Longrightarrow> valid w \<Longrightarrow> put s v = put s w \<longleftrightarrow> v = w"
  by (metis get_put)

lemma put_restore: "valid v \<Longrightarrow> valid (get s) \<Longrightarrow> put (put s v) (get s) = s"
  by (simp add: put_put put_get)

end

text \<open>Two fields of one structure that do not overlap.\<close>

locale field_pair =
  f: field_lens get1 put1 valid1 + g: field_lens get2 put2 valid2
  for get1 :: "'s \<Rightarrow> 'v" and put1 :: "'s \<Rightarrow> 'v \<Rightarrow> 's" and valid1 :: "'v \<Rightarrow> bool"
    and get2 :: "'s \<Rightarrow> 'w" and put2 :: "'s \<Rightarrow> 'w \<Rightarrow> 's" and valid2 :: "'w \<Rightarrow> bool" +
  assumes keep1: "valid2 w \<Longrightarrow> get1 (put2 s w) = get1 s"
    and keep2: "valid1 v \<Longrightarrow> get2 (put1 s v) = get2 s"
begin

lemma get_both:
  "valid1 v \<Longrightarrow> valid2 w \<Longrightarrow>
     get1 (put2 (put1 s v) w) = v \<and> get2 (put2 (put1 s v) w) = w"
  by (simp add: keep1 f.get_put g.get_put)

end

section \<open>Invariants of step relations\<close>

text \<open>The rule of rule induction on reachability, shared by the state machines.\<close>

locale step_invariant =
  fixes step :: "'s \<Rightarrow> 's \<Rightarrow> bool"
    and inv :: "'s \<Rightarrow> bool"
  assumes preserved: "step s s' \<Longrightarrow> inv s \<Longrightarrow> inv s'"
begin

lemma reachable: "step\<^sup>*\<^sup>* s s' \<Longrightarrow> inv s \<Longrightarrow> inv s'"
  by (induction rule: rtranclp_induct) (auto intro: preserved)

end

section \<open>Refinement of event systems\<close>

text \<open>
  A sequence of events of a system, and the rule that every run of a system whose steps keep an invariant and refine the
  steps of a specification is a run of the specification.
\<close>

inductive events_run :: "('s \<Rightarrow> 'e \<Rightarrow> 's \<Rightarrow> bool) \<Rightarrow> 's \<Rightarrow> 'e list \<Rightarrow> 's \<Rightarrow> bool" for step where
  run_nil: "events_run step s [] s"
| run_cons: "step s e s1 \<Longrightarrow> events_run step s1 es s' \<Longrightarrow> events_run step s (e # es) s'"

locale event_refinement =
  fixes step :: "'s \<Rightarrow> 'e \<Rightarrow> 's \<Rightarrow> bool"
    and inv :: "'s \<Rightarrow> bool"
    and abs :: "'s \<Rightarrow> 'a"
    and spec :: "'a \<Rightarrow> 'e \<Rightarrow> 'a \<Rightarrow> bool"
  assumes step_inv: "step s e s' \<Longrightarrow> inv s \<Longrightarrow> inv s'"
    and step_spec: "step s e s' \<Longrightarrow> inv s \<Longrightarrow> spec (abs s) e (abs s')"
begin

lemma run_inv: "events_run step s es s' \<Longrightarrow> inv s \<Longrightarrow> inv s'"
  by (induction rule: events_run.induct) (auto intro: step_inv)

lemma run_refines: "events_run step s es s' \<Longrightarrow> inv s \<Longrightarrow> events_run spec (abs s) es (abs s')"
  by (induction rule: events_run.induct) (auto intro: events_run.intros step_inv step_spec)

end

end
