(* ===== verification/Descriptors.thy ===== *)
theory Descriptors
  imports Prelude
begin

text \<open>
  Segment and gate descriptors: \<^verbatim>\<open>include/linux/head.h\<close>, the descriptor macros of
  \<^verbatim>\<open>include/asm/system.h\<close> and \<^verbatim>\<open>include/linux/sched.h\<close>, \<^verbatim>\<open>get_base\<close> and \<^verbatim>\<open>set_base\<close> of
  \<^verbatim>\<open>kernel/sched.c\<close>, and \<^verbatim>\<open>trap_init\<close> of \<^verbatim>\<open>kernel/traps.c\<close>.  A descriptor table is a function
  from the entry number to the two words of the entry.  The base and the limit of a descriptor are
  interpreted as fields (\<open>field_lens\<close>) that do not overlap.
\<close>

section \<open>Descriptors and their tables\<close>

record desc_struct =
  d_a :: u32
  d_b :: u32

type_synonym desc_table = "nat \<Rightarrow> desc_struct"

definition get_base :: "desc_struct \<Rightarrow> u32" where
  "get_base p =
     (let a = d_a p; b = d_b p
      in drop_bit 16 a OR push_bit 16 (b AND 0xff) OR (b AND 0xff000000))"

definition set_base :: "desc_struct \<Rightarrow> u32 \<Rightarrow> desc_struct" where
  "set_base p base =
     (let a = (d_a p AND 0x0000ffff) OR push_bit 16 (base AND 0xffff);
          b = (d_b p AND 0xffffff00) OR drop_bit 16 (base AND 0xff0000);
          b' = (b AND 0x00ffffff) OR (base AND 0xff000000)
      in \<lparr>d_a = a, d_b = b'\<rparr>)"

text \<open>
  \<^verbatim>\<open>_set_limit\<close> stores the low 16 bits of the limit in bytes 0 and 1; the byte that was bits
  16 to 23 of the limit is combined with the upper half of byte 6 and stored there.
\<close>

definition set_limit_raw :: "desc_struct \<Rightarrow> u32 \<Rightarrow> desc_struct" where
  "set_limit_raw p limit =
     (let dl = drop_bit 16 limit AND 0xff;
          dh = drop_bit 16 (d_b p) AND 0xf0
      in \<lparr>d_a = (d_a p AND 0xffff0000) OR (limit AND 0xffff),
          d_b = (d_b p AND 0xff00ffff) OR push_bit 16 (dh OR dl)\<rparr>)"

definition set_limit :: "desc_struct \<Rightarrow> u32 \<Rightarrow> desc_struct" where
  "set_limit ldt limit = set_limit_raw ldt (drop_bit 12 (limit - 1))"

text \<open>
  The \<^verbatim>\<open>lsll\<close> instruction of \<^verbatim>\<open>get_limit\<close> delivers the byte limit of the selected descriptor:
  the 20-bit limit field, scaled to pages when the granularity bit is set.  The macro adds one.
\<close>

definition limit_field :: "desc_struct \<Rightarrow> u32" where
  "limit_field p = (d_a p AND 0xffff) OR (d_b p AND 0xf0000)"

definition lsl_limit :: "desc_struct \<Rightarrow> u32" where
  "lsl_limit p =
     (if bit (d_b p) 23 then push_bit 12 (limit_field p) OR 0xfff else limit_field p)"

definition get_limit :: "desc_struct \<Rightarrow> u32" where
  "get_limit p = lsl_limit p + 1"

definition desc_access :: "desc_struct \<Rightarrow> u32" where
  "desc_access p = drop_bit 8 (d_b p) AND 0xff"

definition desc_flags :: "desc_struct \<Rightarrow> u32" where
  "desc_flags p = drop_bit 20 (d_b p) AND 0xf"

section \<open>Task state and local table descriptors\<close>

definition FIRST_TSS_ENTRY :: nat where
  [kconsts]: "FIRST_TSS_ENTRY = 4"

definition FIRST_LDT_ENTRY :: nat where
  [kconsts]: "FIRST_LDT_ENTRY = FIRST_TSS_ENTRY + 1"

definition TSS_sel :: "u32 \<Rightarrow> u32" where
  "TSS_sel n = push_bit 4 n + push_bit 3 (of_nat FIRST_TSS_ENTRY)"

definition LDT_sel :: "u32 \<Rightarrow> u32" where
  "LDT_sel n = push_bit 4 n + push_bit 3 (of_nat FIRST_LDT_ENTRY)"

text \<open>
  \<^verbatim>\<open>_set_tssldt_desc\<close> fills the eight bytes one after the other: the limit 104, the low half of
  the address, its third byte, the type, a zero byte and its fourth byte.
\<close>

definition set_tssldt_desc :: "u32 \<Rightarrow> u32 \<Rightarrow> desc_struct" where
  "set_tssldt_desc addr type =
     (let ax = addr AND 0xffff;
          al = drop_bit 16 addr AND 0xff;
          ah = drop_bit 24 addr AND 0xff
      in \<lparr>d_a = push_bit 16 ax OR 104,
          d_b = push_bit 24 ah OR push_bit 16 0 OR push_bit 8 (type AND 0xff) OR al\<rparr>)"

definition set_tss_desc :: "desc_table \<Rightarrow> nat \<Rightarrow> u32 \<Rightarrow> desc_table" where
  "set_tss_desc gdt n addr = gdt(n := set_tssldt_desc addr 0x89)"

definition set_ldt_desc :: "desc_table \<Rightarrow> nat \<Rightarrow> u32 \<Rightarrow> desc_table" where
  "set_ldt_desc gdt n addr = gdt(n := set_tssldt_desc addr 0x82)"

section \<open>Gates\<close>

text \<open>
  \<^verbatim>\<open>_set_gate\<close>: \<^verbatim>\<open>eax\<close> starts as \<^verbatim>\<open>0x00080000\<close> and receives the low half of the address; the low
  half of \<^verbatim>\<open>edx\<close> is replaced by the 16-bit attribute word.
\<close>

definition set_gate :: "u32 \<Rightarrow> u32 \<Rightarrow> u32 \<Rightarrow> desc_struct" where
  "set_gate type dpl addr =
     (let attr = (0x8000 + push_bit 13 dpl + push_bit 8 type) AND 0xffff
      in \<lparr>d_a = (0x00080000 AND 0xffff0000) OR (addr AND 0xffff),
          d_b = (addr AND 0xffff0000) OR attr\<rparr>)"

definition set_trap_gate :: "desc_table \<Rightarrow> nat \<Rightarrow> u32 \<Rightarrow> desc_table" where
  "set_trap_gate idt n addr = idt(n := set_gate 15 0 addr)"

definition set_system_gate :: "desc_table \<Rightarrow> nat \<Rightarrow> u32 \<Rightarrow> desc_table" where
  "set_system_gate idt n addr = idt(n := set_gate 15 3 addr)"

definition set_intr_gate :: "desc_table \<Rightarrow> nat \<Rightarrow> u32 \<Rightarrow> desc_table" where
  "set_intr_gate idt n addr = idt(n := set_gate 14 0 addr)"

text \<open>How the processor reads a gate.\<close>

definition gate_offset :: "desc_struct \<Rightarrow> u32" where
  "gate_offset p = (d_b p AND 0xffff0000) OR (d_a p AND 0xffff)"

definition gate_selector :: "desc_struct \<Rightarrow> u32" where
  "gate_selector p = drop_bit 16 (d_a p)"

definition gate_type :: "desc_struct \<Rightarrow> u32" where
  "gate_type p = drop_bit 8 (d_b p) AND 0x1f"

definition gate_dpl :: "desc_struct \<Rightarrow> u32" where
  "gate_dpl p = drop_bit 13 (d_b p) AND 3"

definition gate_present :: "desc_struct \<Rightarrow> bool" where
  "gate_present p = bit (d_b p) 15"

section \<open>\<^verbatim>\<open>trap_init\<close>\<close>

text \<open>
  The loop over the 256 entries replaces the low half of the handler address.  The table
  \<open>idt_ptrs\<close> of handler addresses and the address of \<^verbatim>\<open>page_fault\<close> are fixed by the linker and
  are parameters.
\<close>

primrec trap_init_loop :: "nat \<Rightarrow> (nat \<Rightarrow> u32) \<Rightarrow> desc_table \<Rightarrow> desc_table" where
  "trap_init_loop 0 idt_ptrs idt = idt"
| "trap_init_loop (Suc k) idt_ptrs idt =
     (let i = 256 - Suc k; off = idt_ptrs i
      in trap_init_loop k idt_ptrs
           (idt(i := (idt i)\<lparr>d_a := (d_a (idt i) AND NOT 0xffff) OR (off AND 0xffff)\<rparr>)))"

definition trap_init :: "(nat \<Rightarrow> u32) \<Rightarrow> u32 \<Rightarrow> desc_table \<Rightarrow> desc_table" where
  "trap_init idt_ptrs page_fault idt =
     set_trap_gate (trap_init_loop 256 idt_ptrs idt) 14 page_fault"

lemmas desc_fields [bitfields] =
  get_base_def set_base_def set_limit_raw_def limit_field_def desc_access_def desc_flags_def
  set_tssldt_desc_def set_gate_def gate_offset_def gate_selector_def gate_type_def gate_dpl_def
  gate_present_def Let_def

section \<open>The base and limit fields\<close>

lemma get_base_set_base [simp]: "get_base (set_base p x) = x"
  unfolding bitfields u32_bitwise by (simp add: bit_simps)

lemma set_base_set_base: "set_base (set_base p x) y = set_base p y"
  by (rule desc_struct.equality) (simp_all add: bitfields u32_bitwise bit_simps)

lemma set_base_get_base: "set_base p (get_base p) = p"
  by (rule desc_struct.equality) (simp_all add: bitfields u32_bitwise bit_simps)

lemma limit_field_set_base [simp]: "limit_field (set_base p x) = limit_field p"
  unfolding bitfields u32_bitwise by (simp add: bit_simps)

lemma desc_access_set_base [simp]: "desc_access (set_base p x) = desc_access p"
  unfolding bitfields u32_bitwise by (simp add: bit_simps)

lemma desc_flags_set_base [simp]: "desc_flags (set_base p x) = desc_flags p"
  unfolding bitfields u32_bitwise by (simp add: bit_simps)

lemma granularity_set_base [simp]: "bit (d_b (set_base p x)) 23 = bit (d_b p) 23"
  by (simp add: bitfields bit_simps)

lemma get_limit_set_base [simp]: "get_limit (set_base p x) = get_limit p"
  by (simp add: get_limit_def lsl_limit_def)

definition fits20 :: "u32 \<Rightarrow> bool" where
  "fits20 l \<longleftrightarrow> l AND 0xfff00000 = 0"

lemma fits20_bits: "fits20 l \<longleftrightarrow> (\<forall>n < 32. 20 \<le> n \<longrightarrow> \<not> bit l n)"
  unfolding fits20_def u32_bitwise by (simp add: bit_simps)

lemma limit_field_set_limit_raw: "fits20 l \<Longrightarrow> limit_field (set_limit_raw p l) = l"
  unfolding fits20_bits bitfields u32_bitwise by (simp add: bit_simps)

lemma set_limit_raw_set_limit_raw:
  "fits20 k \<Longrightarrow> fits20 l \<Longrightarrow> set_limit_raw (set_limit_raw p k) l = set_limit_raw p l"
  by (rule desc_struct.equality)
    (simp_all add: bitfields fits20_bits u32_bitwise bit_simps)

lemma set_limit_raw_limit_field: "set_limit_raw p (limit_field p) = p"
  by (rule desc_struct.equality) (simp_all add: bitfields u32_bitwise bit_simps)

lemma get_base_set_limit_raw: "get_base (set_limit_raw p l) = get_base p"
  unfolding bitfields u32_bitwise by (simp add: bit_simps)

interpretation base: field_lens get_base set_base "\<lambda>_. True"
  by unfold_locales (simp_all add: set_base_set_base set_base_get_base)

interpretation limit: field_lens limit_field set_limit_raw fits20
  by unfold_locales
    (simp_all add: limit_field_set_limit_raw set_limit_raw_set_limit_raw set_limit_raw_limit_field)

interpretation seg: field_pair get_base set_base "\<lambda>_. True" limit_field set_limit_raw fits20
  by unfold_locales (simp_all add: get_base_set_limit_raw)

text \<open>
  Relocating a segment.  \<^verbatim>\<open>set_base\<close> followed by \<^verbatim>\<open>get_base\<close> returns the base that was
  written, for every descriptor and every 32-bit base; the limit that \<^verbatim>\<open>get_limit\<close> reports and the
  access byte are those of the old descriptor; and writing the old base back restores the
  descriptor bit for bit.
\<close>

lemma set_base_correct:
  "get_base (set_base p x) = x \<and> get_limit (set_base p x) = get_limit p \<and>
   desc_access (set_base p x) = desc_access p \<and> desc_flags (set_base p x) = desc_flags p \<and>
   set_base (set_base p x) (get_base p) = p"
  by (simp add: base.put_restore)

lemma drop_12_fits20: "fits20 (drop_bit 12 x)"
  unfolding fits20_bits all_less_32 by (simp add: bit_simps)

lemma granularity_set_limit_raw:
  "fits20 l \<Longrightarrow> bit (d_b (set_limit_raw p l)) 23 = bit (d_b p) 23"
  unfolding fits20_bits all_less_32 by (simp add: bitfields bit_simps)

lemma page_minus_one:
  fixes n :: u32
  assumes "n AND 0xfff = 0"
  shows "push_bit 12 (drop_bit 12 (n - 1)) OR 0xfff = n - 1"
proof -
  have "(n - 1) AND 0xfff = 0xfff"
    using mask_eqs(3)[of n 12 1] assms by (simp add: mask_numeral)
  then show ?thesis
    unfolding u32_bitwise by (simp add: bit_simps)
qed

text \<open>
  \<^verbatim>\<open>set_limit\<close> stores a limit given in bytes.  For a size that is a positive multiple of a
  page, \<^verbatim>\<open>get_limit\<close> on a page-granular descriptor returns that size, and the base is kept.
\<close>

lemma set_limit_correct:
  assumes "n AND 0xfff = 0" and "bit (d_b p) 23"
  shows "get_limit (set_limit p n) = n \<and> get_base (set_limit p n) = get_base p"
proof -
  have "limit_field (set_limit p n) = drop_bit 12 (n - 1)"
    by (simp add: set_limit_def limit.get_put drop_12_fits20)
  moreover have "bit (d_b (set_limit p n)) 23"
    using assms(2) by (simp add: set_limit_def granularity_set_limit_raw drop_12_fits20)
  ultimately show ?thesis
    using page_minus_one[OF assms(1)]
    by (simp add: get_limit_def lsl_limit_def set_limit_def seg.keep1 drop_12_fits20)
qed

lemma set_limit_correct_example:
  "get_limit (set_limit \<lparr>d_a = 0x9f, d_b = 0xc0fa00\<rparr> 0x4000000) = 0x4000000 \<and>
   get_base (set_limit \<lparr>d_a = 0x9f, d_b = 0xc0fa00\<rparr> 0x4000000) = 0"
  using set_limit_correct [of "0x4000000" "\<lparr>d_a = 0x9f, d_b = 0xc0fa00\<rparr>"]
  by (simp add: get_base_def)

section \<open>Selectors, task descriptors and gates\<close>

lemma TSS_sel_index:
  "n < 64 \<Longrightarrow> TSS_sel (of_nat n) = of_nat (8 * (FIRST_TSS_ENTRY + 2 * n))"
  by (simp add: TSS_sel_def kconsts push_bit_eq_mult)

lemma LDT_sel_index:
  "n < 64 \<Longrightarrow> LDT_sel (of_nat n) = of_nat (8 * (FIRST_LDT_ENTRY + 2 * n))"
  by (simp add: LDT_sel_def kconsts push_bit_eq_mult)

lemma set_tssldt_desc_fields:
  "get_base (set_tssldt_desc addr type) = addr"
  "get_limit (set_tssldt_desc addr type) = 105"
  "type AND 0xff = type \<Longrightarrow> desc_access (set_tssldt_desc addr type) = type"
proof -
  show "get_base (set_tssldt_desc addr type) = addr"
    unfolding bitfields u32_bitwise by (simp add: bit_simps)
  have "limit_field (set_tssldt_desc addr type) = 104"
    unfolding bitfields u32_bitwise by (simp add: bit_simps)
  moreover have "\<not> bit (d_b (set_tssldt_desc addr type)) 23"
    by (simp add: bitfields bit_simps)
  ultimately show "get_limit (set_tssldt_desc addr type) = 105"
    by (simp add: get_limit_def lsl_limit_def)
  show "type AND 0xff = type \<Longrightarrow> desc_access (set_tssldt_desc addr type) = type"
    unfolding bitfields u32_bitwise by (simp add: bit_simps)
qed

lemma set_gate_fields:
  "gate_offset (set_gate type dpl addr) = addr"
  "gate_selector (set_gate type dpl addr) = 8"
  unfolding bitfields u32_bitwise by (simp_all add: bit_simps)

lemma set_gate_kinds:
  "gate_type (set_gate 15 0 addr) = 15 \<and> gate_dpl (set_gate 15 0 addr) = 0 \<and>
     gate_present (set_gate 15 0 addr)"
  "gate_type (set_gate 15 3 addr) = 15 \<and> gate_dpl (set_gate 15 3 addr) = 3 \<and>
     gate_present (set_gate 15 3 addr)"
  "gate_type (set_gate 14 0 addr) = 14 \<and> gate_dpl (set_gate 14 0 addr) = 0 \<and>
     gate_present (set_gate 14 0 addr)"
  unfolding bitfields u32_bitwise by (simp_all add: bit_simps)

text \<open>
  The three gate macros.  The processor reads back from the entry the handler address and the
  kernel code selector 8, the gate is present, a trap or system gate has type 15 and an interrupt
  gate type 14, only the system gate may be entered from privilege level 3, and no other entry of
  the table changes.
\<close>

lemma set_gates_correct:
  "gate_offset (set_trap_gate idt n addr n) = addr \<and>
   gate_offset (set_system_gate idt n addr n) = addr \<and>
   gate_offset (set_intr_gate idt n addr n) = addr \<and>
   gate_selector (set_trap_gate idt n addr n) = 8 \<and>
   gate_selector (set_system_gate idt n addr n) = 8 \<and>
   gate_selector (set_intr_gate idt n addr n) = 8 \<and>
   (gate_type (set_trap_gate idt n addr n), gate_dpl (set_trap_gate idt n addr n)) = (15, 0) \<and>
   (gate_type (set_system_gate idt n addr n), gate_dpl (set_system_gate idt n addr n)) = (15, 3) \<and>
   (gate_type (set_intr_gate idt n addr n), gate_dpl (set_intr_gate idt n addr n)) = (14, 0) \<and>
   gate_present (set_trap_gate idt n addr n) \<and> gate_present (set_system_gate idt n addr n) \<and>
   gate_present (set_intr_gate idt n addr n) \<and>
   (\<forall>m. m = n \<or> set_trap_gate idt n addr m = idt m \<and> set_system_gate idt n addr m = idt m \<and>
      set_intr_gate idt n addr m = idt m)"
  by (simp add: set_trap_gate_def set_system_gate_def set_intr_gate_def set_gate_fields
      set_gate_kinds)

lemma trap_init_loop_entry:
  "k \<le> 256 \<Longrightarrow> trap_init_loop k idt_ptrs idt i =
     (if 256 - k \<le> i \<and> i < 256
      then (idt i)\<lparr>d_a := (d_a (idt i) AND NOT 0xffff) OR (idt_ptrs i AND 0xffff)\<rparr>
      else idt i)"
  by (induction k arbitrary: idt) (auto simp: Let_def)

lemma gate_offset_low_half:
  "gate_offset (d\<lparr>d_a := (d_a d AND NOT 0xffff) OR (off AND 0xffff)\<rparr>) =
     (gate_offset d AND 0xffff0000) OR (off AND 0xffff)"
  "gate_selector (d\<lparr>d_a := (d_a d AND NOT 0xffff) OR (off AND 0xffff)\<rparr>) = gate_selector d"
  unfolding bitfields u32_bitwise by (simp_all add: bit_simps)

text \<open>
  \<^verbatim>\<open>trap_init\<close>.  Every one of the 256 entries but 14 keeps its selector, its attribute half
  and the upper half of its handler address and takes the lower half of the address from
  \<^verbatim>\<open>idt_ptrs\<close>, so it points at \<^verbatim>\<open>idt_ptrs[i]\<close> exactly when the upper halves agree; entry 14 is
  a present trap gate of level 0 on \<^verbatim>\<open>page_fault\<close>; entries beyond the table are untouched.
\<close>

lemma trap_init_correct:
  "(\<forall>i. i = 14 \<or>
      gate_offset (trap_init idt_ptrs pf idt i) =
        (if i < 256 then (gate_offset (idt i) AND 0xffff0000) OR (idt_ptrs i AND 0xffff)
         else gate_offset (idt i)) \<and>
      gate_selector (trap_init idt_ptrs pf idt i) = gate_selector (idt i) \<and>
      d_b (trap_init idt_ptrs pf idt i) = d_b (idt i)) \<and>
   trap_init idt_ptrs pf idt 14 = set_gate 15 0 pf"
  by (simp add: trap_init_def set_trap_gate_def trap_init_loop_entry
      gate_offset_low_half [simplified])

end
