(* ===== verification/Memory.thy ===== *)
theory Memory
  imports Prelude
begin

text \<open>
  Physical memory management: \<^verbatim>\<open>mm/memory.c\<close>, \<^verbatim>\<open>mm/swap.c\<close> and \<^verbatim>\<open>include/linux/mm.h\<close>.

  The state has the page-frame map \<^verbatim>\<open>mem_map\<close> (one reference count per 4 KB frame from 1 MB on),
  the physical memory as 32-bit words at their byte addresses (all accesses of this code are to
  aligned words; the kernel runs on an identity map of the first 16 MB, and its page directory is at
  address 0), the number of reloads of \<^verbatim>\<open>cr3\<close> (\<^verbatim>\<open>invalidate\<close>) and the messages printed.
  \<^verbatim>\<open>mem_map\<close> is indexed by \<^typ>\<open>int\<close>: an index outside the array is the byte of the data segment at
  that distance from its start, which is what the compiled code touches.
\<close>

section \<open>Constants and state\<close>

definition PAGE_SIZE :: int where
  [simp, kconsts]: "PAGE_SIZE = 4096"

definition LOW_MEM :: u32 where
  [simp, kconsts]: "LOW_MEM = 0x100000"

definition USED :: u8 where
  [simp, kconsts]: "USED = 100"

definition PAGING_MEMORY :: nat where
  [simp, kconsts]: "PAGING_MEMORY = 15 * 1024 * 1024"

definition PAGING_PAGES :: nat where
  [simp, kconsts]: "PAGING_PAGES = drop_bit 12 PAGING_MEMORY"

record mm =
  HIGH_MEMORY :: u32
  mem_map :: "int \<Rightarrow> u8"
  pmem :: "u32 \<Rightarrow> u32"
  cr3_loads :: nat
  mm_log :: "(string \<times> u32 list) list"

text \<open>
  \<^verbatim>\<open>MAP_NR\<close> shifts arithmetically when its argument is a \<^verbatim>\<open>long\<close> (in \<^verbatim>\<open>mem_init\<close>) and logically
  when it is an \<^verbatim>\<open>unsigned long\<close> (in \<^verbatim>\<open>un_wp_page\<close>).
\<close>

definition MAP_NR_long :: "u32 \<Rightarrow> int" where
  "MAP_NR_long addr = sint (signed_drop_bit 12 (addr - LOW_MEM))"

definition MAP_NR :: "u32 \<Rightarrow> int" where
  "MAP_NR addr = uint (drop_bit 12 (addr - LOW_MEM))"

definition set_mem_map :: "mm \<Rightarrow> int \<Rightarrow> u8 \<Rightarrow> mm" where
  "set_mem_map s i v = s\<lparr>mem_map := (mem_map s)(i := v)\<rparr>"

definition store :: "mm \<Rightarrow> u32 \<Rightarrow> u32 \<Rightarrow> mm" where
  "store s a v = s\<lparr>pmem := (pmem s)(a := v)\<rparr>"

definition invalidate :: "mm \<Rightarrow> mm" where
  "invalidate s = s\<lparr>cr3_loads := cr3_loads s + 1\<rparr>"

section \<open>\<^verbatim>\<open>mem_init\<close>\<close>

primrec mark_used :: "nat \<Rightarrow> (int \<Rightarrow> u8) \<Rightarrow> (int \<Rightarrow> u8)" where
  "mark_used 0 m = m"
| "mark_used (Suc k) m = (let i = PAGING_PAGES - Suc k in mark_used k (m(int i := USED)))"

primrec mark_free :: "nat \<Rightarrow> int \<Rightarrow> (int \<Rightarrow> u8) \<Rightarrow> (int \<Rightarrow> u8)" where
  "mark_free 0 i m = m"
| "mark_free (Suc k) i m = mark_free k (i + 1) (m(i := 0))"

definition mem_init :: "u32 \<Rightarrow> u32 \<Rightarrow> mm \<Rightarrow> mm" where
  "mem_init start_mem end_mem s =
     (let m = mark_used PAGING_PAGES (mem_map s);
          i = MAP_NR_long start_mem;
          n = sint (signed_drop_bit 12 (end_mem - start_mem))
      in s\<lparr>mm_log := mm_log s @ [(''start_mem = %d\<newline>end_mem %d\<newline>'', [start_mem, end_mem])],
           HIGH_MEMORY := end_mem,
           mem_map := mark_free (nat n) i m\<rparr>)"

section \<open>\<^verbatim>\<open>get_free_page\<close>\<close>

text \<open>
  The search \<^verbatim>\<open>while (mem_map[i] && i >= 0) i--\<close> reads the map before it tests the index, and it
  ends with \<open>i = -1\<close> when no frame is free.  There is no test for that case after the loop.
\<close>

function scan_free_page :: "(int \<Rightarrow> u8) \<Rightarrow> int \<Rightarrow> int" where
  "scan_free_page m i = (if m i \<noteq> 0 \<and> 0 \<le> i then scan_free_page m (i - 1) else i)"
  by pat_completeness auto
termination
  by (relation "measure (\<lambda>(m, i). nat (i + 1))") auto

declare scan_free_page.simps [simp del]

text \<open>The loop \<^verbatim>\<open>for (j = 1024; j >= 1; j--) { *m = 0; m--; }\<close>.\<close>

primrec zero_words :: "nat \<Rightarrow> u32 \<Rightarrow> (u32 \<Rightarrow> u32) \<Rightarrow> (u32 \<Rightarrow> u32)" where
  "zero_words 0 m h = h"
| "zero_words (Suc j) m h = zero_words j (m - 4) (h(m := 0))"

definition get_free_page :: "mm \<Rightarrow> u32 \<times> mm" where
  "get_free_page s =
     (let i = scan_free_page (mem_map s) (int PAGING_PAGES - 1);
          s1 = set_mem_map s i 1;
          a = word_of_int (i * PAGE_SIZE) + LOW_MEM
      in (a, s1\<lparr>pmem := zero_words 1024 (a + 4092) (pmem s1)\<rparr>))"

section \<open>\<^verbatim>\<open>copy_page_tables\<close>\<close>

text \<open>The inner loop over the \<^verbatim>\<open>nr\<close> entries of one page table.\<close>

definition copy_pte :: "u32 \<Rightarrow> u32 \<Rightarrow> mm \<Rightarrow> mm" where
  "copy_pte from_page_table to_page_table s =
     (let this_page = pmem s from_page_table
      in if this_page = 0 then s
         else
           let this_page = this_page AND NOT 2;
               s = store s to_page_table this_page
           in if LOW_MEM < this_page then
                let s = store s from_page_table this_page;
                    i = uint (drop_bit 12 (this_page - LOW_MEM))
                in set_mem_map s i (mem_map s i + 1)
              else s)"

primrec copy_ptes :: "nat \<Rightarrow> u32 \<Rightarrow> u32 \<Rightarrow> mm \<Rightarrow> mm" where
  "copy_ptes 0 f t s = s"
| "copy_ptes (Suc nr) f t s = copy_ptes nr (f + 4) (t + 4) (copy_pte f t s)"

text \<open>The outer loop over the directory entries.\<close>

fun copy_dirs :: "nat \<Rightarrow> u32 \<Rightarrow> u32 \<Rightarrow> u32 \<Rightarrow> mm \<Rightarrow> (u32 \<times> mm) kres" where
  "copy_dirs 0 from from_dir to_dir s = Inr (0, invalidate s)"
| "copy_dirs (Suc n) from from_dir to_dir s =
     (if 1 AND pmem s to_dir \<noteq> 0 then Inl (Panic ''copy_page_tables: already exist'')
      else if 1 AND pmem s from_dir = 0 then copy_dirs n from (from_dir + 4) (to_dir + 4) s
      else
        let from_page_table = 0xfffff000 AND pmem s from_dir;
            (to_page_table, s) = get_free_page s
        in if to_page_table = 0 then Inr (- 1, s)
           else
             let s = store s to_dir (to_page_table OR 7);
                 nr = (if from = 0 then 0xA0 else 1024)
             in copy_dirs n from (from_dir + 4) (to_dir + 4)
                  (copy_ptes nr from_page_table to_page_table s))"

definition copy_page_tables :: "u32 \<Rightarrow> u32 \<Rightarrow> u32 \<Rightarrow> mm \<Rightarrow> (u32 \<times> mm) kres" where
  "copy_page_tables from to sz s =
     (if from AND 0x3fffff \<noteq> 0 \<or> to AND 0x3fffff \<noteq> 0
      then Inl (Panic ''copy_page_tables called with wrong alignment'')
      else
        let from_dir = drop_bit 20 from AND 0xffc;
            to_dir = drop_bit 20 to AND 0xffc;
            n = unat (drop_bit 22 (sz + 0x3fffff))
        in copy_dirs n from from_dir to_dir s)"

section \<open>Write protection faults\<close>

primrec copy_words :: "nat \<Rightarrow> u32 \<Rightarrow> u32 \<Rightarrow> (u32 \<Rightarrow> u32) \<Rightarrow> (u32 \<Rightarrow> u32)" where
  "copy_words 0 from to h = h"
| "copy_words (Suc n) from to h = copy_words n (from + 4) (to + 4) (h(to := h from))"

definition copy_page :: "u32 \<Rightarrow> u32 \<Rightarrow> mm \<Rightarrow> mm" where
  "copy_page from to s = s\<lparr>pmem := copy_words 1024 from to (pmem s)\<rparr>"

definition un_wp_page :: "u32 \<Rightarrow> mm \<Rightarrow> mm" where
  "un_wp_page table_entry s =
     (let old_page = 0xfffff000 AND pmem s table_entry
      in if LOW_MEM \<le> old_page \<and> mem_map s (MAP_NR old_page) = 1
         then invalidate (store s table_entry (pmem s table_entry OR 2))
         else
           let (new_page, s) = get_free_page s;
               s = (if LOW_MEM \<le> old_page
                    then set_mem_map s (MAP_NR old_page) (mem_map s (MAP_NR old_page) - 1)
                    else s);
               s = copy_page old_page new_page s
           in invalidate (store s table_entry (new_page OR 7)))"

definition do_wp_page :: "u32 \<Rightarrow> u32 \<Rightarrow> mm \<Rightarrow> mm" where
  "do_wp_page error_code address s =
     (let x = drop_bit 20 address AND 0xffc;
          y = pmem s x AND 0xfffff000;
          z = y + 4 * (drop_bit 12 address AND 0x3ff)
      in un_wp_page z s)"

definition lin2phy :: "u32 \<Rightarrow> mm \<Rightarrow> u32" where
  "lin2phy address s =
     (drop_bit 10 address AND 0xffc) + (0xfffff000 AND pmem s (drop_bit 20 address AND 0xffc))"

section \<open>Pages and words\<close>

definition in_page :: "u32 \<Rightarrow> u32 \<Rightarrow> bool" where
  "in_page p a \<longleftrightarrow> a AND 0xfffff003 = p"

definition page_aligned :: "u32 \<Rightarrow> bool" where
  "page_aligned p \<longleftrightarrow> p AND 0xfff = 0"

lemma page_aligned_bits: "page_aligned p \<longleftrightarrow> (\<forall>n < 32. n < 12 \<longrightarrow> \<not> bit p n)"
  unfolding page_aligned_def u32_bitwise by (simp add: bit_simps)

lemma bit_nat_bound: "k < 2 ^ m \<Longrightarrow> bit (k :: nat) n \<Longrightarrow> n < m"
  by (metis bit_take_bit_iff take_bit_nat_eq_self_iff)

lemma bit_word_offset:
  assumes "k < 1024"
  shows "bit (4 * of_nat k :: u32) n \<longleftrightarrow> 2 \<le> n \<and> n < 12 \<and> bit k (n - 2)"
proof -
  have "(4 * of_nat k :: u32) = push_bit 2 (of_nat k)"
    by (simp add: push_bit_eq_mult)
  then show ?thesis
    using bit_nat_bound[of k 10 "n - 2"] assms by (auto simp: bit_simps)
qed

lemma word_offset_or:
  assumes "page_aligned p" "k < 1024"
  shows "p + 4 * of_nat k = p OR 4 * of_nat k"
proof (rule disjunctive_add)
  fix n
  show "\<not> bit p n \<or> \<not> bit (4 * of_nat k :: u32) n"
    using assms by (auto simp: page_aligned_bits bit_word_offset)
qed

lemma in_page_iff:
  assumes p: "page_aligned p"
  shows "in_page p a \<longleftrightarrow> (\<exists>k < 1024. a = p + 4 * of_nat k)"
proof
  assume a: "in_page p a"
  let ?k = "unat (drop_bit 2 (a AND 0xffc))"
  have lt: "?k < 1024"
  proof -
    have "drop_bit 2 (a AND 0xffc) \<le> (0x3ff :: u32)"
      by (simp add: drop_bit_and  word_and_le1)
    then show ?thesis by (simp add: word_le_nat_alt)
  qed
  have "a = p OR (a AND 0xffc)"
    using a unfolding in_page_def u32_bitwise by (auto simp: bit_simps)
  also have "a AND 0xffc = 4 * of_nat ?k"
  proof -
    have "push_bit 2 (drop_bit 2 (a AND 0xffc)) = a AND 0xffc"
      unfolding u32_bitwise by (simp add: bit_simps)
    then show ?thesis by (simp add: push_bit_eq_mult mult.commute)
  qed
  also have "p OR 4 * of_nat ?k = p + 4 * of_nat ?k"
    using word_offset_or[OF p lt] by simp
  finally show "\<exists>k < 1024. a = p + 4 * of_nat k" using lt by blast
next
  assume "\<exists>k < 1024. a = p + 4 * of_nat k"
  then obtain k where k: "k < 1024" "a = p OR 4 * of_nat k"
    using word_offset_or[OF p] by blast
  then show "in_page p a"
    using p unfolding in_page_def page_aligned_bits u32_bitwise
    by (simp add: bit_simps bit_word_offset)
qed

lemma word_offset_inject:
  assumes "j < 1024" "k < 1024"
  shows "(p :: u32) + 4 * of_nat j = p + 4 * of_nat k \<longleftrightarrow> j = k"
proof -
  have "unat (4 * of_nat i :: u32) = 4 * i" if "i < 1024" for i
    using that by (simp add: unat_word_ariths unat_of_nat)
  from this[OF assms(1)] this[OF assms(2)]
  have "(4 * of_nat j :: u32) = 4 * of_nat k \<longleftrightarrow> 4 * j = 4 * k"
    by (auto simp: word_unat_eq_iff)
  then show ?thesis by simp
qed

lemma page_offset_bits: "page_aligned p \<Longrightarrow> k < 1024 \<Longrightarrow> in_page p (p + 4 * of_nat k)"
  by (auto simp: in_page_iff)

lemma in_page_base: "page_aligned p \<Longrightarrow> in_page p a \<Longrightarrow> a AND 0xfffff000 = p"
  unfolding page_aligned_bits in_page_def u32_bitwise by (auto simp: bit_simps)

lemma in_page_unique: "in_page p a \<Longrightarrow> in_page q a \<Longrightarrow> p = q"
  by (simp add: in_page_def)

lemma zero_words_apply:
  "zero_words n m h a = (if \<exists>k < n. a = m - 4 * of_nat k then 0 else h a)"
proof (induction n arbitrary: m h)
  case (Suc n)
  have "(\<exists>k < Suc n. a = m - 4 * of_nat k) \<longleftrightarrow> a = m \<or> (\<exists>k < n. a = m - 4 - 4 * of_nat k)"
    by (auto simp: Ex_less_Suc2 algebra_simps)
  then show ?case by (auto simp: Suc.IH)
qed simp

lemma zero_page:
  assumes "page_aligned p"
  shows "zero_words 1024 (p + 4092) h a = (if in_page p a then 0 else h a)"
proof -
  have "(\<exists>k < 1024. a = p + 4092 - 4 * of_nat k) \<longleftrightarrow> (\<exists>k < 1024. a = p + 4 * of_nat k)"
  proof (intro iffI; elim exE conjE)
    fix k :: nat assume k: "k < 1024" "a = p + 4092 - 4 * of_nat k"
    then show "\<exists>k < 1024. a = p + 4 * of_nat k"
      by (intro exI[of _ "1023 - k"]) (simp add: of_nat_diff)
  next
    fix k :: nat assume k: "k < 1024" "a = p + 4 * of_nat k"
    then show "\<exists>k < 1024. a = p + 4092 - 4 * of_nat k"
      by (intro exI[of _ "1023 - k"]) (simp add: of_nat_diff)
  qed
  then show ?thesis using assms by (simp add: zero_words_apply in_page_iff)
qed

lemma scan_free_page_bounds:
  "- 1 \<le> i \<Longrightarrow>
     - 1 \<le> scan_free_page m i \<and> scan_free_page m i \<le> i \<and>
     (\<forall>j. scan_free_page m i < j \<and> j \<le> i \<longrightarrow> m j \<noteq> 0) \<and>
     (0 \<le> scan_free_page m i \<longrightarrow> m (scan_free_page m i) = 0)"
proof (induction m i rule: scan_free_page.induct)
  case (1 m i)
  show ?case
  proof (cases "m i \<noteq> 0 \<and> 0 \<le> i")
    case True
    have step: "scan_free_page m i = scan_free_page m (i - 1)"
      using True by (simp add: scan_free_page.simps [of m i])
    from True 1 show ?thesis unfolding step by (smt (verit))
  next
    case False
    with 1 show ?thesis by (auto simp: scan_free_page.simps [of m i])
  qed
qed

definition frame_addr :: "int \<Rightarrow> u32" where
  "frame_addr i = word_of_int (i * PAGE_SIZE) + LOW_MEM"

lemma frame_addr_eq: "frame_addr i = word_of_int (i * 4096 + 0x100000)"
  by (simp add: frame_addr_def)

lemma frame_addr_uint:
  "- 1 \<le> i \<Longrightarrow> i < 3840 \<Longrightarrow> uint (frame_addr i) = 0x100000 + 4096 * i"
  unfolding frame_addr_eq uint_word_of_int by simp

lemma frame_addr_aligned: "page_aligned (frame_addr i)"
proof -
  have "frame_addr i = push_bit 12 (word_of_int (i + 256))"
    by (simp add: frame_addr_def push_bit_eq_mult algebra_simps)
  then show ?thesis by (simp add: page_aligned_bits bit_simps)
qed

lemma MAP_NR_frame_addr: "0 \<le> i \<Longrightarrow> i < 3840 \<Longrightarrow> MAP_NR (frame_addr i) = i"
proof -
  assume i: "0 \<le> i" "i < 3840"
  have "frame_addr i - LOW_MEM = word_of_int (i * 4096)"
    by (simp add: frame_addr_def)
  then have "MAP_NR (frame_addr i) = uint (word_of_int (i * 4096) :: u32) div 4096"
    by (simp only: MAP_NR_def drop_bit_eq_div uint_div) simp
  also have "uint (word_of_int (i * 4096) :: u32) = i * 4096"
    unfolding uint_word_of_int using i by simp
  finally show ?thesis by simp
qed

section \<open>The allocator\<close>

definition has_free_page :: "mm \<Rightarrow> bool" where
  "has_free_page s \<longleftrightarrow> (\<exists>i. 0 \<le> i \<and> i < int PAGING_PAGES \<and> mem_map s i = 0)"

definition last_free :: "mm \<Rightarrow> int" where
  "last_free s = scan_free_page (mem_map s) (int PAGING_PAGES - 1)"

lemma last_free_range: "- 1 \<le> last_free s" "last_free s < 3840"
  using scan_free_page_bounds[of 3839 "mem_map s"] by (auto simp: last_free_def)

lemma last_free_above: "last_free s < j \<Longrightarrow> j < 3840 \<Longrightarrow> mem_map s j \<noteq> 0"
  using scan_free_page_bounds[of 3839 "mem_map s"] by (auto simp: last_free_def)

lemma last_free_free: "0 \<le> last_free s \<Longrightarrow> mem_map s (last_free s) = 0"
  using scan_free_page_bounds[of 3839 "mem_map s"] by (auto simp: last_free_def)

lemma has_free_page_iff: "has_free_page s \<longleftrightarrow> 0 \<le> last_free s"
proof
  assume "has_free_page s"
  then obtain i where i: "0 \<le> i" "i < 3840" "mem_map s i = 0"
    by (auto simp: has_free_page_def)
  then have "\<not> last_free s < i" using last_free_above by blast
  with i show "0 \<le> last_free s" by simp
next
  assume "0 \<le> last_free s"
  then show "has_free_page s"
    using last_free_range[of s] last_free_free[of s] by (auto simp: has_free_page_def)
qed

lemma get_free_page_eq:
  "get_free_page s =
     (frame_addr (last_free s),
      s\<lparr>mem_map := (mem_map s)(last_free s := 1),
        pmem := (\<lambda>a. if in_page (frame_addr (last_free s)) a then 0 else pmem s a)\<rparr>)"
proof -
  have "zero_words 1024 (frame_addr (last_free s) + 4092) (pmem s) =
    (\<lambda>a. if in_page (frame_addr (last_free s)) a then 0 else pmem s a)"
    by (rule ext) (simp add: zero_page frame_addr_aligned)
  then show ?thesis
    by (simp add: get_free_page_def Let_def set_mem_map_def last_free_def frame_addr_def)
qed

lemma frame_addr_nonzero: "- 1 \<le> i \<Longrightarrow> i < 3840 \<Longrightarrow> frame_addr i \<noteq> 0"
  using frame_addr_uint[of i] by auto

lemma MAP_NR_inject:
  assumes "page_aligned p" "page_aligned q"
  shows "MAP_NR p = MAP_NR q \<longleftrightarrow> p = q"
proof
  assume "MAP_NR p = MAP_NR q"
  then have "drop_bit 12 (p - LOW_MEM) = drop_bit 12 (q - LOW_MEM)"
    unfolding MAP_NR_def by (rule word_uint_eqI)
  moreover have "push_bit 12 (drop_bit 12 (x - LOW_MEM)) = x - LOW_MEM" if "page_aligned x" for x
  proof -
    have "(x - LOW_MEM) AND 0xfff = 0"
      using that mask_eqs(3)[of x 12 LOW_MEM] mask_eqs(4)[of 0 LOW_MEM 12]
      by (simp add: page_aligned_def mask_numeral)
    then show ?thesis unfolding u32_bitwise by (simp add: bit_simps)
  qed
  ultimately have "p - LOW_MEM = q - LOW_MEM" using assms by metis
  then show "p = q" by simp
qed simp

locale page_allocator =
  fixes alloc :: "'s \<Rightarrow> u32 \<times> 's"
    and avail :: "'s \<Rightarrow> bool"
    and refs :: "'s \<Rightarrow> u32 \<Rightarrow> u8"
    and word_at :: "'s \<Rightarrow> u32 \<Rightarrow> u32"
  assumes alloc_aligned: "avail s \<Longrightarrow> page_aligned (fst (alloc s))"
    and alloc_fresh: "avail s \<Longrightarrow> refs s (fst (alloc s)) = 0"
    and alloc_refs: "avail s \<Longrightarrow> page_aligned p \<Longrightarrow>
      refs (snd (alloc s)) p = (if p = fst (alloc s) then 1 else refs s p)"
    and alloc_word: "avail s \<Longrightarrow>
      word_at (snd (alloc s)) a = (if in_page (fst (alloc s)) a then 0 else word_at s a)"
begin

lemma alloc_not_live: "avail s \<Longrightarrow> refs s p \<noteq> 0 \<Longrightarrow> p \<noteq> fst (alloc s)"
  using alloc_fresh by blast

lemma live_page_kept:
  assumes "avail s" "page_aligned p" "refs s p \<noteq> 0" "in_page p a"
  shows "word_at (snd (alloc s)) a = word_at s a"
proof -
  have "\<not> in_page (fst (alloc s)) a"
    using assms alloc_not_live in_page_unique by blast
  then show ?thesis using assms(1) by (simp add: alloc_word)
qed

lemma live_refs_kept:
  "avail s \<Longrightarrow> page_aligned p \<Longrightarrow> refs s p \<noteq> 0 \<Longrightarrow> refs (snd (alloc s)) p = refs s p"
  using alloc_not_live by (auto simp: alloc_refs)

lemma alloc_twice_distinct:
  assumes "avail s" "avail (snd (alloc s))"
  shows "fst (alloc (snd (alloc s))) \<noteq> fst (alloc s)"
  using alloc_fresh[OF assms(2)] alloc_refs[OF assms(1), of "fst (alloc s)"]
    alloc_aligned[OF assms(1)] by auto

end

definition page_refs :: "mm \<Rightarrow> u32 \<Rightarrow> u8" where
  "page_refs s p = mem_map s (MAP_NR p)"

lemma MAP_NR_last_free: "has_free_page s \<Longrightarrow> MAP_NR (frame_addr (last_free s)) = last_free s"
  using last_free_range[of s] by (simp add: has_free_page_iff MAP_NR_frame_addr)

interpretation gfp: page_allocator get_free_page has_free_page page_refs pmem
proof
  fix s p a assume s: "has_free_page s"
  show "page_aligned (fst (get_free_page s))"
    by (simp add: get_free_page_eq frame_addr_aligned)
  show "page_refs s (fst (get_free_page s)) = 0"
    using s last_free_free
    by (simp add: get_free_page_eq page_refs_def MAP_NR_last_free has_free_page_iff[symmetric])
  show "pmem (snd (get_free_page s)) a = (if in_page (fst (get_free_page s)) a then 0 else pmem s a)"
    by (simp add: get_free_page_eq)
  assume "page_aligned p"
  then show "page_refs (snd (get_free_page s)) p =
      (if p = fst (get_free_page s) then 1 else page_refs s p)"
    using s MAP_NR_last_free[OF s] MAP_NR_inject[of p "frame_addr (last_free s)"]
    by (auto simp: get_free_page_eq page_refs_def frame_addr_aligned)
qed

section \<open>Initialisation\<close>

lemma mark_used_apply:
  "n \<le> PAGING_PAGES \<Longrightarrow> mark_used n m i = (if 3840 - int n \<le> i \<and> i < 3840 then USED else m i)"
  by (induction n arbitrary: m) (auto simp: Let_def of_nat_diff)

lemma mark_free_apply: "mark_free k j m i = (if j \<le> i \<and> i < j + int k then 0 else m i)"
  by (induction k arbitrary: j m) auto

lemma mem_init_counts:
  assumes "LOW_MEM \<le> st" "st \<le> en" "en \<le> 0x1000000"
  shows "MAP_NR_long st = (uint st - 0x100000) div 4096"
    and "sint (signed_drop_bit 12 (en - st)) = (uint en - uint st) div 4096"
proof -
  have u: "0x100000 \<le> uint st" "uint st \<le> uint en" "uint en \<le> 0x1000000"
    using assms by (simp_all add: word_le_def)
  have "uint (st - LOW_MEM) = uint st - 0x100000" "uint (en - st) = uint en - uint st"
    using assms by (simp_all add: uint_minus)
  then show "MAP_NR_long st = (uint st - 0x100000) div 4096"
    "sint (signed_drop_bit 12 (en - st)) = (uint en - uint st) div 4096"
    using u by (simp_all add: MAP_NR_long_def sint_signed_drop_bit_eq sint_small drop_bit_eq_div
        del: LOW_MEM_def)
qed

text \<open>
  \<^verbatim>\<open>mem_init\<close> on a memory between 1 MB and 16 MB.  Exactly the whole frames from
  \<^verbatim>\<open>start_mem\<close> up to \<^verbatim>\<open>end_mem\<close> become free, every other frame of the map becomes
  \<^verbatim>\<open>USED\<close>, no byte outside \<^verbatim>\<open>mem_map\<close> is written, memory is untouched and
  \<^verbatim>\<open>HIGH_MEMORY\<close> is set.
\<close>

lemma mem_init_correct:
  assumes "LOW_MEM \<le> st" "st \<le> en" "en \<le> 0x1000000"
  defines "lo \<equiv> (uint st - 0x100000) div 4096" and "n \<equiv> (uint en - uint st) div 4096"
  shows "HIGH_MEMORY (mem_init st en s) = en \<and> pmem (mem_init st en s) = pmem s \<and>
    0 \<le> lo \<and> lo + n \<le> int PAGING_PAGES \<and>
    mem_map (mem_init st en s) =
      (\<lambda>i. if lo \<le> i \<and> i < lo + n then 0
           else if 0 \<le> i \<and> i < int PAGING_PAGES then USED else mem_map s i)"
proof -
  have u: "0x100000 \<le> uint st" "uint st \<le> uint en" "uint en \<le> 0x1000000"
    using assms by (simp_all add: word_le_def)
  have "mem_map (mem_init st en s) = mark_free (nat n) lo (mark_used PAGING_PAGES (mem_map s))"
    using mem_init_counts[OF assms(1-3)] by (simp add: mem_init_def Let_def lo_def n_def)
  moreover have "0 \<le> lo" "0 \<le> n" "lo + n \<le> 3840"
    using u by (simp_all add: lo_def n_def)
  ultimately show ?thesis
    by (auto simp: mem_init_def Let_def mark_free_apply mark_used_apply fun_eq_iff)
qed

lemma mem_init_correct_example:
  "mem_map (mem_init 0x400000 0x1000000 \<lparr>HIGH_MEMORY = 0, mem_map = (\<lambda>_. 7), pmem = (\<lambda>_. 0),
      cr3_loads = 0, mm_log = []\<rparr>) =
   (\<lambda>i. if 768 \<le> i \<and> i < 3840 then 0 else if 0 \<le> i \<and> i < 3840 then 100 else 7)"
  using mem_init_correct [of "0x400000" "0x1000000" "\<lparr>HIGH_MEMORY = 0, mem_map = (\<lambda>_. 7),
    pmem = (\<lambda>_. 0), cr3_loads = 0, mm_log = []\<rparr>"]
  by (simp add: fun_eq_iff)

section \<open>Allocation\<close>

text \<open>
  \<^verbatim>\<open>get_free_page\<close> when some frame is free.  It returns the address of the free frame with the
  largest number, sets its reference count to 1, clears its 1024 words, and changes no other count
  and no other word.
\<close>

lemma get_free_page_takes_last:
  assumes "has_free_page s"
  shows "\<exists>i. 0 \<le> i \<and> i < int PAGING_PAGES \<and> mem_map s i = 0 \<and>
     (\<forall>j. i < j \<and> j < int PAGING_PAGES \<longrightarrow> mem_map s j \<noteq> 0) \<and>
     get_free_page s =
       (LOW_MEM + word_of_int (i * PAGE_SIZE),
        s\<lparr>mem_map := (mem_map s)(i := 1),
          pmem := (\<lambda>a. if in_page (LOW_MEM + word_of_int (i * PAGE_SIZE)) a then 0 else pmem s a)\<rparr>)"
proof (intro exI[of _ "last_free s"] conjI)
  show "0 \<le> last_free s" using assms by (simp add: has_free_page_iff)
  then show "mem_map s (last_free s) = 0" by (rule last_free_free)
  show "last_free s < int PAGING_PAGES" using last_free_range by simp
  show "\<forall>j. last_free s < j \<and> j < int PAGING_PAGES \<longrightarrow> mem_map s j \<noteq> 0"
    using last_free_above by simp
qed (simp add: get_free_page_eq frame_addr_def add.commute)

definition one_free :: mm where
  "one_free = \<lparr>HIGH_MEMORY = 0x1000000, mem_map = (\<lambda>i. if i = 3000 then 0 else 1),
     pmem = (\<lambda>_. 5), cr3_loads = 0, mm_log = []\<rparr>"

lemma has_free_page_one_free: "has_free_page one_free"
  by (auto simp: has_free_page_def one_free_def intro!: exI [of _ 3000])

lemma get_free_page_takes_last_example:
  "get_free_page one_free =
     (0xcb8000, one_free\<lparr>mem_map := (mem_map one_free)(3000 := 1),
        pmem := (\<lambda>a. if in_page 0xcb8000 a then 0 else 5)\<rparr>)"
  using get_free_page_takes_last [OF has_free_page_one_free]
  by (auto simp: one_free_def fun_eq_iff split: if_splits)

text \<open>
  C30: \<^verbatim>\<open>get_free_page\<close> when no frame is free.  The search stops at index -1, so the call writes the
  byte before \<^verbatim>\<open>mem_map\<close>, clears the page at \<^verbatim>\<open>0xff000\<close>, which is not managed memory, and returns
  that address instead of the 0 its comment announces.
\<close>

theorem get_free_page_exhausted:
  assumes "\<not> has_free_page s"
  shows "get_free_page s =
    (0xff000, s\<lparr>mem_map := (mem_map s)(- 1 := 1),
                pmem := (\<lambda>a. if in_page 0xff000 a then 0 else pmem s a)\<rparr>)"
proof -
  have "last_free s = - 1"
    using assms last_free_range(1)[of s] by (simp add: has_free_page_iff)
  then show ?thesis by (simp add: get_free_page_eq frame_addr_def)
qed

theorem get_free_page_exhausted_witness:
  "get_free_page (mem_init 0x400000 0x400000 one_free) =
     (0xff000, (mem_init 0x400000 0x400000 one_free)
        \<lparr>mem_map := (mem_map (mem_init 0x400000 0x400000 one_free))(- 1 := 1),
         pmem := (\<lambda>a. if in_page 0xff000 a then 0 else 5)\<rparr>)"
proof -
  have map: "mem_map (mem_init 0x400000 0x400000 one_free) i = (if 0 \<le> i \<and> i < 3840 then 100 else 1)"
    for i
    by (simp add: mem_init_def Let_def MAP_NR_long_def mark_used_apply one_free_def)
  then have "\<not> has_free_page (mem_init 0x400000 0x400000 one_free)"
    by (auto simp: has_free_page_def)
  moreover have "pmem (mem_init 0x400000 0x400000 one_free) = (\<lambda>_. 5)"
    by (simp add: mem_init_def Let_def one_free_def)
  ultimately show ?thesis using get_free_page_exhausted by (simp cong: if_cong)
qed

text \<open>
  The failure value is never returned.  Whatever the state, the address \<^verbatim>\<open>get_free_page\<close>
  returns is not 0, so the out-of-memory branches of \<^verbatim>\<open>copy_page_tables\<close> and \<^verbatim>\<open>copy_process\<close>
  are dead.
\<close>

lemma get_free_page_never_null: "fst (get_free_page s) \<noteq> NULL"
  using frame_addr_nonzero last_free_range by (simp add: get_free_page_eq)

end
