(* ===== verification/Paging.thy ===== *)
theory Paging
  imports Memory
begin

text \<open>
  What the page-table code of \<^verbatim>\<open>mm/memory.c\<close> achieves: \<^verbatim>\<open>copy_page_tables\<close> makes the child
  share the parent's frames read-only and counts the new references; \<^verbatim>\<open>un_wp_page\<close> gives the
  faulting process a private writable copy and leaves every other page alone.  The proofs use the
  allocator only through its contract (\<open>page_allocator\<close>, interpreted as \<open>gfp\<close>).
\<close>

section \<open>Copying page table entries\<close>

definition ro :: "u32 \<Rightarrow> u32" where
  "ro e = e AND NOT 2"

definition shared :: "u32 \<Rightarrow> bool" where
  "shared e \<longleftrightarrow> e \<noteq> 0 \<and> LOW_MEM < ro e"

definition entry_frame :: "u32 \<Rightarrow> int" where
  "entry_frame e = uint (drop_bit 12 (ro e - LOW_MEM))"

lemma shared_0 [simp]: "\<not> shared 0"
  by (simp add: shared_def)

lemma copy_pte_eq:
  "copy_pte f t s =
     (let e = pmem s f in
      s\<lparr>pmem := (if e = 0 then pmem s
                 else if shared e then (pmem s)(t := ro e, f := ro e)
                 else (pmem s)(t := ro e)),
        mem_map := (if shared e
                    then (mem_map s)(entry_frame e := mem_map s (entry_frame e) + 1)
                    else mem_map s)\<rparr>)"
  by (simp add: copy_pte_def Let_def store_def set_mem_map_def ro_def shared_def entry_frame_def)

definition pte_at :: "mm \<Rightarrow> u32 \<Rightarrow> nat \<Rightarrow> u32" where
  "pte_at s table k = pmem s (table + 4 * of_nat k)"

definition frame_count :: "mm \<Rightarrow> u32 \<Rightarrow> nat list \<Rightarrow> int \<Rightarrow> nat" where
  "frame_count s table ks i =
     length (filter (\<lambda>k. shared (pte_at s table k) \<and> entry_frame (pte_at s table k) = i) ks)"

lemma word_offset_page_neq:
  assumes "page_aligned f" "page_aligned t" "f \<noteq> t" "j < 1024" "k < 1024"
  shows "f + 4 * of_nat j \<noteq> t + 4 * of_nat k"
  using assms page_offset_bits[of f j] page_offset_bits[of t k] in_page_unique by metis

lemma copy_pte_at:
  fixes s :: mm
  assumes pages: "page_aligned f" "page_aligned t" "f \<noteq> t" and k: "k < 1024"
  defines "s' \<equiv> copy_pte (f + 4 * of_nat k) (t + 4 * of_nat k) s"
    and "e \<equiv> pte_at s f k"
  shows "j < 1024 \<Longrightarrow> pte_at s' f j = (if j = k \<and> shared e then ro e else pte_at s f j)"
    and "j < 1024 \<Longrightarrow> pte_at s' t j = (if j = k \<and> e \<noteq> 0 then ro e else pte_at s t j)"
    and "\<not> in_page f a \<Longrightarrow> \<not> in_page t a \<Longrightarrow> pmem s' a = pmem s a"
    and "mem_map s' i = mem_map s i + of_nat (frame_count s f [k] i)"
proof -
  note neq = word_offset_page_neq[OF pages _ k] word_offset_page_neq[OF pages k]
    word_offset_inject[OF _ k]
  show "j < 1024 \<Longrightarrow> pte_at s' f j = (if j = k \<and> shared e then ro e else pte_at s f j)"
    using neq neq(1)[symmetric] by (auto simp: s'_def e_def pte_at_def copy_pte_eq Let_def)
  show "j < 1024 \<Longrightarrow> pte_at s' t j = (if j = k \<and> e \<noteq> 0 then ro e else pte_at s t j)"
    using neq neq(2)[symmetric]
    by (auto simp: s'_def e_def pte_at_def copy_pte_eq Let_def shared_def)
  show "\<not> in_page f a \<Longrightarrow> \<not> in_page t a \<Longrightarrow> pmem s' a = pmem s a"
    using pages k by (auto simp: s'_def copy_pte_eq Let_def in_page_iff)
  show "mem_map s' i = mem_map s i + of_nat (frame_count s f [k] i)"
    by (auto simp: s'_def copy_pte_eq Let_def frame_count_def pte_at_def)
qed

lemma copy_ptes_at:
  assumes pages: "page_aligned f" "page_aligned t" "f \<noteq> t"
  shows "k + n \<le> 1024 \<Longrightarrow>
    (\<forall>j < 1024. pte_at (copy_ptes n (f + 4 * of_nat k) (t + 4 * of_nat k) s) f j =
       (if k \<le> j \<and> j < k + n \<and> shared (pte_at s f j) then ro (pte_at s f j) else pte_at s f j)) \<and>
    (\<forall>j < 1024. pte_at (copy_ptes n (f + 4 * of_nat k) (t + 4 * of_nat k) s) t j =
       (if k \<le> j \<and> j < k + n \<and> pte_at s f j \<noteq> 0 then ro (pte_at s f j) else pte_at s t j)) \<and>
    (\<forall>a. \<not> in_page f a \<longrightarrow> \<not> in_page t a \<longrightarrow>
       pmem (copy_ptes n (f + 4 * of_nat k) (t + 4 * of_nat k) s) a = pmem s a) \<and>
    (\<forall>i. mem_map (copy_ptes n (f + 4 * of_nat k) (t + 4 * of_nat k) s) i =
       mem_map s i + of_nat (frame_count s f [k..<k + n] i))"
proof (induction n arbitrary: k s)
  case 0
  then show ?case by (auto simp: frame_count_def)
next
  case (Suc n)
  let ?s1 = "copy_pte (f + 4 * of_nat k) (t + 4 * of_nat k) s"
  have k: "k < 1024" "Suc k + n \<le> 1024" using Suc.prems by auto
  have step: "copy_ptes (Suc n) (f + 4 * of_nat k) (t + 4 * of_nat k) s =
      copy_ptes n (f + 4 * of_nat (Suc k)) (t + 4 * of_nat (Suc k)) ?s1"
    by (simp add: algebra_simps)
  note one = copy_pte_at[OF pages k(1), where s = s]
  have count: "frame_count ?s1 f [Suc k..<Suc k + n] i = frame_count s f [Suc k..<Suc k + n] i" for i
    unfolding frame_count_def using k(2) by (intro arg_cong[where f = length] filter_cong) (auto simp: one)
  have app: "frame_count s f [k..<k + Suc n] i =
      frame_count s f [k] i + frame_count s f [Suc k..<Suc k + n] i" for i
  proof -
    have "[k..<k + Suc n] = k # [Suc k..<Suc k + n]"
      by (simp only: add_Suc_shift upt_conv_Cons [OF less_add_Suc1] add_Suc_right [symmetric]
          add_Suc [symmetric]) (simp add: upt_conv_Cons del: upt_Suc)
    then show ?thesis by (simp add: frame_count_def del: upt_Suc)
  qed
  define s1 where "s1 = ?s1"
  define S where "S = copy_ptes n (f + 4 * of_nat (Suc k)) (t + 4 * of_nat (Suc k)) s1"
  note IH = Suc.IH[OF k(2), of s1, folded S_def]
  note one = one[folded s1_def] and count = count[folded s1_def]
  have ind: "k \<le> j \<and> j < k + Suc n \<longleftrightarrow> j = k \<or> Suc k \<le> j \<and> j < Suc k + n" for j by auto
  have "pte_at S f j = (if k \<le> j \<and> j < k + Suc n \<and> shared (pte_at s f j)
      then ro (pte_at s f j) else pte_at s f j)" if "j < 1024" for j
    using IH that by (cases "j = k") (simp_all add: one ind)
  moreover have "pte_at S t j = (if k \<le> j \<and> j < k + Suc n \<and> pte_at s f j \<noteq> 0
      then ro (pte_at s f j) else pte_at s t j)" if "j < 1024" for j
    using IH that by (cases "j = k") (simp_all add: one ind)
  moreover have "pmem S a = pmem s a" if "\<not> in_page f a" "\<not> in_page t a" for a
    using IH that by (simp add: one)
  moreover have "mem_map S i = mem_map s i + of_nat (frame_count s f [k..<k + Suc n] i)" for i
    using IH by (simp only: one count app) simp
  ultimately show ?case unfolding step s1_def[symmetric] S_def[symmetric] by blast
qed

section \<open>Copying a page\<close>

lemma copy_words_at:
  assumes pages: "page_aligned p" "page_aligned q" "p \<noteq> q"
  shows "k + n \<le> 1024 \<Longrightarrow>
    (\<forall>j < 1024. copy_words n (p + 4 * of_nat k) (q + 4 * of_nat k) h (q + 4 * of_nat j) =
       (if k \<le> j \<and> j < k + n then h (p + 4 * of_nat j) else h (q + 4 * of_nat j))) \<and>
    (\<forall>a. \<not> in_page q a \<longrightarrow> copy_words n (p + 4 * of_nat k) (q + 4 * of_nat k) h a = h a)"
proof (induction n arbitrary: k h)
  case 0
  then show ?case by auto
next
  case (Suc n)
  define h1 where "h1 = h(q + 4 * of_nat k := h (p + 4 * of_nat k))"
  have k: "k < 1024" "Suc k + n \<le> 1024" using Suc.prems by auto
  have step: "copy_words (Suc n) (p + 4 * of_nat k) (q + 4 * of_nat k) h =
      copy_words n (p + 4 * of_nat (Suc k)) (q + 4 * of_nat (Suc k)) h1"
    by (simp add: algebra_simps h1_def)
  have src: "h1 (p + 4 * of_nat j) = h (p + 4 * of_nat j)" if "j < 1024" for j
    using word_offset_page_neq[OF pages that k(1)] by (simp add: h1_def)
  have dst: "h1 (q + 4 * of_nat j) = (if j = k then h (p + 4 * of_nat k) else h (q + 4 * of_nat j))"
    if "j < 1024" for j
    using word_offset_inject[OF that k(1), of q] by (auto simp: h1_def)
  have out: "h1 a = h a" if "\<not> in_page q a" for a
    using that page_offset_bits[OF pages(2) k(1)] by (auto simp: h1_def)
  have ind: "k \<le> j \<and> j < k + Suc n \<longleftrightarrow> j = k \<or> Suc k \<le> j \<and> j < Suc k + n" for j by auto
  show ?case
    unfolding step using Suc.IH[OF k(2), of h1] by (auto simp: src dst out ind)
qed

lemma copy_page_at:
  assumes "page_aligned p" "page_aligned q" "p \<noteq> q"
  shows "j < 1024 \<Longrightarrow> pmem (copy_page p q s) (q + 4 * of_nat j) = pmem s (p + 4 * of_nat j)"
    and "\<not> in_page q a \<Longrightarrow> pmem (copy_page p q s) a = pmem s a"
    and "mem_map (copy_page p q s) = mem_map s"
  using copy_words_at[OF assms, of 0 1024 "pmem s"] by (simp_all add: copy_page_def)

section \<open>The state after boot\<close>

text \<open>
  The identity map that \<^verbatim>\<open>boot/head.s\<close> leaves behind (directory at 0, four page tables from
  \<^verbatim>\<open>0x1000\<close> on, all entries present, writable and for the user), and the frame map after the
  call of \<^verbatim>\<open>mem_init\<close> in \<^verbatim>\<open>init/main.c\<close>.  Used to instantiate the theorems.
\<close>

definition boot_pmem :: "u32 \<Rightarrow> u32" where
  "boot_pmem a =
     (if a < 0x10 then 0x1007 + 0x400 * a
      else if 0x1000 \<le> a \<and> a < 0x5000 then 0x400 * (a - 0x1000) + 7 else 0)"

definition boot_mm :: mm where
  "boot_mm = mem_init 0x400000 0x1000000
     \<lparr>HIGH_MEMORY = 0, mem_map = (\<lambda>_. 0), pmem = boot_pmem, cr3_loads = 0, mm_log = []\<rparr>"

lemma boot_mm_simps:
  "pmem boot_mm = boot_pmem"
  "mem_map boot_mm = (\<lambda>i. if 768 \<le> i \<and> i < 3840 then 0 else if 0 \<le> i \<and> i < 3840 then 100 else 0)"
proof -
  show "pmem boot_mm = boot_pmem" by (simp add: boot_mm_def mem_init_def Let_def)
  have "MAP_NR_long 0x400000 = 768" by (simp add: MAP_NR_long_def)
  then show "mem_map boot_mm =
      (\<lambda>i. if 768 \<le> i \<and> i < 3840 then 0 else if 0 \<le> i \<and> i < 3840 then 100 else 0)"
    by (simp add: boot_mm_def mem_init_def Let_def fun_eq_iff mark_free_apply mark_used_apply)
qed

lemma has_free_page_boot: "has_free_page boot_mm"
  by (auto simp: has_free_page_def boot_mm_simps intro!: exI [of _ 1000])

section \<open>Copy on write\<close>

definition page_of :: "u32 \<Rightarrow> u32" where
  "page_of a = 0xfffff000 AND a"

lemma page_of_aligned [simp]: "page_aligned (page_of a)"
  unfolding page_of_def page_aligned_def u32_bitwise by (simp add: bit_simps)

lemma page_of_entry:
  assumes "page_aligned p" shows "page_of (p OR 7) = p" "page_of (p OR 2) = p" "page_of p = p"
  using assms unfolding page_of_def page_aligned_bits u32_bitwise by (simp_all add: bit_simps)

lemma in_page_page_of: "in_page p a \<Longrightarrow> page_aligned p \<Longrightarrow> p = page_of a"
  using in_page_base by (simp add: page_of_def and.commute)

definition live :: "mm \<Rightarrow> u32 \<Rightarrow> bool" where
  "live s p \<longleftrightarrow> p < LOW_MEM \<or> page_refs s p \<noteq> 0"

lemma new_page_high: "has_free_page s \<Longrightarrow> LOW_MEM \<le> fst (get_free_page s)"
  using last_free_range[of s] frame_addr_uint[of "last_free s"]
  by (simp add: has_free_page_iff get_free_page_eq word_le_def)

lemma new_page_not_live: "has_free_page s \<Longrightarrow> live s p \<Longrightarrow> p \<noteq> fst (get_free_page s)"
  using new_page_high[of s] gfp.alloc_not_live[of s p] by (auto simp: live_def)

lemma live_word_kept:
  assumes "has_free_page s" "live s (page_of a)"
  shows "\<not> in_page (fst (get_free_page s)) a"
  using assms new_page_not_live in_page_page_of gfp.alloc_aligned by metis

text \<open>
  A write fault on a page that only the faulting process uses just sets the writable bit of
  the entry and flushes the translation cache; no frame is allocated and no other word changes.
\<close>

lemma un_wp_page_exclusive:
  assumes "LOW_MEM \<le> page_of (pmem s te)" "page_refs s (page_of (pmem s te)) = 1"
  shows "un_wp_page te s = s\<lparr>pmem := (pmem s)(te := pmem s te OR 2), cr3_loads := cr3_loads s + 1\<rparr>"
  using assms by (simp add: un_wp_page_def page_of_def page_refs_def store_def invalidate_def)

lemma un_wp_page_exclusive_example:
  "un_wp_page 0x1014 (one_free\<lparr>pmem := (\<lambda>_. 0)(0x1014 := 0x200005)\<rparr>) =
     one_free\<lparr>pmem := (\<lambda>_. 0)(0x1014 := 0x200007), cr3_loads := 1\<rparr>"
  using un_wp_page_exclusive [of "one_free\<lparr>pmem := (\<lambda>_. 0)(0x1014 := 0x200005)\<rparr>" "0x1014"]
  by (simp add: page_of_def page_refs_def one_free_def MAP_NR_def)

lemma page_refs_set_mem_map:
  "page_aligned p \<Longrightarrow> page_aligned q \<Longrightarrow>
     page_refs (set_mem_map s (MAP_NR p) v) q = (if q = p then v else page_refs s q)"
  using MAP_NR_inject[of q p] by (auto simp: page_refs_def set_mem_map_def)

lemma un_wp_page_cow:
  assumes free: "has_free_page s"
    and old: "live s (page_of (pmem s te))"
    and te: "live s (page_of te)"
    and shared: "\<not> (LOW_MEM \<le> page_of (pmem s te) \<and> page_refs s (page_of (pmem s te)) = 1)"
  shows "\<exists>new. page_aligned new \<and> page_refs s new = 0 \<and> LOW_MEM \<le> new \<and>
     pmem (un_wp_page te s) te = new OR 7 \<and>
     page_refs (un_wp_page te s) new = 1 \<and>
     (\<forall>j < 1024. pmem (un_wp_page te s) (new + 4 * of_nat j) =
        pmem s (page_of (pmem s te) + 4 * of_nat j)) \<and>
     (\<forall>a. a \<noteq> te \<longrightarrow> \<not> in_page new a \<longrightarrow> pmem (un_wp_page te s) a = pmem s a) \<and>
     (\<forall>p. page_aligned p \<longrightarrow> p \<noteq> new \<longrightarrow>
        page_refs (un_wp_page te s) p =
          (if p = page_of (pmem s te) \<and> LOW_MEM \<le> p then page_refs s p - 1 else page_refs s p))"
proof -
  define new where "new = fst (get_free_page s)"
  define s1 where "s1 = snd (get_free_page s)"
  let ?old = "page_of (pmem s te)"
  define s2 where "s2 = (if LOW_MEM \<le> ?old
    then set_mem_map s1 (MAP_NR ?old) (mem_map s1 (MAP_NR ?old) - 1) else s1)"
  have eq: "un_wp_page te s = invalidate (store (copy_page ?old new s2) te (new OR 7))"
    using shared
    by (simp add: un_wp_page_def page_of_def page_refs_def split_beta Let_def new_def s1_def s2_def
        del: LOW_MEM_def)
  have new: "page_aligned new" "page_refs s new = 0" "LOW_MEM \<le> new" "?old \<noteq> new"
    using gfp.alloc_aligned gfp.alloc_fresh new_page_high new_page_not_live free old
    by (auto simp: new_def)
  note cp = copy_page_at[OF page_of_aligned new(1,4)]
  have te_out: "\<not> in_page new te"
    using live_word_kept[OF free te] by (simp add: new_def)
  have pm: "pmem s2 a = (if in_page new a then 0 else pmem s a)" for a
    using gfp.alloc_word[OF free] by (simp add: s2_def s1_def new_def set_mem_map_def)
  have old_words: "pmem s2 (?old + 4 * of_nat j) = pmem s (?old + 4 * of_nat j)" if "j < 1024" for j
    using pm new(4) page_offset_bits[OF page_of_aligned that] in_page_unique by (metis)
  have rf: "page_refs s2 p = (if p = new then 1
      else if p = ?old \<and> LOW_MEM \<le> p then page_refs s p - 1 else page_refs s p)"
    if "page_aligned p" for p
  proof -
    have s1: "page_refs s1 p = (if p = new then 1 else page_refs s p)" if "page_aligned p" for p
      using gfp.alloc_refs[OF free that] by (simp add: s1_def new_def)
    have "mem_map s1 (MAP_NR ?old) = page_refs s ?old"
      using s1[of ?old] new(4) by (simp add: page_refs_def)
    then show ?thesis
      using that new(4) s1[OF that] by (auto simp: s2_def page_refs_set_mem_map)
  qed
  have refs: "page_refs (un_wp_page te s) p = page_refs s2 p" for p
    by (simp add: eq page_refs_def invalidate_def store_def cp(3))
  have mem: "pmem (un_wp_page te s) a =
      (if a = te then new OR 7 else pmem (copy_page ?old new s2) a)" for a
    by (simp add: eq invalidate_def store_def)
  have te_neq: "new + 4 * of_nat j \<noteq> te" if "j < 1024" for j
    using te_out page_offset_bits[OF new(1) that] by auto
  show ?thesis
    using new te_neq cp pm old_words rf
    by (intro exI[of _ new]) (auto simp: refs mem)
qed

section \<open>Sharing the address space\<close>

lemma lin2phy_eq:
  "lin2phy address s =
     page_of (pmem s (drop_bit 20 address AND 0xffc)) + 4 * (drop_bit 12 address AND 0x3ff)"
proof -
  have "drop_bit 10 address AND 0xffc = push_bit 2 (drop_bit 12 address AND 0x3ff)"
    unfolding u32_bitwise by (simp add: bit_simps)
  then show ?thesis
    by (simp add: lin2phy_def page_of_def push_bit_eq_mult algebra_simps)
qed

lemma do_wp_page_lin2phy: "do_wp_page error_code address s = un_wp_page (lin2phy address s) s"
  by (simp add: do_wp_page_def lin2phy_eq Let_def page_of_def and.commute)

definition dir_index :: "u32 \<Rightarrow> u32" where
  "dir_index la = drop_bit 20 la AND 0xffc"

definition table_index :: "u32 \<Rightarrow> nat" where
  "table_index la = unat (drop_bit 12 la AND 0x3ff)"

lemma table_index_less: "table_index la < 1024"
proof -
  have "drop_bit 12 la AND 0x3ff \<le> (0x3ff :: u32)" by (rule word_and_le1)
  then show ?thesis by (simp add: table_index_def word_le_nat_alt)
qed

definition pte_of :: "u32 \<Rightarrow> mm \<Rightarrow> u32" where
  "pte_of la s = pmem s (lin2phy la s)"

lemma pte_of_pte_at: "pte_of la s = pte_at s (page_of (pmem s (dir_index la))) (table_index la)"
  by (simp add: pte_of_def pte_at_def lin2phy_eq dir_index_def table_index_def)

lemma dir_index_page: "page_of (dir_index la) = 0"
  unfolding page_of_def dir_index_def u32_bitwise by (simp add: bit_simps)

lemma region_index:
  assumes "base AND 0x3fffff = 0" "off < 0x400000"
  shows "dir_index (base + off) = dir_index base" "table_index (base + off) = unat (drop_bit 12 off)"
proof -
  have off: "off AND 0x3fffff = off"
    using assms(2) less_mask_eq[of off 22] by (simp add: mask_numeral)
  have "base + off = base OR off"
  proof (rule disjunctive_add_eq_or)
    show "base AND off = 0"
      using assms(1) off unfolding u32_bitwise by (auto simp: bit_simps)
  qed
  then show "dir_index (base + off) = dir_index base"
    using off unfolding dir_index_def u32_bitwise by (auto simp: bit_simps)
  have "drop_bit 12 (base OR off) AND 0x3ff = drop_bit 12 off"
    using assms(1) off unfolding u32_bitwise by (auto simp: bit_simps)
  then show "table_index (base + off) = unat (drop_bit 12 off)"
    using \<open>base + off = base OR off\<close> by (simp add: table_index_def)
qed

lemma copy_page_tables_one:
  assumes al: "from AND 0x3fffff = 0" "to AND 0x3fffff = 0"
    and one: "drop_bit 22 (sz + 0x3fffff) = 1"
    and free: "has_free_page s"
    and present: "bit (pmem s (dir_index from)) 0" and absent: "\<not> bit (pmem s (dir_index to)) 0"
  defines "ft \<equiv> page_of (pmem s (dir_index from))"
    and "tt \<equiv> fst (get_free_page s)"
    and "nr \<equiv> (if from = 0 then 0xA0 else 1024)"
  shows "copy_page_tables from to sz s =
    Inr (0, invalidate (copy_ptes nr ft tt
      (store (snd (get_free_page s)) (dir_index to) (tt OR 7))))"
proof -
  have nz: "tt \<noteq> 0"
    using new_page_high[OF free] by (auto simp: tt_def)
  have bit0: "1 AND x = 0 \<longleftrightarrow> \<not> bit x 0" for x :: u32
    by (simp add: and.commute[of 1] and_one_eq bit_0 flip: even_iff_mod_2_eq_zero)
  have n: "unat (drop_bit 22 (sz + 0x3fffff)) = Suc 0" using one by simp
  show ?thesis
    using al present absent nz
    by (simp add: copy_page_tables_def n bit0 Let_def split_beta dir_index_def[symmetric] ft_def tt_def
        nr_def page_of_def)
qed

lemma not_in_page_other: "page_aligned p \<Longrightarrow> p \<noteq> page_of a \<Longrightarrow> \<not> in_page p a"
  using in_page_page_of by blast

lemma ro_0 [simp]: "ro 0 = 0"
  by (simp add: ro_def)

lemma copy_page_tables_effect:
  assumes al: "from AND 0x3fffff = 0" "to AND 0x3fffff = 0"
    and one: "drop_bit 22 (sz + 0x3fffff) = 1"
    and free: "has_free_page s"
    and present: "bit (pmem s (dir_index from)) 0" and absent: "\<not> bit (pmem s (dir_index to)) 0"
    and ft: "live s (page_of (pmem s (dir_index from)))" "page_of (pmem s (dir_index from)) \<noteq> 0"
  defines "ft \<equiv> page_of (pmem s (dir_index from))"
    and "tt \<equiv> fst (get_free_page s)"
    and "nr \<equiv> (if from = 0 then 0xA0 else 1024)"
  shows "\<exists>s'. copy_page_tables from to sz s = Inr (0, s') \<and>
    pmem s' (dir_index to) = tt OR 7 \<and>
    (\<forall>j < 1024. pte_at s' tt j = (if j < nr then ro (pte_at s ft j) else 0)) \<and>
    (\<forall>j < 1024. pte_at s' ft j =
       (if j < nr \<and> shared (pte_at s ft j) then ro (pte_at s ft j) else pte_at s ft j)) \<and>
    (\<forall>a. a \<noteq> dir_index to \<longrightarrow> \<not> in_page ft a \<longrightarrow> \<not> in_page tt a \<longrightarrow> pmem s' a = pmem s a) \<and>
    (\<forall>i. mem_map s' i =
       ((mem_map s)(last_free s := 1)) i + of_nat (frame_count s ft [0..<nr] i))"
proof -
  define s2 where "s2 = store (snd (get_free_page s)) (dir_index to) (tt OR 7)"
  let ?s' = "copy_ptes nr ft tt s2"
  have eq: "copy_page_tables from to sz s = Inr (0, invalidate ?s')"
    using copy_page_tables_one[OF al one free present absent]
    by (simp add: s2_def ft_def tt_def nr_def)
  have tt: "page_aligned tt" "tt \<noteq> 0" "ft \<noteq> tt"
    using gfp.alloc_aligned[OF free] new_page_high[OF free] new_page_not_live[OF free ft(1)]
    by (auto simp: tt_def ft_def)
  have ftp: "page_aligned ft" "ft \<noteq> 0" using ft(2) by (simp_all add: ft_def)
  note out = not_in_page_other[OF tt(1), of "dir_index to"]
    not_in_page_other[OF ftp(1), of "dir_index to"]
  have dir_out: "\<not> in_page tt (dir_index to)" "\<not> in_page ft (dir_index to)"
    using out tt(2) ftp(2) by (auto simp: dir_index_page)
  have s2_mem: "pmem s2 a = (if a = dir_index to then tt OR 7
      else if in_page tt a then 0 else pmem s a)" for a
    using gfp.alloc_word[OF free] by (simp add: s2_def store_def tt_def)
  have s2_ft: "pte_at s2 ft j = pte_at s ft j" if "j < 1024" for j
    using dir_out(2) page_offset_bits[OF ftp(1) that] tt(3) in_page_unique
    unfolding pte_at_def s2_mem by metis
  have s2_tt: "pte_at s2 tt j = 0" if "j < 1024" for j
    using dir_out(1) page_offset_bits[OF tt(1) that] unfolding pte_at_def s2_mem by auto
  have s2_map: "mem_map s2 = (mem_map s)(last_free s := 1)"
    by (simp add: s2_def store_def get_free_page_eq)
  have nr: "0 + nr \<le> 1024" by (simp add: nr_def)
  note c = copy_ptes_at[OF ftp(1) tt(1,3) nr, of s2, simplified]
  have cnt: "frame_count s2 ft [0..<nr] i = frame_count s ft [0..<nr] i" for i
    unfolding frame_count_def using nr
    by (intro arg_cong[where f = length] filter_cong) (auto simp: s2_ft)
  have "pmem ?s' (dir_index to) = tt OR 7"
    using c dir_out by (simp add: s2_mem)
  moreover have "pte_at ?s' tt j = (if j < nr then ro (pte_at s ft j) else 0)" if "j < 1024" for j
    using c that by (simp add: s2_ft s2_tt)
  moreover have "pte_at ?s' ft j =
      (if j < nr \<and> shared (pte_at s ft j) then ro (pte_at s ft j) else pte_at s ft j)"
    if "j < 1024" for j
    using c that by (simp add: s2_ft)
  moreover have "pmem ?s' a = pmem s a"
    if "a \<noteq> dir_index to" "\<not> in_page ft a" "\<not> in_page tt a" for a
    using c that by (simp add: s2_mem)
  moreover have "mem_map ?s' i = mem_map s2 i + of_nat (frame_count s ft [0..<nr] i)" for i
    using c by (simp add: cnt)
  ultimately show ?thesis
    unfolding eq by (intro exI[of _ "invalidate ?s'"])
      (simp add: invalidate_def pte_at_def s2_map)
qed

text \<open>
  \<^verbatim>\<open>copy_page_tables\<close> for a region of one directory entry (the size of every fork here).
  When the source table exists, the target entry is empty and a frame is free, the call succeeds and
  every linear address of the target region has the entry of the corresponding source address with
  the write bit cleared, so both map the same frame; a source entry above 1 MB becomes
  read-only too; for the kernel's own region only the first 160 entries (640 KB) are copied; and
  the count of every frame grows by the number of entries now shared, with the new table's frame
  counted once.
\<close>

lemma copy_page_tables_regions:
  assumes al: "from AND 0x3fffff = 0" "to AND 0x3fffff = 0"
    and one: "drop_bit 22 (sz + 0x3fffff) = 1"
    and free: "has_free_page s"
    and present: "bit (pmem s (dir_index from)) 0" and absent: "\<not> bit (pmem s (dir_index to)) 0"
    and ft: "live s (page_of (pmem s (dir_index from)))" "page_of (pmem s (dir_index from)) \<noteq> 0"
  shows "\<exists>s'. copy_page_tables from to sz s = Inr (0, s') \<and>
    (\<forall>off < 0x400000. if from = 0 \<and> 0xA0000 \<le> off
       then pte_of (to + off) s' = 0 \<and> pte_of (from + off) s' = pte_of (from + off) s
       else pte_of (to + off) s' = ro (pte_of (from + off) s) \<and>
         pte_of (from + off) s' = (if shared (pte_of (from + off) s)
           then ro (pte_of (from + off) s) else pte_of (from + off) s)) \<and>
    (\<forall>i. mem_map s' i = ((mem_map s)(last_free s := 1)) i +
       of_nat (frame_count s (page_of (pmem s (dir_index from)))
         [0..<if from = 0 then 0xA0 else 1024] i))"
proof -
  let ?ft = "page_of (pmem s (dir_index from))" and ?tt = "fst (get_free_page s)"
  let ?nr = "if from = 0 then 0xA0 else 1024 :: nat"
  obtain s' where s': "copy_page_tables from to sz s = Inr (0, s')"
    "pmem s' (dir_index to) = ?tt OR 7"
    "\<forall>j < 1024. pte_at s' ?tt j = (if j < ?nr then ro (pte_at s ?ft j) else 0)"
    "\<forall>j < 1024. pte_at s' ?ft j =
       (if j < ?nr \<and> shared (pte_at s ?ft j) then ro (pte_at s ?ft j) else pte_at s ?ft j)"
    "\<forall>a. a \<noteq> dir_index to \<longrightarrow> \<not> in_page ?ft a \<longrightarrow> \<not> in_page ?tt a \<longrightarrow> pmem s' a = pmem s a"
    "\<forall>i. mem_map s' i = ((mem_map s)(last_free s := 1)) i + of_nat (frame_count s ?ft [0..<?nr] i)"
    using copy_page_tables_effect[OF assms] by blast
  have tt: "page_aligned ?tt" "?tt \<noteq> 0"
    using gfp.alloc_aligned[OF free] new_page_high[OF free] by auto
  have "dir_index from \<noteq> dir_index to" using present absent by auto
  then have fd: "pmem s' (dir_index from) = pmem s (dir_index from)"
    using s'(5) not_in_page_other[of ?ft "dir_index from"] not_in_page_other[of ?tt "dir_index from"]
      ft(2) tt by (simp add: dir_index_page)
  have idx: "j < ?nr \<longleftrightarrow> \<not> (from = 0 \<and> 0xA0000 \<le> off)"
    if "off < 0x400000" "j = unat (drop_bit 12 off)" for off :: u32 and j
  proof -
    have "unat off < 0x400000" using that(1) by (simp add: word_less_nat_alt)
    then have "j < 1024" "j < 0xA0 \<longleftrightarrow> unat off < 0xA0000"
      using that(2) by (auto simp: drop_bit_eq_div unat_div)
    then show ?thesis by (auto simp: word_le_nat_alt)
  qed
  have "if from = 0 \<and> 0xA0000 \<le> off
       then pte_of (to + off) s' = 0 \<and> pte_of (from + off) s' = pte_of (from + off) s
       else pte_of (to + off) s' = ro (pte_of (from + off) s) \<and>
         pte_of (from + off) s' = (if shared (pte_of (from + off) s)
           then ro (pte_of (from + off) s) else pte_of (from + off) s)"
    if off: "off < 0x400000" for off
  proof -
    define j where "j = unat (drop_bit 12 off)"
    have j: "j < 1024" using table_index_less region_index(2)[OF al(1) off] by (metis j_def)
    have "pte_of (to + off) s' = pte_at s' ?tt j"
      by (simp add: pte_of_pte_at region_index[OF al(2) off] s'(2) page_of_entry(1)[OF tt(1)] j_def)
    moreover have "pte_of (from + off) s' = pte_at s' ?ft j" "pte_of (from + off) s = pte_at s ?ft j"
      by (simp_all add: pte_of_pte_at region_index[OF al(1) off] fd j_def)
    ultimately show ?thesis
      using s'(3,4) j idx[OF off j_def] by auto
  qed
  with s'(1,6) show ?thesis by blast
qed

lemma copy_page_tables_regions_example:
  "\<exists>s'. copy_page_tables 0 0x4000000 0xA0000 boot_mm = Inr (0, s') \<and>
     pte_of (0x4000000 + 0x5000) s' = 0x5005 \<and> pte_of 0x5000 s' = 0x5007 \<and>
     pte_of (0x4000000 + 0xB0000) s' = 0"
proof -
  have e: "pte_of (0 + 0x5000) boot_mm = 0x5007"
    by (simp add: pte_of_def lin2phy_eq boot_mm_simps page_of_def boot_pmem_def)
  have d: "dir_index 0 = 0" "dir_index 0x4000000 = 0x40" "page_of 0x1007 = 0x1000"
    by (simp_all add: dir_index_def page_of_def)
  have pm: "pmem boot_mm 0 = 0x1007" "pmem boot_mm 0x40 = 0"
    by (simp_all add: boot_mm_simps boot_pmem_def)
  obtain s' where s': "copy_page_tables 0 0x4000000 0xA0000 boot_mm = Inr (0, s')"
    "\<forall>off < 0x400000. if (0 :: u32) = 0 \<and> 0xA0000 \<le> off
       then pte_of (0x4000000 + off) s' = 0 \<and> pte_of (0 + off) s' = pte_of (0 + off) boot_mm
       else pte_of (0x4000000 + off) s' = ro (pte_of (0 + off) boot_mm) \<and>
         pte_of (0 + off) s' = (if shared (pte_of (0 + off) boot_mm)
           then ro (pte_of (0 + off) boot_mm) else pte_of (0 + off) boot_mm)"
    using copy_page_tables_regions [of 0 "0x4000000" "0xA0000" boot_mm] has_free_page_boot
    by (auto simp: d pm live_def)
  from s'(2)[rule_format, of "0x5000"] s'(2)[rule_format, of "0xB0000"] s'(1) show ?thesis
    by (intro exI [of _ s']) (simp add: e [simplified] ro_def shared_def)
qed

lemma lin2phy_page: "page_of (lin2phy la s) = page_of (pmem s (dir_index la))"
proof -
  have "lin2phy la s = page_of (pmem s (dir_index la)) + 4 * of_nat (table_index la)"
    by (simp add: lin2phy_eq dir_index_def table_index_def)
  then show ?thesis
    using in_page_page_of[OF page_offset_bits[OF page_of_aligned table_index_less] page_of_aligned]
    by simp
qed

section \<open>Page faults\<close>

text \<open>
  A write fault on a page that is shared, or that lies below 1 MB.  \<^verbatim>\<open>do_wp_page\<close> maps the
  faulting address, present and writable for the user, to a frame that was free; that frame holds
  a word-for-word copy of the old page and is referenced once; the old frame loses one reference;
  no word of memory other than the table entry and the new frame changes, so every other linear
  address whose page table is in use keeps its mapping.
\<close>

lemma do_wp_page_copies:
  fixes s :: mm and address :: u32
  defines "old \<equiv> page_of (pte_of address s)"
  assumes free: "has_free_page s"
    and table: "page_of (pmem s (dir_index address)) \<noteq> 0"
      "live s (page_of (pmem s (dir_index address)))"
    and old: "live s old" and shared: "\<not> (LOW_MEM \<le> old \<and> page_refs s old = 1)"
  shows "\<exists>new. page_refs s new = 0 \<and> page_refs (do_wp_page ec address s) new = 1 \<and>
     pte_of address (do_wp_page ec address s) = new OR 7 \<and>
     (\<forall>j < 1024. pmem (do_wp_page ec address s) (new + 4 * of_nat j) = pmem s (old + 4 * of_nat j)) \<and>
     (\<forall>a. a \<noteq> lin2phy address s \<longrightarrow> \<not> in_page new a \<longrightarrow>
        pmem (do_wp_page ec address s) a = pmem s a) \<and>
     (LOW_MEM \<le> old \<longrightarrow> page_refs (do_wp_page ec address s) old = page_refs s old - 1) \<and>
     (\<forall>la. lin2phy la s \<noteq> lin2phy address s \<longrightarrow> live s (page_of (lin2phy la s)) \<longrightarrow>
        pte_of la (do_wp_page ec address s) = pte_of la s)"
proof -
  let ?te = "lin2phy address s" and ?s' = "do_wp_page ec address s"
  have te: "page_of ?te \<noteq> 0" "live s (page_of ?te)"
    using table by (simp_all add: lin2phy_page)
  obtain new where new: "page_aligned new" "page_refs s new = 0" "LOW_MEM \<le> new"
    "pmem ?s' ?te = new OR 7" "page_refs ?s' new = 1"
    "\<forall>j < 1024. pmem ?s' (new + 4 * of_nat j) = pmem s (old + 4 * of_nat j)"
    "\<forall>a. a \<noteq> ?te \<longrightarrow> \<not> in_page new a \<longrightarrow> pmem ?s' a = pmem s a"
    "\<forall>p. page_aligned p \<longrightarrow> p \<noteq> new \<longrightarrow>
        page_refs ?s' p = (if p = old \<and> LOW_MEM \<le> p then page_refs s p - 1 else page_refs s p)"
    using un_wp_page_cow[OF free _ te(2)] old shared
    unfolding do_wp_page_lin2phy old_def pte_of_def by blast
  have dir: "pmem ?s' (dir_index la) = pmem s (dir_index la)" for la
  proof -
    have "dir_index la \<noteq> ?te" using te(1) dir_index_page[of la] by metis
    moreover have "\<not> in_page new (dir_index la)"
      using new(1,3) by (intro not_in_page_other) (auto simp: dir_index_page)
    ultimately show ?thesis using new(7) by blast
  qed
  then have l: "lin2phy la ?s' = lin2phy la s" for la
    by (simp add: lin2phy_eq dir_index_def)
  have fresh: "\<not> in_page new a" if "live s (page_of a)" for a
    using that new(1-3) by (intro not_in_page_other) (auto simp: live_def)
  have "pte_of la ?s' = pte_of la s"
    if "lin2phy la s \<noteq> ?te" "live s (page_of (lin2phy la s))" for la
    using new(7) that fresh by (simp add: pte_of_def l)
  moreover have "old \<noteq> new" using old new(2,3) by (auto simp: live_def)
  ultimately show ?thesis
    using new(2,4,5,6,7,8)
    by (intro exI[of _ new]) (simp add: pte_of_def l old_def)
qed

lemma do_wp_page_copies_example:
  "\<exists>new. page_refs boot_mm new = 0 \<and> pte_of 0x5123 (do_wp_page 7 0x5123 boot_mm) = new OR 7 \<and>
     pmem (do_wp_page 7 0x5123 boot_mm) (new + 4 * of_nat 6) = 0 \<and>
     pte_of 0x6000 (do_wp_page 7 0x5123 boot_mm) = 0x6007"
proof -
  have e: "pte_of 0x5123 boot_mm = 0x5007" "pte_of 0x6000 boot_mm = 0x6007"
    "lin2phy 0x5123 boot_mm = 0x1014" "lin2phy 0x6000 boot_mm = 0x1018"
    by (simp_all add: pte_of_def lin2phy_eq boot_mm_simps page_of_def boot_pmem_def)
  have d: "page_of (pmem boot_mm (dir_index 0x5123)) = 0x1000"
    by (simp add: dir_index_def boot_mm_simps page_of_def boot_pmem_def)
  have l: "live boot_mm 0x1000" "live boot_mm 0x5000" by (simp_all add: live_def)
  obtain new where "page_refs boot_mm new = 0"
    "pte_of 0x5123 (do_wp_page 7 0x5123 boot_mm) = new OR 7"
    "\<forall>j < 1024. pmem (do_wp_page 7 0x5123 boot_mm) (new + 4 * of_nat j) =
       pmem boot_mm (0x5000 + 4 * of_nat j)"
    "\<forall>la. lin2phy la boot_mm \<noteq> 0x1014 \<longrightarrow> live boot_mm (page_of (lin2phy la boot_mm)) \<longrightarrow>
        pte_of la (do_wp_page 7 0x5123 boot_mm) = pte_of la boot_mm"
    using do_wp_page_copies [of boot_mm "0x5123" 7] has_free_page_boot d l
    by (auto simp: e page_of_def)
  then show ?thesis
    using l by (intro exI [of _ new]) (auto simp: e boot_mm_simps boot_pmem_def page_of_def
        dest: spec [of _ "6 :: nat"])
qed

text \<open>
  A fault on a page that is not mapped at all is handled as if it were write protected: with
  an empty table entry the process receives, present and writable for the user, a copy of
  physical page 0, which is the kernel's page directory.
\<close>

lemma do_wp_page_missing_page:
  assumes free: "has_free_page s" and missing: "pte_of address s = 0"
    and table: "live s (page_of (pmem s (dir_index address)))"
  shows "\<exists>new. page_aligned new \<and> LOW_MEM \<le> new \<and> page_refs s new = 0 \<and>
     pmem (do_wp_page ec address s) (lin2phy address s) = new OR 7 \<and>
     (\<forall>j < 1024. pmem (do_wp_page ec address s) (new + 4 * of_nat j) = pmem s (4 * of_nat j))"
proof -
  have p0: "page_of 0 = 0" "live s 0" by (simp_all add: page_of_def live_def)
  have te: "live s (page_of (lin2phy address s))" using table by (simp add: lin2phy_page)
  have z: "pmem s (lin2phy address s) = 0" using missing by (simp add: pte_of_def)
  show ?thesis
    using un_wp_page_cow [OF free _ te, unfolded z p0 add_0] p0(2)
    unfolding do_wp_page_lin2phy by (simp add: LOW_MEM_def) blast
qed

lemma do_wp_page_missing_page_example:
  "\<exists>new. pmem (do_wp_page 6 0x1234 (boot_mm\<lparr>pmem := (pmem boot_mm)(0x1004 := 0)\<rparr>)) 0x1004 = new OR 7 \<and>
     pmem (do_wp_page 6 0x1234 (boot_mm\<lparr>pmem := (pmem boot_mm)(0x1004 := 0)\<rparr>)) (new + 4) = 0x2007"
proof -
  let ?s = "boot_mm\<lparr>pmem := (pmem boot_mm)(0x1004 := 0)\<rparr>"
  have f: "has_free_page ?s" using has_free_page_boot by (simp add: has_free_page_def)
  have e: "lin2phy 0x1234 ?s = 0x1004" "pte_of 0x1234 ?s = 0"
    by (simp_all add: pte_of_def lin2phy_eq boot_mm_simps page_of_def boot_pmem_def)
  have d: "live ?s (page_of (pmem ?s (dir_index 0x1234)))"
    by (simp add: dir_index_def boot_mm_simps page_of_def boot_pmem_def live_def)
  obtain new where new: "pmem (do_wp_page 6 0x1234 ?s) 0x1004 = new OR 7"
    "\<forall>j < 1024. pmem (do_wp_page 6 0x1234 ?s) (new + 4 * of_nat j) = pmem ?s (4 * of_nat j)"
    using do_wp_page_missing_page [OF f e(2) d, of 6] unfolding e by blast
  from new(2) have "pmem (do_wp_page 6 0x1234 ?s) (new + 4 * of_nat 1) = pmem ?s (4 * of_nat 1)"
    by (rule allE [of _ 1]) simp
  with new(1) show ?thesis
    by (intro exI [of _ new]) (simp add: boot_mm_simps boot_pmem_def)
qed

text \<open>
  A fault on an address whose page table does not exist.  The empty directory entry is read as
  a page table at address 0, so the handler treats the page directory itself as that table and
  overwrites one of its entries, while the entry of the faulting address stays empty unless it
  happens to be the same one.
\<close>

lemma do_wp_page_missing_table:
  assumes free: "has_free_page s" and missing: "pmem s (dir_index address) = 0"
    and unmapped: "pmem s (4 * of_nat (table_index address)) = 0"
  shows "\<exists>new. page_aligned new \<and> LOW_MEM \<le> new \<and> page_refs s new = 0 \<and>
     pmem (do_wp_page ec address s) (4 * of_nat (table_index address)) = new OR 7 \<and>
     pmem (do_wp_page ec address s) (dir_index address) =
       (if dir_index address = 4 * of_nat (table_index address) then new OR 7 else 0)"
proof -
  let ?te = "4 * of_nat (table_index address) :: u32"
  have p0: "page_of 0 = 0" "live s 0" by (simp_all add: page_of_def live_def)
  have te: "lin2phy address s = ?te"
    using missing by (simp add: lin2phy_eq dir_index_def[symmetric] p0 table_index_def)
  have pt: "page_of ?te = 0"
    using lin2phy_page[of address s] missing p0 te by simp
  obtain new where new: "page_aligned new" "page_refs s new = 0" "LOW_MEM \<le> new"
    "pmem (do_wp_page ec address s) ?te = new OR 7"
    "\<forall>a. a \<noteq> ?te \<longrightarrow> \<not> in_page new a \<longrightarrow> pmem (do_wp_page ec address s) a = pmem s a"
    using un_wp_page_cow [OF free, of ?te, unfolded unmapped pt p0 add_0] p0(2)
    unfolding do_wp_page_lin2phy te by (simp add: LOW_MEM_def) blast
  moreover have "\<not> in_page new (dir_index address)"
    using new(1,3) by (intro not_in_page_other) (auto simp: dir_index_page)
  ultimately show ?thesis using missing by (intro exI[of _ new]) auto
qed

lemma do_wp_page_missing_table_example:
  "\<exists>new. LOW_MEM \<le> new \<and>
     pmem (do_wp_page 6 0x7012345 boot_mm) 0x48 = new OR 7 \<and>
     pmem (do_wp_page 6 0x7012345 boot_mm) 0x70 = 0"
  using do_wp_page_missing_table [OF has_free_page_boot, of "0x7012345" 6]
  by (auto simp: dir_index_def table_index_def boot_mm_simps boot_pmem_def)

end
