(* ===== verification/Tasks.thy ===== *)
theory Tasks
  imports Descriptors Memory
begin

text \<open>
  The process descriptor and what it contains: \<^verbatim>\<open>struct task_struct\<close>, \<^verbatim>\<open>struct tss_struct\<close>,
  \<^verbatim>\<open>struct i387_struct\<close> and the constants of \<^verbatim>\<open>include/linux/sched.h\<close>, with the structures they
  refer to (\<^verbatim>\<open>signal.h\<close>, \<^verbatim>\<open>sys/resource.h\<close>, \<^verbatim>\<open>linux/fs.h\<close>).  Arrays are functions of the index.
  The layout function computes field offsets of the i386 ABI, which the descriptors of the GDT
  depend on.
\<close>

section \<open>Constants\<close>

definition NR_TASKS :: nat where
  [simp, kconsts]: "NR_TASKS = 64"

definition TASK_SIZE :: u32 where
  [simp, kconsts]: "TASK_SIZE = 0x04000000"

definition LIBRARY_SIZE :: u32 where
  [simp, kconsts]: "LIBRARY_SIZE = 0x00400000"

definition HZ :: nat where
  [simp, kconsts]: "HZ = 100"

definition NR_OPEN :: nat where
  [simp, kconsts]: "NR_OPEN = 20"

definition NGROUPS :: nat where
  [simp, kconsts]: "NGROUPS = 32"

definition RLIM_NLIMITS :: nat where
  [simp, kconsts]: "RLIM_NLIMITS = 6"

definition TASK_RUNNING :: u32 where
  [simp, kconsts]: "TASK_RUNNING = 0"

definition TASK_INTERRUPTIBLE :: u32 where
  [simp, kconsts]: "TASK_INTERRUPTIBLE = 1"

definition TASK_UNINTERRUPTIBLE :: u32 where
  [simp, kconsts]: "TASK_UNINTERRUPTIBLE = 2"

definition TASK_ZOMBIE :: u32 where
  [simp, kconsts]: "TASK_ZOMBIE = 3"

definition TASK_STOPPED :: u32 where
  [simp, kconsts]: "TASK_STOPPED = 4"

definition EAGAIN :: u32 where
  [simp, kconsts]: "EAGAIN = 11"

section \<open>Structures\<close>

record sigaction =
  sa_handler :: u32
  sa_mask :: u32
  sa_flags :: u32
  sa_restorer :: u32

record rlimit =
  rlim_cur :: u32
  rlim_max :: u32

record i387_struct =
  i387_cwd :: u32
  i387_swd :: u32
  i387_twd :: u32
  i387_fip :: u32
  i387_fcs :: u32
  i387_foo :: u32
  i387_fos :: u32
  i387_st_space :: "nat \<Rightarrow> u32"

record tss_struct =
  tss_back_link :: u32
  tss_esp0 :: u32
  tss_ss0 :: u32
  tss_esp1 :: u32
  tss_ss1 :: u32
  tss_esp2 :: u32
  tss_ss2 :: u32
  tss_cr3 :: u32
  tss_eip :: u32
  tss_eflags :: u32
  tss_eax :: u32
  tss_ecx :: u32
  tss_edx :: u32
  tss_ebx :: u32
  tss_esp :: u32
  tss_ebp :: u32
  tss_esi :: u32
  tss_edi :: u32
  tss_es :: u32
  tss_cs :: u32
  tss_ss :: u32
  tss_ds :: u32
  tss_fs :: u32
  tss_gs :: u32
  tss_ldt :: u32
  tss_trace_bitmap :: u32
  tss_i387 :: i387_struct

record task_struct =
  ts_state :: u32
  ts_counter :: u32
  ts_priority :: u32
  ts_signal :: u32
  ts_sigaction :: "nat \<Rightarrow> sigaction"
  ts_blocked :: u32
  ts_exit_code :: u32
  ts_start_code :: u32
  ts_end_code :: u32
  ts_end_data :: u32
  ts_brk :: u32
  ts_start_stack :: u32
  ts_pid :: u32
  ts_pgrp :: u32
  ts_session :: u32
  ts_leader :: u32
  ts_groups :: "nat \<Rightarrow> u32"
  ts_p_pptr :: ptr
  ts_p_cptr :: ptr
  ts_p_ysptr :: ptr
  ts_p_osptr :: ptr
  ts_uid :: u16
  ts_euid :: u16
  ts_suid :: u16
  ts_gid :: u16
  ts_egid :: u16
  ts_sgid :: u16
  ts_timeout :: u32
  ts_alarm :: u32
  ts_utime :: u32
  ts_stime :: u32
  ts_cutime :: u32
  ts_cstime :: u32
  ts_start_time :: u32
  ts_rlim :: "nat \<Rightarrow> rlimit"
  ts_flags :: u32
  ts_used_math :: u16
  ts_tty :: u32
  ts_umask :: u16
  ts_pwd :: ptr
  ts_root :: ptr
  ts_executable :: ptr
  ts_library :: ptr
  ts_close_on_exec :: u32
  ts_filp :: "nat \<Rightarrow> ptr"
  ts_ldt :: "nat \<Rightarrow> desc_struct"
  ts_tss :: tss_struct

text \<open>The fields of \<^verbatim>\<open>struct file\<close> and \<^verbatim>\<open>struct m_inode\<close>.\<close>

record file_struct =
  f_mode :: u16
  f_flags :: u16
  f_count :: u16
  f_inode :: ptr
  f_pos :: u32

record m_inode =
  i_mode :: u16
  i_uid :: u16
  i_size :: u32
  i_mtime :: u32
  i_gid :: u8
  i_nlinks :: u8
  i_zone :: "nat \<Rightarrow> u16"
  i_wait :: ptr
  i_wait2 :: ptr
  i_atime :: u32
  i_ctime :: u32
  i_dev :: u16
  i_num :: u16
  i_count :: u16
  i_lock :: u8
  i_dirt :: u8
  i_pipe :: u8
  i_mount :: u8
  i_seek :: u8
  i_update :: u8

section \<open>Layout\<close>

text \<open>
  A field is its name, its alignment and its size in bytes; its offset is the end of the field
  before it, rounded up to its alignment.
\<close>

type_synonym layout = "(string \<times> nat \<times> nat) list"

definition align_up :: "nat \<Rightarrow> nat \<Rightarrow> nat" where
  "align_up n a = (n + a - 1) div a * a"

fun offset_in :: "nat \<Rightarrow> layout \<Rightarrow> string \<Rightarrow> nat option" where
  "offset_in n [] f = None"
| "offset_in n ((g, a, sz) # fs) f =
     (if f = g then Some (align_up n a) else offset_in (align_up n a + sz) fs f)"

definition long_field :: "string \<Rightarrow> string \<times> nat \<times> nat" where
  "long_field f = (f, 4, 4)"

definition short_field :: "string \<Rightarrow> string \<times> nat \<times> nat" where
  "short_field f = (f, 2, 2)"

definition task_struct_layout :: layout where
  "task_struct_layout =
     map long_field [''state'', ''counter'', ''priority'', ''signal''] @
     [(''sigaction'', 4, 32 * 16)] @
     map long_field [''blocked'', ''exit_code'', ''start_code'', ''end_code'', ''end_data'', ''brk'',
       ''start_stack'', ''pid'', ''pgrp'', ''session'', ''leader''] @
     [(''groups'', 4, 4 * NGROUPS)] @
     map long_field [''p_pptr'', ''p_cptr'', ''p_ysptr'', ''p_osptr''] @
     map short_field [''uid'', ''euid'', ''suid'', ''gid'', ''egid'', ''sgid''] @
     map long_field [''timeout'', ''alarm'', ''utime'', ''stime'', ''cutime'', ''cstime'',
       ''start_time''] @
     [(''rlim'', 4, 8 * RLIM_NLIMITS)] @
     [long_field ''flags'', short_field ''used_math'', long_field ''tty'', short_field ''umask''] @
     map long_field [''pwd'', ''root'', ''executable'', ''library'', ''close_on_exec''] @
     [(''filp'', 4, 4 * NR_OPEN), (''ldt'', 4, 3 * 8), (''tss'', 4, 26 * 4 + (7 + 20) * 4)]"

definition offsetof_task :: "string \<Rightarrow> u32" where
  "offsetof_task f = of_nat (the (offset_in 0 task_struct_layout f))"

lemma offsetof_task_ldt: "offsetof_task ''ldt'' = 0x398"
  by (simp add: offsetof_task_def task_struct_layout_def long_field_def short_field_def align_up_def)

lemma offsetof_task_tss: "offsetof_task ''tss'' = 0x3b0"
  by (simp add: offsetof_task_def task_struct_layout_def long_field_def short_field_def align_up_def)

text \<open>The offsets that \<^verbatim>\<open>kernel/sys_call.s\<close> writes as numbers.\<close>

lemma offsetof_task_sys_call:
  "offsetof_task ''state'' = 0" "offsetof_task ''counter'' = 4"
  "offsetof_task ''signal'' = 12" "offsetof_task ''blocked'' = 33 * 16"
  by (simp_all add: offsetof_task_def task_struct_layout_def long_field_def short_field_def
      align_up_def)

section \<open>\<^verbatim>\<open>INIT_TASK\<close>\<close>

text \<open>The addresses of \<^verbatim>\<open>init_task\<close> and \<^verbatim>\<open>pg_dir\<close> are chosen by the linker.\<close>

definition zero_sigaction :: sigaction where
  "zero_sigaction = \<lparr>sa_handler = 0, sa_mask = 0, sa_flags = 0, sa_restorer = 0\<rparr>"

definition zero_i387 :: i387_struct where
  "zero_i387 = \<lparr>i387_cwd = 0, i387_swd = 0, i387_twd = 0, i387_fip = 0, i387_fcs = 0, i387_foo = 0,
     i387_fos = 0, i387_st_space = (\<lambda>_. 0)\<rparr>"

definition INIT_TSS :: "ptr \<Rightarrow> ptr \<Rightarrow> tss_struct" where
  "INIT_TSS init_task pg_dir =
     \<lparr>tss_back_link = 0, tss_esp0 = word_of_int PAGE_SIZE + init_task, tss_ss0 = 0x10,
      tss_esp1 = 0, tss_ss1 = 0, tss_esp2 = 0, tss_ss2 = 0, tss_cr3 = pg_dir,
      tss_eip = 0, tss_eflags = 0, tss_eax = 0, tss_ecx = 0, tss_edx = 0, tss_ebx = 0,
      tss_esp = 0, tss_ebp = 0, tss_esi = 0, tss_edi = 0,
      tss_es = 0x17, tss_cs = 0x17, tss_ss = 0x17, tss_ds = 0x17, tss_fs = 0x17, tss_gs = 0x17,
      tss_ldt = LDT_sel 0, tss_trace_bitmap = 0x80000000, tss_i387 = zero_i387\<rparr>"

definition INIT_LDT :: "nat \<Rightarrow> desc_struct" where
  "INIT_LDT =
     (\<lambda>_. \<lparr>d_a = 0, d_b = 0\<rparr>)(1 := \<lparr>d_a = 0x9f, d_b = 0xc0fa00\<rparr>, 2 := \<lparr>d_a = 0x9f, d_b = 0xc0f200\<rparr>)"

definition INIT_TASK :: "ptr \<Rightarrow> ptr \<Rightarrow> task_struct" where
  "INIT_TASK init_task pg_dir =
     \<lparr>ts_state = 0, ts_counter = 15, ts_priority = 15, ts_signal = 0,
      ts_sigaction = (\<lambda>_. zero_sigaction), ts_blocked = 0,
      ts_exit_code = 0, ts_start_code = 0, ts_end_code = 0, ts_end_data = 0, ts_brk = 0,
      ts_start_stack = 0, ts_pid = 0, ts_pgrp = 0, ts_session = 0, ts_leader = 0,
      ts_groups = (\<lambda>_. 0)(0 := - 1),
      ts_p_pptr = init_task, ts_p_cptr = NULL, ts_p_ysptr = NULL, ts_p_osptr = NULL,
      ts_uid = 0, ts_euid = 0, ts_suid = 0, ts_gid = 0, ts_egid = 0, ts_sgid = 0,
      ts_timeout = 0, ts_alarm = 0, ts_utime = 0, ts_stime = 0, ts_cutime = 0, ts_cstime = 0,
      ts_start_time = 0,
      ts_rlim = (\<lambda>_. \<lparr>rlim_cur = 0x7fffffff, rlim_max = 0x7fffffff\<rparr>),
      ts_flags = 0, ts_used_math = 0, ts_tty = - 1, ts_umask = 18,
      ts_pwd = NULL, ts_root = NULL, ts_executable = NULL, ts_library = NULL,
      ts_close_on_exec = 0, ts_filp = (\<lambda>_. NULL),
      ts_ldt = INIT_LDT, ts_tss = INIT_TSS init_task pg_dir\<rparr>"

lemma INIT_LDT_segments:
  "get_base (INIT_LDT 1) = 0" "get_limit (INIT_LDT 1) = 0xA0000"
  "get_base (INIT_LDT 2) = 0" "get_limit (INIT_LDT 2) = 0xA0000"
  by (simp_all add: INIT_LDT_def get_base_def get_limit_def lsl_limit_def limit_field_def)

end
