(* ===== verification/Sched.thy ===== *)
theory Sched
  imports Tasks
begin

text \<open>
  The scheduler and the wait queues of \<^verbatim>\<open>kernel/sched.c\<close>.

  Process descriptors live in a store indexed by their address; \<^verbatim>\<open>task\<close> is the table of pointers to
  them.  A \<^verbatim>\<open>struct task_struct **\<close> argument is the address of one of the wait-queue heads of the
  kernel, represented by the head it names.  \<^verbatim>\<open>__sleep_on\<close> calls \<^verbatim>\<open>schedule\<close> in the middle, and other
  tasks run before that call returns; the function is modelled as the part before the call and the
  part after it, with the local variable \<^verbatim>\<open>tmp\<close> passed from one to the other.
\<close>

section \<open>State\<close>

datatype wq = WQ_null | WQ_mutex int | WQ_buffer ptr | WQ_buffer_wait

record sched =
  tasks :: "ptr \<Rightarrow> task_struct"
  task :: "nat \<Rightarrow> ptr"
  current :: ptr
  init_task :: ptr
  last_task_used_math :: ptr
  jiffies :: u32
  waitq :: "wq \<Rightarrow> ptr"
  mutex_lock :: "int \<Rightarrow> u32"
  tr :: u32
  cr0_ts :: bool
  sched_log :: "string list"

definition task_state :: "sched \<Rightarrow> ptr \<Rightarrow> u32" where
  "task_state s t = ts_state (tasks s t)"

definition set_state :: "sched \<Rightarrow> ptr \<Rightarrow> u32 \<Rightarrow> sched" where
  "set_state s t v = s\<lparr>tasks := (tasks s)(t := (tasks s t)\<lparr>ts_state := v\<rparr>)\<rparr>"

definition set_waitq :: "sched \<Rightarrow> wq \<Rightarrow> ptr \<Rightarrow> sched" where
  "set_waitq s p t = s\<lparr>waitq := (waitq s)(p := t)\<rparr>"

definition printk :: "string \<Rightarrow> sched \<Rightarrow> sched" where
  "printk msg s = s\<lparr>sched_log := sched_log s @ [msg]\<rparr>"

section \<open>\<^verbatim>\<open>schedule\<close>\<close>

text \<open>
  \<^verbatim>\<open>switch_to\<close> does nothing when the task is the current one; otherwise it exchanges
  \<^verbatim>\<open>current\<close> and jumps through the task's TSS, on which the processor loads the task register and
  sets the task-switched flag.  The instructions after the jump run when the old task is resumed.
\<close>

definition switch_to :: "nat \<Rightarrow> sched \<Rightarrow> sched" where
  "switch_to n s =
     (if task s n = current s then s
      else s\<lparr>current := task s n, tr := TSS_sel (of_nat n), cr0_ts := True\<rparr>)"

definition switch_to_resumed :: "sched \<Rightarrow> sched" where
  "switch_to_resumed s =
     (if current s = last_task_used_math s then s\<lparr>cr0_ts := False\<rparr> else s)"

text \<open>
  The first loop of \<^verbatim>\<open>schedule\<close> runs off the table when \<^verbatim>\<open>current\<close> is not in it.  The second loop has
  no bound of its own: \<^const>\<open>None\<close> is a call that does not return.
\<close>

function find_current :: "sched \<Rightarrow> nat \<Rightarrow> nat kres" where
  "find_current s i =
     (if NR_TASKS \<le> i then Inl (Out_of_bounds ''task'')
      else if task s i \<noteq> current s then find_current s (i + 1) else Inr i)"
  by pat_completeness auto
termination
  by (relation "measure (\<lambda>(s, i). NR_TASKS - i)") auto

declare find_current.simps [simp del]

partial_function (option) sched_scan :: "sched \<Rightarrow> nat \<Rightarrow> nat option option" where
  "sched_scan s i =
     (let k = i mod NR_TASKS
      in if task s k = current s then Some None
         else if task s k \<noteq> NULL \<and> task_state s (task s k) = TASK_RUNNING then Some (Some k)
         else sched_scan s (i + 1))"

definition schedule :: "sched \<Rightarrow> sched kres option" where
  "schedule s =
     (case find_current s 0 of
        Inl e \<Rightarrow> Some (Inl e)
      | Inr i \<Rightarrow>
          (case sched_scan s (i + 1) of
             None \<Rightarrow> None
           | Some None \<Rightarrow> Some (Inr s)
           | Some (Some k) \<Rightarrow> Some (Inr (switch_to k s))))"

definition do_timer :: "u32 \<Rightarrow> sched \<Rightarrow> sched kres option" where
  "do_timer cpl s = schedule s"

definition switch_to_c :: "nat \<Rightarrow> sched \<Rightarrow> sched" where
  "switch_to_c nr s = switch_to nr s"

definition sys_pause :: "sched \<Rightarrow> (u32 \<times> sched) kres option" where
  "sys_pause s =
     (case schedule (set_state s (current s) TASK_INTERRUPTIBLE) of
        None \<Rightarrow> None
      | Some (Inl e) \<Rightarrow> Some (Inl e)
      | Some (Inr s') \<Rightarrow> Some (Inr (0, s')))"

section \<open>Sleeping and waking\<close>

text \<open>
  Where a call of \<^verbatim>\<open>__sleep_on\<close> stands when it leaves the processor: it has returned, or it is at
  the label \<^verbatim>\<open>repeat\<close>, about to call \<^verbatim>\<open>schedule\<close>, with the given \<^verbatim>\<open>tmp\<close>.
\<close>

datatype sleeping = Returned sched | At_repeat ptr sched

definition sleep_on_enter :: "wq \<Rightarrow> u32 \<Rightarrow> sched \<Rightarrow> sleeping kres" where
  "sleep_on_enter p st s =
     (if p = WQ_null then Inr (Returned s)
      else if current s = init_task s then Inl (Panic ''task[0] trying to sleep'')
      else
        let tmp = waitq s p;
            s = set_waitq s p (current s);
            s = set_state s (current s) st
        in Inr (At_repeat tmp s))"

text \<open>The part after \<^verbatim>\<open>schedule\<close> has returned; the task that slept is \<^verbatim>\<open>current\<close> again.\<close>

definition sleep_on_resume :: "wq \<Rightarrow> ptr \<Rightarrow> sched \<Rightarrow> sleeping" where
  "sleep_on_resume p tmp s =
     (if waitq s p \<noteq> NULL \<and> waitq s p \<noteq> current s
      then
        let s = set_state s (waitq s p) TASK_RUNNING;
            s = set_state s (current s) TASK_UNINTERRUPTIBLE
        in At_repeat tmp s
      else
        let s = (if waitq s p = NULL then printk (''Warning: *P = NULL'' @ [CHR 0x0A, CHR 0x0D]) s else s);
            s = set_waitq s p tmp
        in Returned (if tmp \<noteq> NULL then set_state s tmp 0 else s))"

definition interruptible_sleep_on :: "wq \<Rightarrow> sched \<Rightarrow> sleeping kres" where
  "interruptible_sleep_on p s = sleep_on_enter p TASK_INTERRUPTIBLE s"

definition sleep_on :: "wq \<Rightarrow> sched \<Rightarrow> sleeping kres" where
  "sleep_on p s = sleep_on_enter p TASK_UNINTERRUPTIBLE s"

text \<open>The body of \<^verbatim>\<open>wake_up\<close>, for the task that its test has found.\<close>

definition wake_task :: "ptr \<Rightarrow> sched \<Rightarrow> sched" where
  "wake_task t s =
     (let s = (if task_state s t = TASK_STOPPED then printk ''wake_up: TASK_STOPPED'' s else s);
          s = (if task_state s t = TASK_ZOMBIE then printk ''wake_up: TASK_ZOMBIE'' s else s)
      in set_state s t TASK_RUNNING)"

definition wake_up :: "wq \<Rightarrow> sched \<Rightarrow> sched" where
  "wake_up p s = (if p \<noteq> WQ_null \<and> waitq s p \<noteq> NULL then wake_task (waitq s p) s else s)"

section \<open>\<^verbatim>\<open>sched_init\<close>\<close>

text \<open>
  The tables and registers of the processor that initialisation writes, and the bytes sent to the
  ports, in order.  What a port returns is hardware; it is an argument.
\<close>

record cpu =
  gdt :: desc_table
  idt :: desc_table
  ldtr :: u32
  eflags_nt :: bool
  io_out :: "(u16 \<times> u8) list"

definition outb :: "u8 \<Rightarrow> u16 \<Rightarrow> cpu \<Rightarrow> cpu" where
  "outb value port c = c\<lparr>io_out := io_out c @ [(port, value)]\<rparr>"

definition outb_p :: "u8 \<Rightarrow> u16 \<Rightarrow> cpu \<Rightarrow> cpu" where
  "outb_p value port c = c\<lparr>io_out := io_out c @ [(port, value)]\<rparr>"

definition LATCH :: int where
  "LATCH = 1193180 div int HZ"

definition desc_null :: desc_struct where
  "desc_null = \<lparr>d_a = 0, d_b = 0\<rparr>"

text \<open>The loop over \<open>n\<close> slots, from slot \<open>i\<close>, with the descriptor pointer at entry \<open>p\<close>.\<close>

primrec clear_slots :: "nat \<Rightarrow> nat \<Rightarrow> nat \<Rightarrow> sched \<times> cpu \<Rightarrow> sched \<times> cpu" where
  "clear_slots 0 i p sc = sc"
| "clear_slots (Suc n) i p sc =
     clear_slots n (i + 1) (p + 2)
       ((fst sc)\<lparr>task := (task (fst sc))(i := NULL)\<rparr>,
        (snd sc)\<lparr>gdt := (gdt (snd sc))(p := desc_null, p + 1 := desc_null)\<rparr>)"

definition sched_init :: "u32 \<Rightarrow> u32 \<Rightarrow> (u16 \<Rightarrow> u8) \<Rightarrow> sched \<times> cpu \<Rightarrow> sched \<times> cpu" where
  "sched_init timer_interrupt system_call inb_p sc =
     (let s = fst sc; c = snd sc;
          c = c\<lparr>gdt := set_tss_desc (gdt c) FIRST_TSS_ENTRY (init_task s + offsetof_task ''tss'')\<rparr>;
          c = c\<lparr>gdt := set_ldt_desc (gdt c) FIRST_LDT_ENTRY (init_task s + offsetof_task ''ldt'')\<rparr>;
          (s, c) = clear_slots (NR_TASKS - 1) 1 (2 + FIRST_TSS_ENTRY) (s, c);
          c = c\<lparr>eflags_nt := False\<rparr>;
          s = s\<lparr>tr := TSS_sel 0\<rparr>;
          c = c\<lparr>ldtr := LDT_sel 0\<rparr>;
          c = outb_p 0x36 0x43 c;
          c = outb_p (word_of_int LATCH AND 0xff) 0x40 c;
          c = outb (word_of_int (LATCH div 2 ^ 8)) 0x40 c;
          c = c\<lparr>idt := set_intr_gate (idt c) 0x20 timer_interrupt\<rparr>;
          c = outb (inb_p 0x21 AND NOT 0x01) 0x21 c;
          c = c\<lparr>idt := set_system_gate (idt c) 0x80 system_call\<rparr>
      in (s, c))"

lemma clear_slots_eq:
  "clear_slots n i p sc =
     ((fst sc)\<lparr>task := (\<lambda>k. if i \<le> k \<and> k < i + n then NULL else task (fst sc) k)\<rparr>,
      (snd sc)\<lparr>gdt := (\<lambda>k. if p \<le> k \<and> k < p + 2 * n then desc_null else gdt (snd sc) k)\<rparr>)"
proof (induction n arbitrary: i p sc)
  case 0
  have "(\<lambda>k. if i \<le> k \<and> k < i + 0 then NULL else task (fst sc) k) = task (fst sc)"
    "(\<lambda>k. if p \<le> k \<and> k < p + 2 * 0 then desc_null else gdt (snd sc) k) = gdt (snd sc)"
    by (auto simp: fun_eq_iff)
  then show ?case by simp
next
  case (Suc n)
  obtain s c where sc: "sc = (s, c)" by (cases sc)
  show ?case
    by (cases s; cases c) (auto simp: sc Suc fun_eq_iff)
qed

lemma sched_init_eq:
  "sched_init ti sy inb_p (s, c) =
     (s\<lparr>task := (\<lambda>k. if 1 \<le> k \<and> k < 64 then NULL else task s k), tr := 32\<rparr>,
      c\<lparr>gdt := (\<lambda>k. if 6 \<le> k \<and> k < 132 then desc_null
                     else ((gdt c)(4 := set_tssldt_desc (init_task s + 0x3b0) 0x89,
                                   5 := set_tssldt_desc (init_task s + 0x398) 0x82)) k),
         eflags_nt := False, ldtr := 40,
         io_out := io_out c @
           [(0x43, 0x36), (0x40, 0x9b), (0x40, 0x2e), (0x21, inb_p 0x21 AND NOT 1)],
         idt := (idt c)(0x20 := set_gate 14 0 ti, 0x80 := set_gate 15 3 sy)\<rparr>)"
  by (simp add: sched_init_def Let_def clear_slots_eq set_tss_desc_def set_ldt_desc_def
      offsetof_task_ldt offsetof_task_tss LATCH_def outb_def outb_p_def
      TSS_sel_def LDT_sel_def set_intr_gate_def set_system_gate_def FIRST_TSS_ENTRY_def
      FIRST_LDT_ENTRY_def cong: if_cong)

text \<open>
  \<^verbatim>\<open>sched_init\<close> leaves task 0 alone in the table, with a TSS and an LDT descriptor that point at
  its \<^verbatim>\<open>tss\<close> and \<^verbatim>\<open>ldt\<close>, empties the descriptors of the other tasks, keeps the rest of the GDT,
  loads the task and LDT registers with the selectors of those two descriptors, programs
  the 8253 with the divisor of 100 Hz, unmasks the timer interrupt and installs its gate
  (interrupts off, kernel only) and that of the system call (interrupts on, callable from user mode).
\<close>

lemma sched_init_correct:
  "case sched_init ti sy inb_p (s, c) of (s', c') \<Rightarrow>
     task s' = (\<lambda>i. if 1 \<le> i \<and> i < NR_TASKS then NULL else task s i) \<and>
     get_base (gdt c' FIRST_TSS_ENTRY) = init_task s + 0x3b0 \<and>
     desc_access (gdt c' FIRST_TSS_ENTRY) = 0x89 \<and>
     get_base (gdt c' FIRST_LDT_ENTRY) = init_task s + 0x398 \<and>
     desc_access (gdt c' FIRST_LDT_ENTRY) = 0x82 \<and>
     (\<forall>k. gdt c' k =
        (if k = FIRST_TSS_ENTRY \<or> k = FIRST_LDT_ENTRY then gdt c' k
         else if 6 \<le> k \<and> k < 6 + 2 * (NR_TASKS - 1) then desc_null else gdt c k)) \<and>
     tr s' = of_nat (8 * FIRST_TSS_ENTRY) \<and> ldtr c' = of_nat (8 * FIRST_LDT_ENTRY) \<and>
     io_out c' = io_out c @
       [(0x43, 0x36), (0x40, of_nat (11931 mod 256)), (0x40, of_nat (11931 div 256)),
        (0x21, inb_p 0x21 AND NOT 1)] \<and>
     gate_offset (idt c' 0x20) = ti \<and> gate_type (idt c' 0x20) = 14 \<and> gate_dpl (idt c' 0x20) = 0 \<and>
     gate_offset (idt c' 0x80) = sy \<and> gate_type (idt c' 0x80) = 15 \<and> gate_dpl (idt c' 0x80) = 3"
  unfolding sched_init_eq
  by (simp add: set_tssldt_desc_fields set_gate_fields set_gate_kinds FIRST_TSS_ENTRY_def
      FIRST_LDT_ENTRY_def cong: if_cong)

section \<open>What \<^verbatim>\<open>schedule\<close> computes\<close>

definition runnable :: "sched \<Rightarrow> nat \<Rightarrow> bool" where
  "runnable s k \<longleftrightarrow> task s k \<noteq> NULL \<and> task_state s (task s k) = TASK_RUNNING"

text \<open>Slot \<open>i\<close> is the only one that holds the current task.\<close>

definition current_slot :: "sched \<Rightarrow> nat \<Rightarrow> bool" where
  "current_slot s i \<longleftrightarrow> i < NR_TASKS \<and> task s i = current s \<and>
     (\<forall>j < NR_TASKS. task s j = current s \<longrightarrow> j = i)"

text \<open>The other slots, in the order of a walk round the table that starts after slot \<open>i\<close>.\<close>

definition round_from :: "nat \<Rightarrow> nat list" where
  "round_from i = map (\<lambda>d. (i + d) mod NR_TASKS) [1..<NR_TASKS]"

lemma current_slot_unique: "current_slot s i \<Longrightarrow> current_slot s j \<Longrightarrow> i = j"
  by (auto simp: current_slot_def)

lemma find_current_slot:
  assumes "current_slot s i" and "j \<le> i"
  shows "find_current s j = Inr i"
  using assms(2)
proof (induction "i - j" arbitrary: j)
  case 0
  then show ?case using assms(1) by (subst find_current.simps) (auto simp: current_slot_def)
next
  case (Suc d)
  then have "j < i" "find_current s (j + 1) = Inr i" by auto
  then show ?case using assms(1) by (subst find_current.simps) (auto simp: current_slot_def)
qed

lemma ring_mod:
  "i < NR_TASKS \<Longrightarrow> d \<le> NR_TASKS \<Longrightarrow>
     (i + d) mod NR_TASKS = (if i + d < NR_TASKS then i + d else i + d - NR_TASKS)"
  by (simp add: mod_if)

lemma current_slot_mod:
  assumes "current_slot s i" and "0 < d" and "d < NR_TASKS"
  shows "task s ((i + d) mod NR_TASKS) \<noteq> current s"
proof
  assume "task s ((i + d) mod NR_TASKS) = current s"
  then have "(i + d) mod NR_TASKS = i" using assms(1) by (auto simp: current_slot_def)
  moreover have "i < NR_TASKS" using assms(1) by (simp add: current_slot_def)
  ultimately show False using assms(2,3) by (simp only: ring_mod less_imp_le split: if_splits)
qed

lemma sched_scan_from:
  assumes "current_slot s i" and "0 < d" and "d \<le> NR_TASKS"
  shows "sched_scan s (i + d) =
    Some (find (runnable s) (map (\<lambda>d. (i + d) mod NR_TASKS) [d..<NR_TASKS]))"
  using assms(2,3)
proof (induction "NR_TASKS - d" arbitrary: d)
  case 0
  then show ?case using assms(1)
    by (subst sched_scan.simps) (simp add: current_slot_def)
next
  case (Suc m)
  then have d: "d < NR_TASKS" by simp
  then have "sched_scan s (i + d + 1) =
      Some (find (runnable s) (map (\<lambda>d. (i + d) mod NR_TASKS) [Suc d..<NR_TASKS]))"
    using Suc(1) [of "d + 1"] Suc(2) by simp
  moreover have "task s ((i + d) mod NR_TASKS) \<noteq> current s"
    using current_slot_mod [OF assms(1) Suc(3) d] .
  ultimately show ?case
    using d by (subst sched_scan.simps) (simp add: upt_conv_Cons runnable_def Let_def)
qed

lemma schedule_eq:
  assumes "current_slot s i"
  shows "schedule s =
    Some (Inr (case find (runnable s) (round_from i) of None \<Rightarrow> s | Some k \<Rightarrow> switch_to k s))"
  using assms find_current_slot [OF assms, of 0] sched_scan_from [OF assms, of 1]
  by (simp add: schedule_def round_from_def split: option.split)

text \<open>Distances on the ring of slots.\<close>

definition ring_dist :: "nat \<Rightarrow> nat \<Rightarrow> nat" where
  "ring_dist i j = (if i \<le> j then j - i else j + NR_TASKS - i)"

lemma ring_dist_round: "i < NR_TASKS \<Longrightarrow> j < NR_TASKS \<Longrightarrow> (i + ring_dist i j) mod NR_TASKS = j"
  by (simp add: ring_dist_def)

lemma ring_dist_0_iff: "i < NR_TASKS \<Longrightarrow> j < NR_TASKS \<Longrightarrow> ring_dist i j = 0 \<longleftrightarrow> i = j"
  by (auto simp: ring_dist_def)

lemma ring_dist_advance:
  "i < NR_TASKS \<Longrightarrow> d \<le> ring_dist i j \<Longrightarrow> j < NR_TASKS \<Longrightarrow>
     ring_dist ((i + d) mod NR_TASKS) j = ring_dist i j - d"
  using ring_mod [of i d] by (auto simp: ring_dist_def split: if_splits)

lemma schedule_advances:
  assumes i: "current_slot s i" and j: "j < NR_TASKS" "j \<noteq> i" "runnable s j"
  shows "\<exists>d. 0 < d \<and> d \<le> ring_dist i j \<and> runnable s ((i + d) mod NR_TASKS) \<and>
     schedule s = Some (Inr (switch_to ((i + d) mod NR_TASKS) s))"
proof -
  let ?D = "ring_dist i j" and ?f = "\<lambda>d. (i + d) mod NR_TASKS"
  have i': "i < NR_TASKS" using i by (simp add: current_slot_def)
  have D: "0 < ?D" "?D < NR_TASKS" "?f ?D = j"
    using ring_dist_0_iff [OF i' j(1)] ring_dist_round [OF i' j(1)] j(2) by (auto simp: ring_dist_def)
  have split: "[1..<NR_TASKS] = [1..<?D] @ ?D # [?D+1..<NR_TASKS]"
    using D upt_add_eq_append [of 1 ?D "NR_TASKS - ?D"] by (simp add: upt_conv_Cons)
  have "find (runnable s) (round_from i) =
      (case find (runnable s) (map ?f [1..<?D]) of None \<Rightarrow> Some j | Some k \<Rightarrow> Some k)"
    using j(3) D(3) unfolding round_from_def split by (simp add: find_append split: option.split)
  then consider "find (runnable s) (round_from i) = Some j"
    | d where "d \<in> {1..<?D}" "runnable s (?f d)" "find (runnable s) (round_from i) = Some (?f d)"
    by (cases "find (runnable s) (map ?f [1..<?D])") (auto dest!: find_SomeD)
  then show ?thesis
  proof cases
    case 1
    then show ?thesis using D j(3) schedule_eq [OF i] by (intro exI [of _ ?D]) simp
  next
    case 2
    then show ?thesis using schedule_eq [OF i] by (intro exI [of _ d]) simp
  qed
qed

section \<open>Round robin and fairness\<close>

text \<open>Two tasks, at addresses \<^verbatim>\<open>0x1000\<close> and \<^verbatim>\<open>0x2000\<close> in slots 0 and 5; the second has the given state.\<close>

definition two_tasks :: "u32 \<Rightarrow> sched" where
  "two_tasks st =
     \<lparr>tasks = (\<lambda>_. INIT_TASK 0x1000 0)(0x2000 := (INIT_TASK 0x1000 0)\<lparr>ts_state := st\<rparr>),
      task = (\<lambda>_. NULL)(0 := 0x1000, 5 := 0x2000), current = 0x1000, init_task = 0x1000,
      last_task_used_math = NULL, jiffies = 0, waitq = (\<lambda>_. NULL), mutex_lock = (\<lambda>_. 0),
      tr = TSS_sel 0, cr0_ts = False, sched_log = []\<rparr>"

lemma two_tasks_slot: "current_slot (two_tasks st) 0"
  by (simp add: two_tasks_def current_slot_def)

text \<open>
  C19: \<^verbatim>\<open>schedule\<close> returns when \<^verbatim>\<open>current\<close> is in the table, and switches to the first runnable task met
  on one walk round the table from the slot after that of the current task; when no other task is
  runnable it changes nothing.
\<close>

theorem schedule_round_robin:
  assumes "current_slot s i"
  shows "schedule s =
    Some (Inr (case find (runnable s) (round_from i) of None \<Rightarrow> s | Some k \<Rightarrow> switch_to k s))"
  using assms by (rule schedule_eq)

theorem schedule_round_robin_witness:
  "current_slot (two_tasks 0) 0 \<and>
   schedule (two_tasks 0) =
     Some (Inr (case find (runnable (two_tasks 0)) (round_from 0) of
                  None \<Rightarrow> two_tasks 0 | Some k \<Rightarrow> switch_to k (two_tasks 0)))"
  using schedule_round_robin [OF two_tasks_slot, of 0] two_tasks_slot by simp

lemma switch_to_frame [simp, frame]:
  "task (switch_to k s) = task s" "tasks (switch_to k s) = tasks s"
  "waitq (switch_to k s) = waitq s" "mutex_lock (switch_to k s) = mutex_lock s"
  "init_task (switch_to k s) = init_task s" "current (switch_to k s) = task s k"
  by (simp_all add: switch_to_def)

text \<open>
  A run of the machine seen at its calls of \<^verbatim>\<open>schedule\<close>: \<open>run n\<close> is the state at call \<open>n\<close>.  Between
  two calls the current task does what it likes, short of changing \<^verbatim>\<open>current\<close> or a slot of the
  table that is in use (\<^verbatim>\<open>fork\<close> fills an empty slot, and no operation of this kernel empties one).
\<close>

definition schedule_run :: "(nat \<Rightarrow> sched) \<Rightarrow> bool" where
  "schedule_run run \<longleftrightarrow>
     (\<forall>n. (\<exists>i. current_slot (run n) i) \<and>
          (\<exists>s. schedule (run n) = Some (Inr s) \<and> current (run (Suc n)) = current s \<and>
               (\<forall>k. task (run n) k \<noteq> NULL \<longrightarrow> task (run (Suc n)) k = task (run n) k)))"

lemma schedule_run_current: "schedule_run run \<Longrightarrow> \<exists>i. current_slot (run n) i"
  by (simp add: schedule_run_def)

lemma schedule_run_slot:
  assumes "schedule_run run" and "\<forall>n. runnable (run n) j"
  shows "task (run n) j = task (run 0) j"
proof (induction n)
  case (Suc n)
  have "task (run n) j \<noteq> NULL" using assms(2) by (simp add: runnable_def)
  then have "task (run (Suc n)) j = task (run n) j" using assms(1) unfolding schedule_run_def by blast
  with Suc show ?case by simp
qed simp

lemma schedule_run_step:
  assumes "schedule_run run" and "j < NR_TASKS" and "runnable (run m) j"
    and "current_slot (run m) i" and "i \<noteq> j"
  shows "\<exists>k. current_slot (run (Suc m)) k \<and> ring_dist k j < ring_dist i j"
proof -
  obtain d where d: "0 < d" "d \<le> ring_dist i j" "runnable (run m) ((i + d) mod NR_TASKS)"
      "schedule (run m) = Some (Inr (switch_to ((i + d) mod NR_TASKS) (run m)))"
    using schedule_advances [OF assms(4,2)] assms(3,5) by auto
  let ?k = "(i + d) mod NR_TASKS"
  have "task (run m) ?k \<noteq> NULL" using d(3) by (simp add: runnable_def)
  then have cur: "current (run (Suc m)) = task (run (Suc m)) ?k"
    using assms(1) d(4) unfolding schedule_run_def by (metis Inr_inject option.inject switch_to_frame(6))
  obtain i' where i': "current_slot (run (Suc m)) i'"
    using schedule_run_current [OF assms(1), of "Suc m"] by (elim exE)
  moreover have "?k < NR_TASKS" by simp
  ultimately have "i' = ?k" using cur unfolding current_slot_def by metis
  moreover have "ring_dist ?k j = ring_dist i j - d"
    using ring_dist_advance [OF _ d(2) assms(2)] assms(4) by (simp add: current_slot_def)
  ultimately show ?thesis using i' d(1,2) by (intro exI [of _ ?k]) simp
qed

lemma schedule_run_reaches:
  assumes "schedule_run run" and "j < NR_TASKS" and "\<forall>n. runnable (run n) j"
    and "current_slot (run m) i"
  shows "\<exists>n \<ge> m. n \<le> m + ring_dist i j \<and> current (run n) = task (run 0) j"
  using assms(4)
proof (induction "ring_dist i j" arbitrary: i m rule: less_induct)
  case less
  show ?case
  proof (cases "i = j")
    case True
    then have "current (run m) = task (run 0) j"
      using less.prems schedule_run_slot [OF assms(1,3), of m] by (simp add: current_slot_def)
    then show ?thesis by (intro exI [of _ m]) simp
  next
    case False
    then obtain k where k: "current_slot (run (Suc m)) k" "ring_dist k j < ring_dist i j"
      using schedule_run_step [OF assms(1,2) assms(3) [THEN spec] less.prems False] by (elim exE conjE)
    obtain n where n: "Suc m \<le> n" "n \<le> Suc m + ring_dist k j" "current (run n) = task (run 0) j"
      using less.hyps [OF k(2,1)] by (elim exE conjE)
    then have "m \<le> n" "n \<le> m + ring_dist i j" using k(2) by linarith+
    with n(3) show ?thesis by (intro exI conjI)
  qed
qed

text \<open>
  C15: no starvation.  In a run in which a task stays runnable, whatever the other tasks do between
  the calls, from any point on it is given the processor within \<^verbatim>\<open>NR_TASKS\<close> calls of \<^verbatim>\<open>schedule\<close>.
\<close>

theorem schedule_fair:
  assumes "schedule_run run" and "j < NR_TASKS" and "\<forall>n. runnable (run n) j"
  shows "\<exists>n \<ge> m. n < m + NR_TASKS \<and> current (run n) = task (run 0) j"
proof -
  obtain i where i: "current_slot (run m) i"
    using schedule_run_current [OF assms(1), of m] by (elim exE)
  then have "i < NR_TASKS" by (simp add: current_slot_def)
  then have "ring_dist i j < NR_TASKS" using assms(2) by (auto simp: ring_dist_def)
  moreover obtain n where n: "m \<le> n" "n \<le> m + ring_dist i j" "current (run n) = task (run 0) j"
    using schedule_run_reaches [OF assms i] by (elim exE conjE)
  moreover from calculation have "n < m + NR_TASKS" by linarith
  ultimately show ?thesis by (intro exI conjI)
qed

definition two_tasks_run :: "nat \<Rightarrow> sched" where
  "two_tasks_run n = (two_tasks 0)\<lparr>current := (if even n then 0x1000 else 0x2000)\<rparr>"

lemma two_tasks_run_ok: "schedule_run two_tasks_run"
  unfolding schedule_run_def
proof
  fix n
  have "current_slot (two_tasks_run n) (if even n then 0 else 5)"
    by (simp add: two_tasks_run_def two_tasks_def current_slot_def)
  moreover from schedule_eq [OF this] have "\<exists>s. schedule (two_tasks_run n) = Some (Inr s) \<and>
      current (two_tasks_run (Suc n)) = current s"
    by (simp add: two_tasks_run_def two_tasks_def runnable_def round_from_def task_state_def
        INIT_TASK_def upt_conv_Cons switch_to_def)
  ultimately show "(\<exists>i. current_slot (two_tasks_run n) i) \<and>
     (\<exists>s. schedule (two_tasks_run n) = Some (Inr s) \<and>
          current (two_tasks_run (Suc n)) = current s \<and>
          (\<forall>k. task (two_tasks_run n) k \<noteq> NULL \<longrightarrow>
               task (two_tasks_run (Suc n)) k = task (two_tasks_run n) k))"
    by (auto simp: two_tasks_run_def)
qed

theorem schedule_fair_witness:
  "schedule_run two_tasks_run \<and> (\<forall>n. runnable (two_tasks_run n) 5) \<and>
   (\<exists>n \<ge> 7. n < 7 + NR_TASKS \<and> current (two_tasks_run n) = task (two_tasks_run 0) 5)"
proof -
  have r: "\<forall>n. runnable (two_tasks_run n) 5"
    by (simp add: two_tasks_run_def two_tasks_def runnable_def task_state_def INIT_TASK_def)
  show ?thesis using schedule_fair [OF two_tasks_run_ok _ r, of 7] two_tasks_run_ok r by simp
qed

section \<open>What the operations leave alone\<close>

lemma task_state_set_state [simp]:
  "task_state (set_state s t v) u = (if u = t then v else task_state s u)"
  by (simp add: task_state_def set_state_def)

lemma task_state_frame [simp]:
  "task_state (set_waitq s p t) u = task_state s u" "task_state (printk m s) u = task_state s u"
  "task_state (s\<lparr>mutex_lock := l\<rparr>) u = task_state s u" "task_state (s\<lparr>current := c\<rparr>) u = task_state s u"
  by (simp_all add: task_state_def set_waitq_def printk_def)

lemma set_state_frame [simp, frame]:
  "task (set_state s t v) = task s" "current (set_state s t v) = current s"
  "init_task (set_state s t v) = init_task s" "waitq (set_state s t v) = waitq s"
  "mutex_lock (set_state s t v) = mutex_lock s" "sched_log (set_state s t v) = sched_log s"
  by (simp_all add: set_state_def)

lemma set_waitq_frame [simp, frame]:
  "task (set_waitq s p t) = task s" "current (set_waitq s p t) = current s"
  "init_task (set_waitq s p t) = init_task s" "waitq (set_waitq s p t) = (waitq s)(p := t)"
  "mutex_lock (set_waitq s p t) = mutex_lock s" "sched_log (set_waitq s p t) = sched_log s"
  by (simp_all add: set_waitq_def)

lemma printk_frame [simp, frame]:
  "task (printk m s) = task s" "current (printk m s) = current s" "waitq (printk m s) = waitq s"
  "init_task (printk m s) = init_task s" "mutex_lock (printk m s) = mutex_lock s"
  by (simp_all add: printk_def)

lemma schedule_frame:
  assumes "schedule s = Some (Inr s')"
  shows "tasks s' = tasks s \<and> task s' = task s \<and> waitq s' = waitq s \<and>
    mutex_lock s' = mutex_lock s \<and> init_task s' = init_task s"
  using assms by (auto simp: schedule_def split: sum.splits option.splits)


lemma current_slotD: "current_slot s i \<Longrightarrow> i < NR_TASKS" "current_slot s i \<Longrightarrow> task s i = current s"
  by (simp_all add: current_slot_def)

lemma in_round_from:
  assumes "i < NR_TASKS" and "j < NR_TASKS" and "j \<noteq> i"
  shows "j \<in> set (round_from i)"
proof -
  have "0 < ring_dist i j" "ring_dist i j < NR_TASKS"
    using assms ring_dist_0_iff [OF assms(1,2)] by (auto simp: ring_dist_def)
  moreover have "j = (i + ring_dist i j) mod NR_TASKS" using ring_dist_round [OF assms(1,2)] by simp
  ultimately show ?thesis unfolding round_from_def set_map set_upt
    by (intro image_eqI [of _ _ "ring_dist i j"]) simp_all
qed

lemma round_from_less: "k \<in> set (round_from i) \<Longrightarrow> k < NR_TASKS"
  by (auto simp: round_from_def)

lemma schedule_cases:
  assumes "current_slot s i" and "schedule s = Some (Inr s')"
  obtains "s' = s" and "\<And>j. j < NR_TASKS \<Longrightarrow> runnable s j \<Longrightarrow> j = i"
  | k where "k < NR_TASKS" and "runnable s k" and "s' = switch_to k s"
proof (cases "find (runnable s) (round_from i)")
  case None
  have "i < NR_TASKS" using assms(1) by (simp add: current_slot_def)
  with None have "j = i" if "j < NR_TASKS" "runnable s j" for j
    using in_round_from [of i j] that unfolding find_None_iff by metis
  moreover have "s' = s" using assms schedule_eq [OF assms(1)] None by simp
  ultimately show thesis using that(1) by metis
next
  case (Some k)
  then show thesis
    using that(2) [of k] round_from_less [of k i] find_SomeD [OF Some] assms schedule_eq [OF assms(1)] by simp
qed

lemma wake_task_effect:
  "waitq (wake_task t s) = waitq s" "mutex_lock (wake_task t s) = mutex_lock s"
  "task (wake_task t s) = task s" "current (wake_task t s) = current s"
  "init_task (wake_task t s) = init_task s"
  "task_state (wake_task t s) u = (if u = t then TASK_RUNNING else task_state s u)"
  by (simp_all add: wake_task_def Let_def)

lemma wake_up_effect:
  "waitq (wake_up q s) = waitq s" "mutex_lock (wake_up q s) = mutex_lock s"
  "task (wake_up q s) = task s" "current (wake_up q s) = current s"
  "init_task (wake_up q s) = init_task s"
  "task_state (wake_up q s) u =
     (if q \<noteq> WQ_null \<and> waitq s q \<noteq> NULL \<and> u = waitq s q then TASK_RUNNING else task_state s u)"
  by (simp_all add: wake_up_def wake_task_effect)

end
