(* ===== verification/Mutex.thy ===== *)
theory Mutex
  imports Sched
begin
text \<open>
  The kernel mutexes of \<^verbatim>\<open>kernel/sched.c\<close> (\<^verbatim>\<open>sys_klock\<close>, \<^verbatim>\<open>sys_kunlock\<close>) and the machine in which
  tasks call them.  \<^verbatim>\<open>sys_klock\<close> runs with interrupts disabled, so that the processor leaves a task
  inside it only in the call of \<^verbatim>\<open>schedule\<close> in \<^verbatim>\<open>sleep_on\<close>; \<^verbatim>\<open>sys_kunlock\<close> runs with interrupts
  enabled and can be preempted between its two statements, and in \<^verbatim>\<open>wake_up\<close> between the test that loads the
  head of the queue (into a register, where it stays) and the store to the state of that task.  The step
  relation has one rule for every such stretch of uninterrupted execution.

  \<^verbatim>\<open>sys_kunlock\<close> does not ask who holds the mutex, and any task may call it.  The queues and the wake-ups are right in
  all interleavings; mutual exclusion holds in those in which a task releases only what it holds, and a
  release by another task breaks it.
\<close>

section \<open>The system calls\<close>

text \<open>
  How a stretch of \<^verbatim>\<open>sys_klock\<close> ends: with the lock taken, or in \<^verbatim>\<open>sleep_on\<close> at the call of
  \<^verbatim>\<open>schedule\<close>.  A return of \<^verbatim>\<open>sleep_on\<close> goes back to the test of the loop.
\<close>

datatype klock_end = Acquired sched | Asleep ptr sched

definition NR_MUTEX :: int where
  "NR_MUTEX = 64"

partial_function (option) klock_loop :: "int \<Rightarrow> sched \<Rightarrow> klock_end kres option" where
  "klock_loop n s =
     (if mutex_lock s n \<noteq> 0
      then (case sleep_on (WQ_mutex n) s of
              Inl e \<Rightarrow> Some (Inl e)
            | Inr (Returned s') \<Rightarrow> klock_loop n s'
            | Inr (At_repeat tmp s') \<Rightarrow> Some (Inr (Asleep tmp s')))
      else Some (Inr (Acquired (s\<lparr>mutex_lock := (mutex_lock s)(n := 1)\<rparr>))))"

definition sys_klock :: "int \<Rightarrow> sched \<Rightarrow> klock_end kres option" where
  "sys_klock n s =
     (if n < 0 \<or> NR_MUTEX \<le> n then Some (Inl (Out_of_bounds ''kernel_mutxt_a'')) else klock_loop n s)"

text \<open>The stretch that starts when \<^verbatim>\<open>schedule\<close> returns in \<^verbatim>\<open>sleep_on\<close>.\<close>

definition klock_resume :: "int \<Rightarrow> ptr \<Rightarrow> sched \<Rightarrow> klock_end kres option" where
  "klock_resume n tmp s =
     (case sleep_on_resume (WQ_mutex n) tmp s of
        Returned s' \<Rightarrow> klock_loop n s'
      | At_repeat tmp' s' \<Rightarrow> Some (Inr (Asleep tmp' s')))"

definition kunlock_release :: "int \<Rightarrow> sched \<Rightarrow> sched kres" where
  "kunlock_release n s =
     (if n < 0 \<or> NR_MUTEX \<le> n then Inl (Out_of_bounds ''kernel_mutxt_a'')
      else Inr (s\<lparr>mutex_lock := (mutex_lock s)(n := 0)\<rparr>))"

text \<open>The test of \<^verbatim>\<open>wake_up\<close> loads the head of the queue; its body wakes the task found.\<close>

definition kunlock_head :: "int \<Rightarrow> sched \<Rightarrow> ptr" where
  "kunlock_head n s = waitq s (WQ_mutex n)"

definition kunlock_wake :: "ptr \<Rightarrow> sched \<Rightarrow> sched" where
  "kunlock_wake h s = wake_task h s"

definition sys_kunlock :: "int \<Rightarrow> sched \<Rightarrow> sched kres" where
  "sys_kunlock n s =
     (case kunlock_release n s of
        Inl e \<Rightarrow> Inl e
      | Inr s' \<Rightarrow> Inr (if kunlock_head n s' \<noteq> NULL then kunlock_wake (kunlock_head n s') s' else s'))"

lemma sys_kunlock_wake_up:
  "sys_kunlock n s = (case kunlock_release n s of Inl e \<Rightarrow> Inl e | Inr s' \<Rightarrow> Inr (wake_up (WQ_mutex n) s'))"
  by (simp add: sys_kunlock_def kunlock_head_def kunlock_wake_def wake_up_def split: sum.split)

section \<open>The machine\<close>

text \<open>
  Where each task is: outside these calls, suspended in \<^verbatim>\<open>sys_klock n\<close> with its local \<^verbatim>\<open>tmp\<close>, between the
  two statements of \<^verbatim>\<open>sys_kunlock n\<close>, or in its call of \<^verbatim>\<open>wake_up\<close> with the head of the queue loaded.
  \<open>holds\<close> records which locks a task has taken and not itself released; the code does not keep it, and
  no step reads it.
\<close>

datatype kpc = User | In_klock int ptr | In_kunlock int | In_wake int ptr

record ksys =
  sch :: sched
  pc :: "ptr \<Rightarrow> kpc"
  holds :: "ptr \<Rightarrow> int set"

abbreviation cur :: "ksys \<Rightarrow> ptr" where
  "cur k \<equiv> current (sch k)"

definition take_lock :: "ksys \<Rightarrow> int \<Rightarrow> sched \<Rightarrow> ksys" where
  "take_lock k n s =
     k\<lparr>sch := s, pc := (pc k)(cur k := User), holds := (holds k)(cur k := insert n (holds k (cur k)))\<rparr>"

inductive kstep :: "ksys \<Rightarrow> ksys \<Rightarrow> bool" where
  klock_takes:
    "pc k (cur k) = User \<Longrightarrow> sys_klock n (sch k) = Some (Inr (Acquired s)) \<Longrightarrow>
     kstep k (take_lock k n s)"
| klock_waits:
    "pc k (cur k) = User \<Longrightarrow> sys_klock n (sch k) = Some (Inr (Asleep tmp s)) \<Longrightarrow>
     schedule s = Some (Inr s') \<Longrightarrow>
     kstep k (k\<lparr>sch := s', pc := (pc k)(cur k := In_klock n tmp)\<rparr>)"
| resume_takes:
    "pc k (cur k) = In_klock n tmp \<Longrightarrow> klock_resume n tmp (sch k) = Some (Inr (Acquired s)) \<Longrightarrow>
     kstep k (take_lock k n s)"
| resume_waits:
    "pc k (cur k) = In_klock n tmp \<Longrightarrow> klock_resume n tmp (sch k) = Some (Inr (Asleep tmp' s)) \<Longrightarrow>
     schedule s = Some (Inr s') \<Longrightarrow>
     kstep k (k\<lparr>sch := s', pc := (pc k)(cur k := In_klock n tmp')\<rparr>)"
| kunlock_releases:
    "pc k (cur k) = User \<Longrightarrow> kunlock_release n (sch k) = Inr s \<Longrightarrow>
     kstep k (k\<lparr>sch := s, pc := (pc k)(cur k := In_kunlock n),
                holds := (holds k)(cur k := holds k (cur k) - {n})\<rparr>)"
| kunlock_finds:
    "pc k (cur k) = In_kunlock n \<Longrightarrow>
     kstep k (k\<lparr>pc := (pc k)(cur k := if kunlock_head n (sch k) = NULL then User else In_wake n (kunlock_head n (sch k)))\<rparr>)"
| kunlock_wakes:
    "pc k (cur k) = In_wake n h \<Longrightarrow>
     kstep k (k\<lparr>sch := kunlock_wake h (sch k), pc := (pc k)(cur k := User)\<rparr>)"
| timer:
    "(\<And>n tmp. pc k (cur k) \<noteq> In_klock n tmp) \<Longrightarrow> do_timer cpl (sch k) = Some (Inr s) \<Longrightarrow>
     kstep k (k\<lparr>sch := s\<rparr>)"
| pause:
    "pc k (cur k) = User \<Longrightarrow> cur k \<noteq> init_task (sch k) \<Longrightarrow> sys_pause (sch k) = Some (Inr (r, s)) \<Longrightarrow>
     kstep k (k\<lparr>sch := s\<rparr>)"
| fpu_flag:
    "kstep k (k\<lparr>sch := switch_to_resumed (sch k)\<rparr>)"

text \<open>The steps of tasks that release only what they hold.\<close>

definition releases_held :: "ksys \<Rightarrow> ksys \<Rightarrow> bool" where
  "releases_held k k' \<longleftrightarrow>
     (\<forall>n. pc k (cur k) = User \<longrightarrow> pc k' (cur k) = In_kunlock n \<longrightarrow> n \<in> holds k (cur k))"

definition owner_step :: "ksys \<Rightarrow> ksys \<Rightarrow> bool" where
  "owner_step k k' \<longleftrightarrow> kstep k k' \<and> releases_held k k'"

text \<open>The kernel once its tasks exist and before any of them has used a mutex.\<close>

definition tab_wf :: "sched \<Rightarrow> bool" where
  "tab_wf s \<longleftrightarrow>
     (\<exists>i < NR_TASKS. task s i = current s) \<and> (\<exists>i < NR_TASKS. task s i = init_task s) \<and>
     current s \<noteq> NULL \<and> init_task s \<noteq> NULL \<and>
     (\<forall>i < NR_TASKS. \<forall>j < NR_TASKS. task s i \<noteq> NULL \<longrightarrow> task s i = task s j \<longrightarrow> i = j) \<and>
     task_state s (init_task s) = TASK_RUNNING"

definition cur_running :: "sched \<Rightarrow> bool" where
  "cur_running s \<longleftrightarrow> task_state s (current s) = TASK_RUNNING"

definition kstart :: "ksys \<Rightarrow> bool" where
  "kstart k \<longleftrightarrow>
     tab_wf (sch k) \<and> cur_running (sch k) \<and> (\<forall>t. pc k t = User) \<and> (\<forall>t. holds k t = {}) \<and>
     (\<forall>n. mutex_lock (sch k) n = 0) \<and> (\<forall>n. waitq (sch k) (WQ_mutex n) = NULL)"

section \<open>The stretches in closed form\<close>

definition push_sleeper :: "int \<Rightarrow> sched \<Rightarrow> sched" where
  "push_sleeper n s =
     set_state (set_waitq s (WQ_mutex n) (current s)) (current s) TASK_UNINTERRUPTIBLE"

lemma klock_loop_eq:
  "klock_loop n s =
     (if mutex_lock s n = 0 then Some (Inr (Acquired (s\<lparr>mutex_lock := (mutex_lock s)(n := 1)\<rparr>)))
      else if current s = init_task s then Some (Inl (Panic ''task[0] trying to sleep''))
      else Some (Inr (Asleep (waitq s (WQ_mutex n)) (push_sleeper n s))))"
  by (subst klock_loop.simps) (simp add: sleep_on_def sleep_on_enter_def push_sleeper_def Let_def)

lemma sys_klock_loop: "sys_klock n s = Some (Inr e) \<Longrightarrow> klock_loop n s = Some (Inr e)"
  by (simp add: sys_klock_def split: if_splits)

lemma sys_pause_schedule:
  "sys_pause s = Some (Inr (r, s')) \<Longrightarrow> schedule (set_state s (current s) TASK_INTERRUPTIBLE) = Some (Inr s')"
  by (auto simp: sys_pause_def split: option.splits sum.splits)

lemma push_sleeper_frame [simp, frame]:
  "task (push_sleeper n s) = task s" "current (push_sleeper n s) = current s"
  "init_task (push_sleeper n s) = init_task s" "mutex_lock (push_sleeper n s) = mutex_lock s"
  "waitq (push_sleeper n s) = (waitq s)(WQ_mutex n := current s)"
  "sched_log (push_sleeper n s) = sched_log s"
  "task_state (push_sleeper n s) u = (if u = current s then TASK_UNINTERRUPTIBLE else task_state s u)"
  by (simp_all add: push_sleeper_def)

lemma tab_wf_slot: "tab_wf s \<Longrightarrow> \<exists>i. current_slot s i"
  unfolding tab_wf_def current_slot_def by metis

lemma tab_wf_init:
  assumes "tab_wf s"
  shows "\<exists>j < NR_TASKS. task s j = init_task s \<and> runnable s j"
proof -
  obtain j where "j < NR_TASKS" "task s j = init_task s"
    using assms unfolding tab_wf_def by (elim conjE exE)
  moreover have "init_task s \<noteq> NULL \<and> task_state s (init_task s) = TASK_RUNNING"
    using assms unfolding tab_wf_def by (elim conjE, intro conjI)
  ultimately show ?thesis unfolding runnable_def by (intro exI [of _ j]) simp
qed

lemma tab_wf_cong:
  assumes "tab_wf s" and "task s' = task s" "init_task s' = init_task s"
    and "current s' = current s" "task_state s' (init_task s) = TASK_RUNNING"
  shows "tab_wf s'"
  using assms unfolding tab_wf_def by simp

lemma schedule_tab:
  assumes wf: "tab_wf s" and sched: "schedule s = Some (Inr s')"
  shows "tab_wf s'"
proof -
  obtain i where i: "current_slot s i" using tab_wf_slot [OF wf] by (elim exE)
  show ?thesis
  proof (cases rule: schedule_cases [OF i sched])
    case (2 k)
    then have "\<exists>i < NR_TASKS. task s' i = current s'" "current s' \<noteq> NULL"
      unfolding runnable_def by (metis switch_to_frame(1,6), metis switch_to_frame(6))
    then show ?thesis using wf 2(3) by (simp add: tab_wf_def task_state_def)
  qed (use wf in simp)
qed

lemma schedule_runs_runnable:
  assumes wf: "tab_wf s" and sched: "schedule s = Some (Inr s')"
    and cur: "cur_running s \<or> current s \<noteq> init_task s"
  shows "cur_running s'"
proof -
  obtain i where i: "current_slot s i" using tab_wf_slot [OF wf] by (elim exE)
  show ?thesis
  proof (cases rule: schedule_cases [OF i sched])
    case 1
    obtain j where "j < NR_TASKS" "task s j = init_task s" "runnable s j"
      using tab_wf_init [OF wf] by (elim exE conjE)
    then have "current s = init_task s" using 1(2) [of j] current_slotD(2) [OF i] by simp
    with cur 1(1) show ?thesis by simp
  next
    case (2 k)
    then show ?thesis by (simp add: cur_running_def runnable_def task_state_def)
  qed
qed


section \<open>The invariant\<close>

text \<open>Ownership: a lock word is set exactly when some task holds the lock, and no two tasks do.\<close>

definition lock_ok :: "sched \<Rightarrow> (ptr \<Rightarrow> int set) \<Rightarrow> bool" where
  "lock_ok s h \<longleftrightarrow>
     (\<forall>n. (mutex_lock s n \<noteq> 0 \<longleftrightarrow> (\<exists>t. n \<in> h t)) \<and> (\<forall>t u. n \<in> h t \<longrightarrow> n \<in> h u \<longrightarrow> t = u))"

text \<open>
  The wait queue of mutex \<open>n\<close> is a list \<open>c\<close> of sleeping tasks threaded through their local
  variables \<^verbatim>\<open>tmp\<close>, the last one to arrive first.
\<close>

primrec linked :: "(ptr \<Rightarrow> kpc) \<Rightarrow> int \<Rightarrow> ptr list \<Rightarrow> ptr \<Rightarrow> bool" where
  "linked p n [] h \<longleftrightarrow> h = NULL"
| "linked p n (t # ts) h \<longleftrightarrow> h = t \<and> t \<noteq> NULL \<and> (\<exists>tmp. p t = In_klock n tmp \<and> linked p n ts tmp)"

definition waiters :: "(ptr \<Rightarrow> kpc) \<Rightarrow> int \<Rightarrow> ptr set" where
  "waiters p n = {t. \<exists>tmp. p t = In_klock n tmp}"

text \<open>
  When the lock is free and tasks wait for it, one of them is runnable or a wake-up is still to come: of
  whatever task is at the head of the queue, or of a task that still waits.
\<close>

definition wakeup_due :: "sched \<Rightarrow> (ptr \<Rightarrow> kpc) \<Rightarrow> int \<Rightarrow> bool" where
  "wakeup_due s p n \<longleftrightarrow>
     (\<exists>t \<in> waiters p n. task_state s t = TASK_RUNNING) \<or> (\<exists>t. p t = In_kunlock n) \<or>
     (\<exists>t. \<exists>h \<in> waiters p n. p t = In_wake n h)"

definition chain_ok :: "sched \<Rightarrow> (ptr \<Rightarrow> kpc) \<Rightarrow> int \<Rightarrow> ptr list \<Rightarrow> bool" where
  "chain_ok s p n c \<longleftrightarrow>
     linked p n c (waitq s (WQ_mutex n)) \<and> distinct c \<and> set c = waiters p n \<and>
     (c \<noteq> [] \<longrightarrow> mutex_lock s n = 0 \<longrightarrow> wakeup_due s p n)"

definition chains_ok :: "sched \<Rightarrow> (ptr \<Rightarrow> kpc) \<Rightarrow> bool" where
  "chains_ok s p \<longleftrightarrow> (\<forall>n. \<exists>c. chain_ok s p n c)"

text \<open>Task 0 never sleeps: \<^verbatim>\<open>__sleep_on\<close> panics instead.\<close>

definition kinv :: "ksys \<Rightarrow> bool" where
  "kinv k \<longleftrightarrow>
     (\<forall>n tmp. pc k (init_task (sch k)) \<noteq> In_klock n tmp) \<and>
     tab_wf (sch k) \<and> cur_running (sch k) \<and> chains_ok (sch k) (pc k)"

lemma linked_cong:
  "(\<And>t. t \<in> set c \<Longrightarrow> p' t = p t) \<Longrightarrow> linked p' n c h \<longleftrightarrow> linked p n c h"
  by (induction c arbitrary: h) auto

lemma linked_upd: "t \<notin> set c \<Longrightarrow> linked (p(t := v)) n c h \<longleftrightarrow> linked p n c h"
  by (intro linked_cong) auto

lemma wakeup_due_mono:
  "wakeup_due s p n \<Longrightarrow>
     (\<And>u. u \<in> waiters p n \<Longrightarrow> task_state s u = TASK_RUNNING \<Longrightarrow> task_state s' u = TASK_RUNNING) \<Longrightarrow>
     wakeup_due s' p n"
  unfolding wakeup_due_def by blast

lemma chain_cong:
  "waitq s' = waitq s \<Longrightarrow> mutex_lock s' = mutex_lock s \<Longrightarrow> tasks s' = tasks s \<Longrightarrow>
     chains_ok s' p \<longleftrightarrow> chains_ok s p"
  by (simp add: chains_ok_def chain_ok_def wakeup_due_def task_state_def)

lemma waiters_upd_other:
  "(\<And>tmp. p t \<noteq> In_klock n tmp) \<Longrightarrow> (\<And>tmp. v \<noteq> In_klock n tmp) \<Longrightarrow>
     waiters (p(t := v)) n = waiters p n"
  by (auto simp: waiters_def)

text \<open>A step of a task that is not in the queue of mutex \<open>n\<close> and wakes rather than stops sleepers.\<close>

lemma chain_frame:
  assumes c: "chain_ok s p n c"
    and q: "waitq s' (WQ_mutex n) = waitq s (WQ_mutex n)"
    and t: "\<And>tmp. p t \<noteq> In_klock n tmp" "\<And>tmp. v \<noteq> In_klock n tmp"
    and run: "\<And>u. u \<in> waiters p n \<Longrightarrow> task_state s u = TASK_RUNNING \<Longrightarrow> task_state s' u = TASK_RUNNING"
    and lock: "mutex_lock s' n \<noteq> 0 \<or>
      mutex_lock s' n = mutex_lock s n \<and> p t \<noteq> In_kunlock n \<and>
        (\<forall>h. p t = In_wake n h \<longrightarrow> task_state s' h = TASK_RUNNING) \<or>
      v = In_kunlock n \<or> (\<exists>h \<in> waiters p n. v = In_wake n h) \<or> c = []"
  shows "chain_ok s' (p(t := v)) n c"
proof -
  have w: "waiters (p(t := v)) n = waiters p n" using t by (rule waiters_upd_other)
  have notin: "t \<notin> set c" using c t(1) by (auto simp: chain_ok_def waiters_def)
  have l: "linked (p(t := v)) n c h = linked p n c h" for h
    using notin by (rule linked_upd)
  have "wakeup_due s' (p(t := v)) n" if h: "c \<noteq> []" "mutex_lock s' n = 0"
  proof (cases "v = In_kunlock n \<or> (\<exists>h \<in> waiters p n. v = In_wake n h)")
    case True
    then show ?thesis using w unfolding wakeup_due_def by (metis fun_upd_same)
  next
    case False
    then have l: "mutex_lock s n = 0" "p t \<noteq> In_kunlock n"
        "\<And>h. p t = In_wake n h \<Longrightarrow> task_state s' h = TASK_RUNNING"
      using lock h by auto
    then have "wakeup_due s p n" using c h by (simp add: chain_ok_def)
    then consider u where "u \<in> waiters p n" "task_state s u = TASK_RUNNING" | u where "p u = In_kunlock n"
      | u h where "h \<in> waiters p n" "p u = In_wake n h" unfolding wakeup_due_def by blast
    then show ?thesis
    proof cases
      case 1
      then show ?thesis using run w unfolding wakeup_due_def by blast
    next
      case 2
      then show ?thesis using l(2) unfolding wakeup_due_def by (metis fun_upd_other)
    next
      case 3
      then show ?thesis using l(3) w unfolding wakeup_due_def by (metis fun_upd_other)
    qed
  qed
  then show ?thesis using c q w l by (simp add: chain_ok_def)
qed


lemma chains_okI: "(\<And>n. \<exists>c. chain_ok s p n c) \<Longrightarrow> chains_ok s p"
  by (simp add: chains_ok_def)

lemma take_chains:
  assumes "chains_ok s p" and "p t = User"
  shows "chains_ok (s\<lparr>mutex_lock := (mutex_lock s)(n := 1)\<rparr>) p"
proof (rule chains_okI)
  fix m
  obtain c where c: "chain_ok s p m c" using assms(1) by (auto simp: chains_ok_def)
  then have "chain_ok (s\<lparr>mutex_lock := (mutex_lock s)(n := 1)\<rparr>) (p(t := User)) m c"
    using assms(2) by (intro chain_frame) auto
  then show "\<exists>c. chain_ok (s\<lparr>mutex_lock := (mutex_lock s)(n := 1)\<rparr>) p m c"
    using assms(2) by (metis fun_upd_triv)
qed

lemma push_chains:
  assumes "chains_ok s p" and "p (current s) = User" and "current s \<noteq> NULL"
    and "mutex_lock s n \<noteq> 0"
  shows "chains_ok (push_sleeper n s) (p(current s := In_klock n (waitq s (WQ_mutex n))))"
    (is "chains_ok ?s' ?p'")
proof (rule chains_okI)
  fix m
  obtain c where c: "chain_ok s p m c" using assms(1) by (auto simp: chains_ok_def)
  have cur: "current s \<notin> waiters p m" using assms(2) by (simp add: waiters_def)
  show "\<exists>c. chain_ok ?s' ?p' m c"
  proof (cases "m = n")
    case True
    have "linked ?p' n c (waitq s (WQ_mutex n))"
      using c True cur by (simp add: chain_ok_def linked_upd)
    moreover have "waiters ?p' n = insert (current s) (waiters p n)"
      by (auto simp: waiters_def)
    ultimately have "chain_ok ?s' ?p' n (current s # c)"
      using c True cur assms(3,4) by (simp add: chain_ok_def)
    with True show ?thesis by blast
  next
    case False
    then have "chain_ok ?s' ?p' m c"
      using c assms(2) cur by (intro chain_frame) auto
    then show ?thesis by blast
  qed
qed

lemma pop_chains:
  assumes ok: "chains_ok s p" and pc: "p (current s) = In_klock n tmp"
    and head: "waitq s (WQ_mutex n) = current s"
    and s': "s' = (let s1 = set_waitq s (WQ_mutex n) tmp
                   in if tmp \<noteq> NULL then set_state s1 tmp 0 else s1)"
  shows "chains_ok s' (p(current s := User))" (is "chains_ok s' ?p'")
proof (rule chains_okI)
  fix m
  obtain c where c: "chain_ok s p m c" using ok by (auto simp: chains_ok_def)
  have run: "task_state s u = TASK_RUNNING \<Longrightarrow> task_state s' u = TASK_RUNNING" for u
    by (simp add: s' Let_def)
  have q: "waitq s' (WQ_mutex n) = tmp" by (simp add: s' Let_def)
  show "\<exists>c. chain_ok s' ?p' m c"
  proof (cases "m = n")
    case True
    have "current s \<in> set c" using c True pc by (auto simp: chain_ok_def waiters_def)
    then obtain ts where ts: "c = current s # ts" "linked p n ts tmp" "current s \<notin> set ts"
      using c True pc head by (cases c) (auto simp: chain_ok_def)
    have w: "waiters ?p' n = set ts"
      using c True ts by (auto simp: chain_ok_def waiters_def)
    have "linked ?p' n ts tmp" using ts(2,3) by (simp add: linked_upd)
    moreover have "wakeup_due s' ?p' n" if "ts \<noteq> []"
    proof -
      have "tmp \<in> waiters ?p' n" "tmp \<noteq> NULL" using that ts(2) w by (cases ts; simp)+
      then show ?thesis by (auto simp: wakeup_due_def s' Let_def)
    qed
    ultimately have "chain_ok s' ?p' n ts"
      using c True ts(1) w q by (simp add: chain_ok_def)
    with True show ?thesis by blast
  next
    case False
    then have "chain_ok s' ?p' m c"
      using pc run by (intro chain_frame [OF c]) (auto simp: s' Let_def)
    then show ?thesis by blast
  qed
qed

lemma retry_chains:
  assumes ok: "chains_ok s p" and pc: "p (current s) = In_klock n tmp"
    and head: "waitq s (WQ_mutex n) \<noteq> NULL" "waitq s (WQ_mutex n) \<noteq> current s"
    and s': "s' = set_state (set_state s (waitq s (WQ_mutex n)) TASK_RUNNING) (current s)
      TASK_UNINTERRUPTIBLE"
  shows "chains_ok s' p"
proof (rule chains_okI)
  fix m
  obtain c where c: "chain_ok s p m c" using ok by (auto simp: chains_ok_def)
  have same: "waitq s' = waitq s" "mutex_lock s' = mutex_lock s" by (simp_all add: s')
  show "\<exists>c. chain_ok s' p m c"
  proof (cases "m = n")
    case True
    have "waitq s (WQ_mutex n) \<in> waiters p n"
      using c True head(1) by (cases c) (auto simp: chain_ok_def)
    moreover have "task_state s' (waitq s (WQ_mutex n)) = TASK_RUNNING" using head by (simp add: s')
    ultimately have "wakeup_due s' p n" unfolding wakeup_due_def by blast
    with c True have "chain_ok s' p m c" by (simp add: chain_ok_def same)
    then show ?thesis by blast
  next
    case False
    then have "u \<in> waiters p m \<Longrightarrow> u \<noteq> current s" for u using pc by (auto simp: waiters_def)
    then have "wakeup_due s' p m" if "wakeup_due s p m"
      using wakeup_due_mono [OF that] s' by simp
    with c have "chain_ok s' p m c" by (simp add: chain_ok_def same)
    then show ?thesis by blast
  qed
qed


lemma loop_chains:
  assumes "chains_ok s p" and "p (current s) = User" and "current s \<noteq> NULL"
  shows "klock_loop n s = Some (Inr (Acquired s')) \<Longrightarrow> chains_ok s' p"
    and "klock_loop n s = Some (Inr (Asleep tmp s')) \<Longrightarrow>
      chains_ok s' (p(current s := In_klock n tmp))"
  using take_chains [OF assms(1,2), of n] push_chains [OF assms, of n]
  by (auto simp: klock_loop_eq split: if_splits)

text \<open>The two ways a sleeper can go when it gets the processor back; the queue is never empty then.\<close>

lemma klock_resume_eq:
  assumes "chains_ok s p" and "p (current s) = In_klock n tmp"
  shows "klock_resume n tmp s =
    (if waitq s (WQ_mutex n) = current s
     then klock_loop n (let s1 = set_waitq s (WQ_mutex n) tmp
                        in if tmp \<noteq> NULL then set_state s1 tmp 0 else s1)
     else Some (Inr (Asleep tmp (set_state (set_state s (waitq s (WQ_mutex n)) TASK_RUNNING)
                                  (current s) TASK_UNINTERRUPTIBLE))))"
    and "waitq s (WQ_mutex n) \<noteq> NULL"
proof -
  obtain c where "chain_ok s p n c" using assms(1) by (auto simp: chains_ok_def)
  then show q: "waitq s (WQ_mutex n) \<noteq> NULL"
    using assms(2) by (cases c) (auto simp: chain_ok_def waiters_def)
  then show "klock_resume n tmp s = (if waitq s (WQ_mutex n) = current s
     then klock_loop n (let s1 = set_waitq s (WQ_mutex n) tmp
                        in if tmp \<noteq> NULL then set_state s1 tmp 0 else s1)
     else Some (Inr (Asleep tmp (set_state (set_state s (waitq s (WQ_mutex n)) TASK_RUNNING)
                                  (current s) TASK_UNINTERRUPTIBLE))))"
    by (simp add: klock_resume_def sleep_on_resume_def Let_def)
qed

lemma resume_chains:
  assumes ok: "chains_ok s p" and pc: "p (current s) = In_klock n tmp" and "current s \<noteq> NULL"
  shows "klock_resume n tmp s = Some (Inr (Acquired s')) \<Longrightarrow> chains_ok s' (p(current s := User))"
    and "klock_resume n tmp s = Some (Inr (Asleep tmp' s')) \<Longrightarrow>
      chains_ok s' (p(current s := In_klock n tmp'))"
proof -
  let ?s1 = "let s1 = set_waitq s (WQ_mutex n) tmp in if tmp \<noteq> NULL then set_state s1 tmp 0 else s1"
  have cur: "current ?s1 = current s" by (simp add: Let_def)
  note eq = klock_resume_eq [OF ok pc]
  have pop: "chains_ok ?s1 (p(current s := User))" if "waitq s (WQ_mutex n) = current s"
    using pop_chains [OF ok pc that refl] .
  note loop = loop_chains [of ?s1 "p(current s := User)", unfolded cur, OF pop _ assms(3)]
  show "chains_ok s' (p(current s := User))" if "klock_resume n tmp s = Some (Inr (Acquired s'))"
    using that loop(1) [of n s'] eq(1) by (auto split: if_splits)
  show "chains_ok s' (p(current s := In_klock n tmp'))"
    if "klock_resume n tmp s = Some (Inr (Asleep tmp' s'))"
  proof (cases "waitq s (WQ_mutex n) = current s")
    case True
    then show ?thesis using that loop(2) [of n tmp' s'] eq(1) by (auto split: if_splits)
  next
    case False
    then show ?thesis
      using that eq retry_chains [OF ok pc eq(2) False refl] pc by (simp add: fun_upd_idem)
  qed
qed

lemma release_chains:
  assumes "chains_ok s p" and "p t = User"
  shows "chains_ok (s\<lparr>mutex_lock := (mutex_lock s)(n := 0)\<rparr>) (p(t := In_kunlock n))"
proof (rule chains_okI)
  fix m
  obtain c where "chain_ok s p m c" using assms(1) by (auto simp: chains_ok_def)
  then have "chain_ok (s\<lparr>mutex_lock := (mutex_lock s)(n := 0)\<rparr>) (p(t := In_kunlock n)) m c"
    using assms(2) by (intro chain_frame) auto
  then show "\<exists>c. chain_ok (s\<lparr>mutex_lock := (mutex_lock s)(n := 0)\<rparr>) (p(t := In_kunlock n)) m c"
    by blast
qed

lemma find_chains:
  assumes "chains_ok s p" and "p t = In_kunlock n"
  shows "chains_ok s (p(t := if kunlock_head n s = NULL then User else In_wake n (kunlock_head n s)))"
    (is "chains_ok s (p(t := ?v))")
proof (rule chains_okI)
  fix m
  obtain c where c: "chain_ok s p m c" using assms(1) by (auto simp: chains_ok_def)
  have "c = [] \<or> kunlock_head n s \<noteq> NULL \<and> kunlock_head n s \<in> waiters p n" if "m = n"
    using c that by (cases c) (auto simp: chain_ok_def kunlock_head_def)
  with c have "chain_ok s (p(t := ?v)) m c"
    using assms(2) by (intro chain_frame) auto
  then show "\<exists>c. chain_ok s (p(t := ?v)) m c" by blast
qed

lemma wake_chains:
  assumes "chains_ok s p" and "p t = In_wake n h"
  shows "chains_ok (wake_task h s) (p(t := User))"
proof (rule chains_okI)
  fix m
  obtain c where c: "chain_ok s p m c" using assms(1) by (auto simp: chains_ok_def)
  have "chain_ok (wake_task h s) (p(t := User)) m c"
    using assms(2) by (intro chain_frame [OF c]) (auto simp: wake_task_effect)
  then show "\<exists>c. chain_ok (wake_task h s) (p(t := User)) m c" by blast
qed


text \<open>What a stretch of \<^verbatim>\<open>sys_klock\<close> does to the rest of the scheduler.\<close>

definition quiet :: "sched \<Rightarrow> sched \<Rightarrow> bool" where
  "quiet s s' \<longleftrightarrow>
     task s' = task s \<and> init_task s' = init_task s \<and> current s' = current s \<and>
     (\<forall>u. u \<noteq> current s \<longrightarrow> task_state s u = TASK_RUNNING \<longrightarrow> task_state s' u = TASK_RUNNING)"

lemma quiet_trans: "quiet s s1 \<Longrightarrow> quiet s1 s2 \<Longrightarrow> quiet s s2"
  by (simp add: quiet_def)

lemma loop_effect:
  "klock_loop n s = Some (Inr (Acquired s')) \<Longrightarrow>
     quiet s s' \<and> task_state s' (current s) = task_state s (current s) \<and>
     mutex_lock s n = 0 \<and> mutex_lock s' = (mutex_lock s)(n := 1)"
  "klock_loop n s = Some (Inr (Asleep tmp s')) \<Longrightarrow>
     quiet s s' \<and> mutex_lock s' = mutex_lock s \<and> current s \<noteq> init_task s"
  by (auto simp: klock_loop_eq quiet_def split: if_splits)

lemma pop_quiet:
  "quiet s (let s1 = set_waitq s q tmp in if tmp \<noteq> NULL then set_state s1 tmp 0 else s1)"
  by (simp add: quiet_def Let_def)

lemma pop_frame:
  fixes s q tmp
  defines "s1 \<equiv> let s1 = set_waitq s q tmp in if tmp \<noteq> NULL then set_state s1 tmp 0 else s1"
  shows "mutex_lock s1 = mutex_lock s" "current s1 = current s" "init_task s1 = init_task s"
    "task_state s (current s) = 0 \<Longrightarrow> task_state s1 (current s) = 0"
  by (simp_all add: s1_def Let_def)

lemma resume_effect:
  assumes ok: "chains_ok s p" and pc: "p (current s) = In_klock n tmp"
    and "current s \<noteq> init_task s" and run: "cur_running s"
  shows "klock_resume n tmp s = Some (Inr (Acquired s')) \<Longrightarrow>
      quiet s s' \<and> cur_running s' \<and> mutex_lock s n = 0 \<and> mutex_lock s' = (mutex_lock s)(n := 1)"
    and "klock_resume n tmp s = Some (Inr (Asleep tmp' s')) \<Longrightarrow>
      quiet s s' \<and> mutex_lock s' = mutex_lock s"
proof -
  let ?s1 = "let s1 = set_waitq s (WQ_mutex n) tmp in if tmp \<noteq> NULL then set_state s1 tmp 0 else s1"
  note pop = pop_frame [where s = s and q = "WQ_mutex n" and tmp = tmp]
  note eq = klock_resume_eq [OF ok pc]
  show "quiet s s' \<and> cur_running s' \<and> mutex_lock s n = 0 \<and> mutex_lock s' = (mutex_lock s)(n := 1)"
    if "klock_resume n tmp s = Some (Inr (Acquired s'))"
  proof -
    have l: "klock_loop n ?s1 = Some (Inr (Acquired s'))" using that eq(1) by (simp split: if_splits)
    have "quiet s s'" using loop_effect(1) [OF l] pop_quiet quiet_trans by blast
    moreover have "cur_running s'" "mutex_lock s n = 0" "mutex_lock s' = (mutex_lock s)(n := 1)"
      using loop_effect(1) [OF l] run pop by (simp_all add: cur_running_def quiet_def)
    ultimately show ?thesis by simp
  qed
  show "quiet s s' \<and> mutex_lock s' = mutex_lock s"
    if r: "klock_resume n tmp s = Some (Inr (Asleep tmp' s'))"
  proof (cases "waitq s (WQ_mutex n) = current s")
    case True
    then have l: "klock_loop n ?s1 = Some (Inr (Asleep tmp' s'))" using r eq(1) by simp
    then have "quiet s s'" using loop_effect(2) [OF l] pop_quiet quiet_trans by blast
    then show ?thesis using loop_effect(2) [OF l] pop(1) by simp
  next
    case False
    then show ?thesis using r eq by (auto simp: quiet_def)
  qed
qed

lemma quiet_tab:
  assumes "tab_wf s" and "quiet s s'"
    and "current s \<noteq> init_task s \<or> cur_running s'"
  shows "tab_wf s'"
proof (rule tab_wf_cong [OF assms(1)])
  have "task_state s (init_task s) = TASK_RUNNING" using assms(1) unfolding tab_wf_def by (elim conjE)
  then show "task_state s' (init_task s) = TASK_RUNNING"
    using assms(2,3) unfolding quiet_def cur_running_def by (cases "init_task s = current s") auto
qed (use assms(2) in \<open>simp_all add: quiet_def\<close>)

lemma take_lock_ok:
  assumes "lock_ok s h" and "mutex_lock s n = 0" and "mutex_lock s' = (mutex_lock s)(n := 1)"
  shows "lock_ok s' (h(t := insert n (h t)))"
proof -
  have "n \<notin> h u" for u using assms(1,2) unfolding lock_ok_def by blast
  moreover have "m \<in> (h(t := insert n (h t))) u \<longleftrightarrow> m \<in> h u \<or> m = n \<and> u = t" for m u by auto
  ultimately show ?thesis using assms unfolding lock_ok_def by (metis fun_upd_apply zero_neq_one)
qed

lemma release_lock_ok:
  assumes "lock_ok s h" and "n \<in> h t"
  shows "lock_ok (s\<lparr>mutex_lock := (mutex_lock s)(n := 0)\<rparr>) (h(t := h t - {n}))"
  using assms unfolding lock_ok_def by auto


lemma lock_ok_cong: "mutex_lock s' = mutex_lock s \<Longrightarrow> lock_ok s' h \<longleftrightarrow> lock_ok s h"
  by (simp add: lock_ok_def)

text \<open>A call of \<^verbatim>\<open>schedule\<close> in a state that has everything but a runnable current task.\<close>

lemma kinv_schedule:
  assumes "schedule s = Some (Inr s')" and "tab_wf s" and "cur_running s \<or> current s \<noteq> init_task s"
    and "chains_ok s p" and "\<forall>n tmp. p (init_task s) \<noteq> In_klock n tmp"
  shows "kinv \<lparr>sch = s', pc = p, holds = h\<rparr>"
  using schedule_tab [OF assms(2,1)] schedule_runs_runnable [OF assms(2,1,3)]
    schedule_frame [OF assms(1)] assms(4,5) chain_cong [of s' s p]
  by (simp add: kinv_def)

lemma kinv_parts:
  assumes "kinv k"
  shows "tab_wf (sch k)" "cur_running (sch k)" "chains_ok (sch k) (pc k)"
    "pc k (init_task (sch k)) \<noteq> In_klock n tmp" "cur k \<noteq> NULL"
  using assms by (auto simp: kinv_def tab_wf_def)

lemma kinv_takes:
  assumes "kinv k" and "quiet (sch k) s" and "cur_running s" and "chains_ok s ((pc k)(cur k := User))"
  shows "kinv (take_lock k n s)"
proof -
  note k = kinv_parts [OF assms(1)]
  have "tab_wf s"
    using quiet_tab [OF k(1) assms(2)] assms(3) by blast
  moreover have "init_task s = init_task (sch k)" using assms(2) by (simp add: quiet_def)
  ultimately show ?thesis using assms(3,4) k(4) by (simp add: kinv_def take_lock_def)
qed

lemma kinv_waits:
  assumes "kinv k" and "quiet (sch k) s"
    and "cur k \<noteq> init_task (sch k)" and "chains_ok s ((pc k)(cur k := In_klock n tmp))"
    and "schedule s = Some (Inr s')"
  shows "kinv (k\<lparr>sch := s', pc := (pc k)(cur k := In_klock n tmp)\<rparr>)"
proof -
  note k = kinv_parts [OF assms(1)]
  have q: "init_task s = init_task (sch k)" "current s = cur k" using assms(2) by (simp_all add: quiet_def)
  have "tab_wf s" using quiet_tab [OF k(1) assms(2)] assms(3) by simp
  then have "kinv \<lparr>sch = s', pc = (pc k)(cur k := In_klock n tmp), holds = holds k\<rparr>"
    using assms(3-5) k(4) q by (intro kinv_schedule [OF assms(5)]) auto
  then show ?thesis by (cases k) simp
qed

lemma kunlock_release_eq:
  "kunlock_release n s = Inr s' \<Longrightarrow> s' = s\<lparr>mutex_lock := (mutex_lock s)(n := 0)\<rparr>"
  by (simp add: kunlock_release_def split: if_splits)

lemma kinv_release:
  assumes "kinv k" and "pc k (cur k) = User" and "kunlock_release n (sch k) = Inr s"
  shows "kinv (k\<lparr>sch := s, pc := (pc k)(cur k := In_kunlock n), holds := h\<rparr>)"
proof -
  note k = kinv_parts [OF assms(1)] and s = kunlock_release_eq [OF assms(3)]
  have "tab_wf s" using k(1) s by (simp add: tab_wf_def)
  then show ?thesis
    using release_chains [OF k(3) assms(2)] k(2,4) s by (simp add: kinv_def cur_running_def)
qed

lemma kinv_find:
  assumes "kinv k" and "pc k (cur k) = In_kunlock n"
  shows "kinv (k\<lparr>pc := (pc k)(cur k := if kunlock_head n (sch k) = NULL then User else In_wake n (kunlock_head n (sch k)))\<rparr>)"
  using kinv_parts [OF assms(1)] find_chains [OF kinv_parts(3) [OF assms(1)] assms(2)] by (simp add: kinv_def)

lemma kinv_wake:
  assumes "kinv k" and "pc k (cur k) = In_wake n h"
  shows "kinv (k\<lparr>sch := kunlock_wake h (sch k), pc := (pc k)(cur k := User)\<rparr>)"
proof -
  note k = kinv_parts [OF assms(1)]
  let ?s = "wake_task h (sch k)"
  have "quiet (sch k) ?s" by (simp add: quiet_def wake_task_effect)
  moreover have cur: "cur_running ?s" using k(2) by (simp add: cur_running_def wake_task_effect)
  ultimately have "tab_wf ?s" using quiet_tab [OF k(1)] by blast
  then show ?thesis
    using cur k(4) wake_chains [OF k(3) assms(2)] by (simp add: kinv_def kunlock_wake_def wake_task_effect(5))
qed

lemma pause_chains:
  assumes "chains_ok s p" and "p (current s) = User"
  shows "chains_ok (set_state s (current s) v) p"
proof (rule chains_okI)
  fix m
  obtain c where c: "chain_ok s p m c" using assms(1) by (auto simp: chains_ok_def)
  have "chain_ok (set_state s (current s) v) (p(current s := User)) m c"
    using assms(2) by (intro chain_frame [OF c]) (auto simp: waiters_def)
  then show "\<exists>c. chain_ok (set_state s (current s) v) p m c"
    using assms(2) by (metis fun_upd_triv)
qed

lemma kinv_pause:
  assumes "kinv k" and "pc k (cur k) = User" and "cur k \<noteq> init_task (sch k)"
    and "sys_pause (sch k) = Some (Inr (r, s))"
  shows "kinv (k\<lparr>sch := s\<rparr>)"
proof -
  note k = kinv_parts [OF assms(1)]
  let ?s1 = "set_state (sch k) (cur k) TASK_INTERRUPTIBLE"
  note sch = sys_pause_schedule [OF assms(4)]
  have "quiet (sch k) ?s1" by (simp add: quiet_def)
  then have "kinv \<lparr>sch = s, pc = pc k, holds = holds k\<rparr>"
    using quiet_tab [OF k(1), of ?s1] k(4) assms(3) pause_chains [OF k(3) assms(2)]
    by (intro kinv_schedule [OF sch]) simp_all
  then show ?thesis by (cases k) simp
qed

lemma kinv_fpu:
  assumes "kinv k"
  shows "kinv (k\<lparr>sch := switch_to_resumed (sch k)\<rparr>)"
proof -
  note k = kinv_parts [OF assms]
  obtain b where b: "switch_to_resumed (sch k) = (sch k)\<lparr>cr0_ts := b\<rparr>"
  proof (cases "cur k = last_task_used_math (sch k)")
    case True
    then show thesis using that [of False] by (simp add: switch_to_resumed_def)
  next
    case False
    then show thesis using that [of "cr0_ts (sch k)"] by (simp add: switch_to_resumed_def)
  qed
  have "tab_wf ((sch k)\<lparr>cr0_ts := b\<rparr>)" using k(1) by (simp add: tab_wf_def task_state_def)
  then show ?thesis unfolding b
    using k(2,4) chain_cong [of "(sch k)\<lparr>cr0_ts := b\<rparr>" "sch k" "pc k"] k(3)
    by (simp add: kinv_def cur_running_def task_state_def)
qed

lemma kinv_klock:
  assumes "kinv k" and "pc k (cur k) = User"
  shows "sys_klock n (sch k) = Some (Inr (Acquired s)) \<Longrightarrow> kinv (take_lock k n s)"
    "sys_klock n (sch k) = Some (Inr (Asleep tmp s)) \<Longrightarrow> schedule s = Some (Inr s') \<Longrightarrow>
       kinv (k\<lparr>sch := s', pc := (pc k)(cur k := In_klock n tmp)\<rparr>)"
proof -
  note k = kinv_parts [OF assms(1)]
  show "kinv (take_lock k n s)" if "sys_klock n (sch k) = Some (Inr (Acquired s))"
  proof -
    note l = sys_klock_loop [OF that]
    have "cur_running s" using loop_effect(1) [OF l] k(2) by (simp add: cur_running_def quiet_def)
    then show ?thesis
      using loop_effect(1) [OF l] loop_chains(1) [OF k(3) _ k(5) l] assms(2)
      by (intro kinv_takes [OF assms(1)]) (simp_all add: fun_upd_idem)
  qed
  show "kinv (k\<lparr>sch := s', pc := (pc k)(cur k := In_klock n tmp)\<rparr>)"
    if "sys_klock n (sch k) = Some (Inr (Asleep tmp s))" "schedule s = Some (Inr s')"
    using loop_effect(2) [OF sys_klock_loop [OF that(1)]] loop_chains(2) [OF k(3) assms(2) k(5) sys_klock_loop [OF that(1)]] that(2)
    by (intro kinv_waits [OF assms(1)]) simp_all
qed

lemma kinv_step:
  assumes "kstep k k'" and "kinv k"
  shows "kinv k'"
  using assms(1)
proof cases
  case (klock_takes n s)
  then show ?thesis using kinv_klock(1) [OF assms(2)] by simp
next
  case (klock_waits n tmp s s')
  then show ?thesis using kinv_klock(2) [OF assms(2)] by simp
next
  case (resume_takes n tmp s)
  note k = kinv_parts [OF assms(2)]
  have ni: "cur k \<noteq> init_task (sch k)" using k(4) resume_takes(2) by metis
  show ?thesis
    unfolding resume_takes(1) using resume_effect(1) [OF k(3) resume_takes(2) ni k(2) resume_takes(3)]
      resume_chains(1) [OF k(3) resume_takes(2) k(5) resume_takes(3)]
    by (intro kinv_takes [OF assms(2)]) simp_all
next
  case (resume_waits n tmp tmp' s s')
  note k = kinv_parts [OF assms(2)]
  have ni: "cur k \<noteq> init_task (sch k)" using k(4) resume_waits(2) by metis
  show ?thesis
    unfolding resume_waits(1) using resume_effect(2) [OF k(3) resume_waits(2) ni k(2) resume_waits(3)]
      resume_chains(2) [OF k(3) resume_waits(2) k(5) resume_waits(3)] ni resume_waits(4)
    by (intro kinv_waits [OF assms(2)]) simp_all
next
  case (kunlock_releases n s)
  then show ?thesis using kinv_release [OF assms(2)] by simp
next
  case (kunlock_finds n)
  then show ?thesis using kinv_find [OF assms(2)] by simp
next
  case (kunlock_wakes n h)
  then show ?thesis using kinv_wake [OF assms(2)] by simp
next
  case (timer cpl s)
  note k = kinv_parts [OF assms(2)]
  have "kinv \<lparr>sch = s, pc = pc k, holds = holds k\<rparr>"
    using timer(3) k(1-4) by (intro kinv_schedule allI) (simp_all add: do_timer_def)
  then show ?thesis unfolding timer(1) by (cases k) simp
next
  case (pause r s)
  then show ?thesis using kinv_pause [OF assms(2)] by simp
next
  case fpu_flag
  then show ?thesis using kinv_fpu [OF assms(2)] by simp
qed

section \<open>What every interleaving keeps\<close>

interpretation kmutex: step_invariant kstep kinv
  by unfold_locales (rule kinv_step)

lemma kstart_kinv: "kstart k \<Longrightarrow> kinv k"
  by (auto simp: kstart_def kinv_def chains_ok_def chain_ok_def waiters_def intro!: exI [of _ "[]"])

lemmas kreach_inv = kmutex.reachable [OF _ kstart_kinv]

lemma kinv_queue:
  assumes "kinv k"
  shows "\<exists>c. linked (pc k) n c (waitq (sch k) (WQ_mutex n)) \<and> distinct c \<and> set c = {t. \<exists>tmp. pc k t = In_klock n tmp}"
  using kinv_parts(3) [OF assms] unfolding chains_ok_def chain_ok_def waiters_def by blast

lemma kinv_wakeup:
  assumes "kinv k" and "mutex_lock (sch k) n = 0" and "pc k t = In_klock n tmp"
  shows "(\<exists>u tmp'. pc k u = In_klock n tmp' \<and> task_state (sch k) u = TASK_RUNNING) \<or> (\<exists>u. pc k u = In_kunlock n) \<or>
    (\<exists>u h tmp'. pc k u = In_wake n h \<and> pc k h = In_klock n tmp')"
proof -
  obtain c where c: "chain_ok (sch k) (pc k) n c"
    using kinv_parts(3) [OF assms(1)] unfolding chains_ok_def by blast
  moreover have "t \<in> set c" using c assms(3) by (auto simp: chain_ok_def waiters_def)
  ultimately have "wakeup_due (sch k) (pc k) n" using assms(2) by (auto simp: chain_ok_def)
  then show ?thesis unfolding wakeup_due_def waiters_def by blast
qed

text \<open>The owners, as long as tasks release what they hold.\<close>

definition owned :: "ksys \<Rightarrow> bool" where
  "owned k \<longleftrightarrow> kinv k \<and> lock_ok (sch k) (holds k)"

lemma schedule_lock: "schedule s = Some (Inr s') \<Longrightarrow> lock_ok s' h \<longleftrightarrow> lock_ok s h"
  using schedule_frame lock_ok_cong by blast

lemma owner_step_lock:
  assumes "owner_step k k'" and "kinv k" and ok: "lock_ok (sch k) (holds k)"
  shows "lock_ok (sch k') (holds k')"
proof -
  note k = kinv_parts [OF assms(2)]
  have held: "releases_held k k'" and "kstep k k'" using assms(1) by (simp_all add: owner_step_def)
  from this(2) show ?thesis
  proof cases
    case (klock_takes n s)
    then show ?thesis using take_lock_ok [OF ok] loop_effect(1) [OF sys_klock_loop] by (simp add: take_lock_def)
  next
    case (klock_waits n tmp s s')
    then have "mutex_lock s = mutex_lock (sch k)" using loop_effect(2) [OF sys_klock_loop] by blast
    then show ?thesis using klock_waits ok lock_ok_cong [of s "sch k"] schedule_lock by simp
  next
    case (resume_takes n tmp s)
    have "cur k \<noteq> init_task (sch k)" using k(4) resume_takes(2) by metis
    then show ?thesis
      using resume_takes(1) take_lock_ok [OF ok] resume_effect(1) [OF k(3) resume_takes(2) _ k(2) resume_takes(3)]
      by (simp add: take_lock_def)
  next
    case (resume_waits n tmp tmp' s s')
    have "cur k \<noteq> init_task (sch k)" using k(4) resume_waits(2) by metis
    then have "mutex_lock s = mutex_lock (sch k)"
      using resume_effect(2) [OF k(3) resume_waits(2) _ k(2) resume_waits(3)] by blast
    then show ?thesis using resume_waits ok lock_ok_cong [of s "sch k"] schedule_lock by simp
  next
    case (kunlock_releases n s)
    then have "n \<in> holds k (cur k)" using held by (simp add: releases_held_def)
    then show ?thesis using kunlock_releases(1) release_lock_ok [OF ok] kunlock_release_eq [OF kunlock_releases(3)] by simp
  next
    case (timer cpl s)
    then show ?thesis using ok schedule_lock by (simp add: do_timer_def)
  next
    case (pause r s)
    then show ?thesis
      using ok schedule_lock [OF sys_pause_schedule] lock_ok_cong [of "set_state (sch k) (cur k) TASK_INTERRUPTIBLE" "sch k"] by simp
  next
    case (kunlock_finds n)
    then show ?thesis using ok by simp
  next
    case (kunlock_wakes n h)
    then show ?thesis
      using ok lock_ok_cong [of "wake_task h (sch k)" "sch k"] by (simp add: kunlock_wake_def wake_task_effect(2))
  next
    case fpu_flag
    have m: "mutex_lock (switch_to_resumed (sch k)) = mutex_lock (sch k)" by (simp add: switch_to_resumed_def)
    show ?thesis using fpu_flag ok lock_ok_cong [OF m] by simp
  qed
qed

interpretation kowned: step_invariant owner_step owned
  by unfold_locales (auto simp: owned_def owner_step_def intro: kinv_step owner_step_lock)

lemma kstart_owned: "kstart k \<Longrightarrow> owned k"
  using kstart_kinv by (auto simp: owned_def kstart_def lock_ok_def)

lemma owned_mutex:
  assumes "owned k"
  shows "n \<in> holds k t \<Longrightarrow> n \<in> holds k u \<Longrightarrow> t = u" "mutex_lock (sch k) n \<noteq> 0 \<longleftrightarrow> (\<exists>t. n \<in> holds k t)"
  using assms unfolding owned_def lock_ok_def by blast+

text \<open>
  C2: mutual exclusion among tasks that keep to one rule: a task calls \<^verbatim>\<open>sys_kunlock\<close> only for a mutex that it has locked
  and not released since (\<open>owner_step\<close>; the code does not enforce it).  Then, whatever the interleaving of tasks that lock, unlock,
  are preempted and pause, no two tasks hold the same kernel mutex, and the lock word is set exactly
  while one does.
\<close>

theorem klock_mutual_exclusion:
  assumes "kstart k0" and "owner_step\<^sup>*\<^sup>* k0 k"
  shows "(n \<in> holds k t \<and> n \<in> holds k u \<longrightarrow> t = u) \<and>
    (mutex_lock (sch k) n \<noteq> 0 \<longleftrightarrow> (\<exists>t. n \<in> holds k t))"
  using owned_mutex [OF kowned.reachable [OF assms(2) kstart_owned [OF assms(1)]]] by blast

text \<open>
  C3: no lost wake-up.  Whoever releases mutexes and however tasks are preempted: whenever a kernel mutex is free and tasks
  sleep on it, one of the sleepers is runnable, or some task is inside \<^verbatim>\<open>sys_kunlock\<close> and about to wake the
  head of the queue, or has loaded the head of the queue, which is still asleep there, and is about to wake it.
\<close>

theorem klock_no_lost_wakeup:
  assumes "kstart k0" and "kstep\<^sup>*\<^sup>* k0 k"
    and "mutex_lock (sch k) n = 0" and "pc k t = In_klock n tmp"
  shows "(\<exists>u tmp'. pc k u = In_klock n tmp' \<and> task_state (sch k) u = TASK_RUNNING) \<or>
    (\<exists>u. pc k u = In_kunlock n) \<or> (\<exists>u h tmp'. pc k u = In_wake n h \<and> pc k h = In_klock n tmp')"
  by (rule kinv_wakeup [OF kreach_inv [OF assms(2,1)] assms(3,4)])

text \<open>
  C4: a mutex is not protected against a task that has not locked it.  When one task holds a mutex and another one, that has the
  processor and is in user mode, calls \<^verbatim>\<open>sys_kunlock\<close> and then \<^verbatim>\<open>sys_klock\<close>, both succeed, whoever sleeps on the mutex, and both
  tasks hold it.
\<close>

theorem kunlock_by_other:
  assumes "n \<in> holds k t" and "t \<noteq> cur k" and "pc k (cur k) = User" and "0 \<le> n" and "n < NR_MUTEX"
  shows "\<exists>k'. kstep\<^sup>*\<^sup>* k k' \<and> cur k' = cur k \<and> n \<in> holds k' t \<and> n \<in> holds k' (cur k)"
proof -
  let ?c = "cur k"
  define s1 where "s1 = (sch k)\<lparr>mutex_lock := (mutex_lock (sch k))(n := 0)\<rparr>"
  define k1 where "k1 = k\<lparr>sch := s1, pc := (pc k)(?c := In_kunlock n), holds := (holds k)(?c := holds k ?c - {n})\<rparr>"
  have 1: "kstep k k1"
    unfolding k1_def using assms(3-5) by (intro kstep.kunlock_releases) (simp_all add: kunlock_release_def s1_def)
  have k1: "cur k1 = ?c" "n \<in> holds k1 t" "pc k1 ?c = In_kunlock n" "mutex_lock (sch k1) n = 0"
    using assms(1,2) by (simp_all add: k1_def s1_def)
  obtain k2 where k2: "kstep\<^sup>*\<^sup>* k1 k2" "cur k2 = ?c" "holds k2 = holds k1" "pc k2 ?c = User" "mutex_lock (sch k2) n = 0"
  proof (cases "kunlock_head n (sch k1) = NULL")
    case True
    then show thesis
      using that [OF r_into_rtranclp [of kstep, OF kstep.kunlock_finds]] k1 by simp
  next
    case False
    define k3 where "k3 = k1\<lparr>pc := (pc k1)(?c := In_wake n (kunlock_head n (sch k1)))\<rparr>"
    have "kstep k1 k3" using kstep.kunlock_finds [of k1 n] k1(1,3) False by (simp add: k3_def)
    moreover have "kstep k3 (k3\<lparr>sch := kunlock_wake (kunlock_head n (sch k1)) (sch k3), pc := (pc k3)(?c := User)\<rparr>)"
      using kstep.kunlock_wakes [of k3 n "kunlock_head n (sch k1)"] k1(1) by (simp add: k3_def)
    ultimately have "kstep\<^sup>*\<^sup>* k1 (k3\<lparr>sch := kunlock_wake (kunlock_head n (sch k1)) (sch k3), pc := (pc k3)(?c := User)\<rparr>)"
      by (meson converse_rtranclp_into_rtranclp r_into_rtranclp)
    from that [OF this] show thesis using k1 by (simp add: k3_def kunlock_wake_def wake_task_effect)
  qed
  define s2 where "s2 = (sch k2)\<lparr>mutex_lock := (mutex_lock (sch k2))(n := 1)\<rparr>"
  have "kstep k2 (take_lock k2 n s2)"
    using k2(2,4,5) assms(4,5) by (intro kstep.klock_takes) (simp_all add: sys_klock_def klock_loop_eq s2_def)
  then have "kstep\<^sup>*\<^sup>* k (take_lock k2 n s2)" using 1 k2(1) by (meson converse_rtranclp_into_rtranclp rtranclp.rtrancl_into_rtrancl)
  moreover have "cur (take_lock k2 n s2) = ?c" "n \<in> holds (take_lock k2 n s2) t" "n \<in> holds (take_lock k2 n s2) ?c"
    using k2(2,3) k1(2) by (simp_all add: take_lock_def s2_def)
  ultimately show ?thesis by blast
qed

text \<open>
  The wait queue.  The tasks asleep on a kernel mutex are exactly those linked from the head of its
  queue through their local variables \<^verbatim>\<open>tmp\<close>, each once, ending in \<^verbatim>\<open>NULL\<close>.
\<close>

lemma klock_queue:
  assumes "kstart k0" and "kstep\<^sup>*\<^sup>* k0 k"
  shows "\<exists>c. linked (pc k) n c (waitq (sch k) (WQ_mutex n)) \<and> distinct c \<and>
    set c = {t. \<exists>tmp. pc k t = In_klock n tmp}"
  by (rule kinv_queue [OF kreach_inv [OF assms(2,1)]])

text \<open>
  The task that has the processor is always runnable while task 0 is there to run: a task that
  went to sleep does not return from \<^verbatim>\<open>schedule\<close> before it has been woken.
\<close>

lemma klock_runs_runnable:
  assumes "kstart k0" and "kstep\<^sup>*\<^sup>* k0 k"
  shows "task_state (sch k) (cur k) = TASK_RUNNING"
  using kinv_parts(2) [OF kreach_inv [OF assms(2,1)]] unfolding cur_running_def .

section \<open>A run of three tasks\<close>

text \<open>
  Task 0 and two more, in slots 0 to 2.  The first of the two takes mutex 7 and is preempted, the
  second one finds it taken and sleeps, task 0 runs, the first one runs again and releases it.
\<close>

definition trio :: "ptr \<Rightarrow> u32 \<Rightarrow> ptr \<Rightarrow> u32 \<Rightarrow> u32 \<Rightarrow> bool \<Rightarrow> sched" where
  "trio c lock head st tsel ts =
     \<lparr>tasks = (\<lambda>_. INIT_TASK 0x1000 0)(0x3000 := (INIT_TASK 0x1000 0)\<lparr>ts_state := st\<rparr>),
      task = (\<lambda>_. NULL)(0 := 0x1000, 1 := 0x2000, 2 := 0x3000), current = c, init_task = 0x1000,
      last_task_used_math = NULL, jiffies = 0, waitq = (\<lambda>_. NULL)(WQ_mutex 7 := head),
      mutex_lock = (\<lambda>_. 0)(7 := lock), tr = tsel, cr0_ts = ts, sched_log = []\<rparr>"

lemma trio_simps [simp]:
  "current (trio c l h st a b) = c" "init_task (trio c l h st a b) = 0x1000"
  "mutex_lock (trio c l h st a b) = (\<lambda>_. 0)(7 := l)"
  "waitq (trio c l h st a b) = (\<lambda>_. NULL)(WQ_mutex 7 := h)"
  "(trio c l h st a b)\<lparr>mutex_lock := (\<lambda>_. 0)(7 := l')\<rparr> = trio c l' h st a b"
  "(trio c l h st a b)\<lparr>mutex_lock := \<lambda>_. 0\<rparr> = trio c 0 h st a b"
  "push_sleeper 7 (trio 0x3000 l h st a b) = trio 0x3000 l 0x3000 2 a b"
  by (simp_all add: trio_def push_sleeper_def set_state_def set_waitq_def fun_upd_idem)

lemma trio_slot: "current_slot (trio 0x1000 l h st a b) 0" "current_slot (trio 0x2000 l h st a b) 1"
  "current_slot (trio 0x3000 l h st a b) 2"
  by (auto simp: trio_def current_slot_def)

lemma trio_schedule:
  "schedule (trio 0x1000 l h st a b) = Some (Inr (trio 0x2000 l h st 48 True))"
  "schedule (trio 0x2000 l h 0 a b) = Some (Inr (trio 0x3000 l h 0 64 True))"
  "schedule (trio 0x3000 l h 2 a b) = Some (Inr (trio 0x1000 l h 2 32 True))"
  by (simp_all add: schedule_eq [OF trio_slot(1)] schedule_eq [OF trio_slot(2)]
      schedule_eq [OF trio_slot(3)])
    (simp_all add: trio_def round_from_def upt_conv_Cons runnable_def task_state_def INIT_TASK_def
      switch_to_def TSS_sel_def FIRST_TSS_ENTRY_def)

definition kstate :: "sched \<Rightarrow> (ptr \<Rightarrow> kpc) \<Rightarrow> (ptr \<Rightarrow> int set) \<Rightarrow> ksys" where
  "kstate s p h = \<lparr>sch = s, pc = p, holds = h\<rparr>"

definition trio_start :: ksys where
  "trio_start = kstate (trio 0x2000 0 0 0 48 True) (\<lambda>_. User) (\<lambda>_. {})"

definition trio_other :: ksys where
  "trio_other = kstate (trio 0x3000 1 0 0 64 True) (\<lambda>_. User) ((\<lambda>_. {})(0x2000 := {7}))"

definition trio_held :: ksys where
  "trio_held = kstate (trio 0x2000 1 0x3000 2 48 True) ((\<lambda>_. User)(0x3000 := In_klock 7 NULL))
     ((\<lambda>_. {})(0x2000 := {7}))"

definition trio_released :: ksys where
  "trio_released = kstate (trio 0x2000 0 0x3000 2 48 True)
     ((\<lambda>_. User)(0x3000 := In_klock 7 NULL, 0x2000 := In_kunlock 7)) (\<lambda>_. {})"

lemma trio_inj: "task (trio c l h st a b) i \<noteq> NULL \<Longrightarrow>
    task (trio c l h st a b) i = task (trio c l h st a b) j \<Longrightarrow> i = j"
  by (auto simp: trio_def split: if_splits)

lemma trio_tab_wf: "tab_wf (trio 0x2000 l h st a b)"
proof -
  have "\<exists>i < NR_TASKS. task (trio 0x2000 l h st a b) i = 0x2000"
    by (rule exI [of _ 1]) (simp add: trio_def)
  moreover have "\<exists>i < NR_TASKS. task (trio 0x2000 l h st a b) i = 0x1000"
    by (rule exI [of _ 0]) (simp add: trio_def)
  moreover have "task_state (trio 0x2000 l h st a b) 0x1000 = TASK_RUNNING"
    by (simp add: trio_def task_state_def INIT_TASK_def)
  ultimately show ?thesis
    unfolding tab_wf_def trio_simps using trio_inj by (intro conjI allI impI) simp_all
qed

lemma trio_kstart: "kstart trio_start"
proof -
  have "cur_running (trio 0x2000 0 0 0 48 True)"
    by (simp add: cur_running_def task_state_def trio_def INIT_TASK_def)
  then show ?thesis
    using trio_tab_wf by (simp add: kstart_def trio_start_def kstate_def)
qed

lemma owner_rtrancl: "owner_step\<^sup>*\<^sup>* k k' \<Longrightarrow> kstep\<^sup>*\<^sup>* k k'"
  by (induction rule: rtranclp_induct) (auto simp: owner_step_def)

lemma trio_reaches_owner: "owner_step\<^sup>*\<^sup>* trio_start trio_other" "owner_step\<^sup>*\<^sup>* trio_start trio_held"
proof -
  let ?k1 = "kstate (trio 0x2000 1 0 0 48 True) (\<lambda>_. User) ((\<lambda>_. {})(0x2000 := {7}))"
  let ?k3 = "kstate (trio 0x1000 1 0x3000 2 32 True) ((\<lambda>_. User)(0x3000 := In_klock 7 NULL))
     ((\<lambda>_. {})(0x2000 := {7}))"
  have 1: "kstep trio_start ?k1"
    using kstep.klock_takes [of trio_start 7 "trio 0x2000 1 0 0 48 True"]
    by (simp add: trio_start_def kstate_def take_lock_def sys_klock_def NR_MUTEX_def klock_loop_eq
        fun_upd_idem)
  have 2: "kstep ?k1 trio_other"
    using kstep.timer [of ?k1 0 "trio 0x3000 1 0 0 64 True"]
    by (simp add: kstate_def do_timer_def trio_schedule trio_other_def)
  have 3: "kstep trio_other ?k3"
    using kstep.klock_waits [of trio_other 7 0 "trio 0x3000 1 0x3000 2 64 True" "trio 0x1000 1 0x3000 2 32 True"]
    by (simp add: kstate_def sys_klock_def NR_MUTEX_def klock_loop_eq trio_schedule trio_other_def)
  have 4: "kstep ?k3 trio_held"
    using kstep.timer [of ?k3 0 "trio 0x2000 1 0x3000 2 48 True"]
    by (simp add: kstate_def do_timer_def trio_schedule trio_held_def)
  have "releases_held trio_start ?k1" "releases_held ?k1 trio_other" "releases_held trio_other ?k3" "releases_held ?k3 trio_held"
    by (simp_all add: releases_held_def kstate_def trio_start_def trio_other_def trio_held_def)
  then have o: "owner_step trio_start ?k1" "owner_step ?k1 trio_other" "owner_step trio_other ?k3" "owner_step ?k3 trio_held"
    using 1 2 3 4 by (simp_all add: owner_step_def)
  then show "owner_step\<^sup>*\<^sup>* trio_start trio_other" by (meson converse_rtranclp_into_rtranclp rtranclp.rtrancl_refl)
  then show "owner_step\<^sup>*\<^sup>* trio_start trio_held" using o(3,4) by (meson rtranclp.rtrancl_into_rtrancl)
qed

lemmas trio_reaches = owner_rtrancl [OF trio_reaches_owner(2)]

lemma trio_reaches_release: "kstep\<^sup>*\<^sup>* trio_start trio_released"
proof -
  have "kstep trio_held trio_released"
    using kstep.kunlock_releases [of trio_held 7 "trio 0x2000 0 0x3000 2 48 True"]
    by (simp add: trio_held_def trio_released_def kstate_def kunlock_release_def NR_MUTEX_def
        fun_upd_idem)
  with trio_reaches show ?thesis by (rule rtranclp.rtrancl_into_rtrancl)
qed


theorem klock_mutual_exclusion_witness:
  "kstart trio_start \<and> owner_step\<^sup>*\<^sup>* trio_start trio_held \<and>
   \<not> (7 \<in> holds trio_held 0x2000 \<and> 7 \<in> holds trio_held 0x3000) \<and>
   (mutex_lock (sch trio_held) 7 \<noteq> 0 \<longleftrightarrow> (\<exists>t. 7 \<in> holds trio_held t))"
  using klock_mutual_exclusion [OF trio_kstart trio_reaches_owner(2), of 7 "0x2000" "0x3000"]
    trio_kstart trio_reaches_owner(2) by simp

theorem kunlock_by_other_witness:
  "\<exists>k. kstep\<^sup>*\<^sup>* trio_start k \<and> 7 \<in> holds k 0x2000 \<and> 7 \<in> holds k 0x3000"
proof -
  have "\<exists>k'. kstep\<^sup>*\<^sup>* trio_other k' \<and> cur k' = cur trio_other \<and> 7 \<in> holds k' 0x2000 \<and> 7 \<in> holds k' (cur trio_other)"
    by (rule kunlock_by_other) (simp_all add: trio_other_def kstate_def NR_MUTEX_def)
  moreover have "cur trio_other = 0x3000" by (simp add: trio_other_def kstate_def)
  ultimately show ?thesis using owner_rtrancl [OF trio_reaches_owner(1)] by (metis rtranclp_trans)
qed

theorem klock_no_lost_wakeup_witness:
  "kstart trio_start \<and> kstep\<^sup>*\<^sup>* trio_start trio_released \<and>
   mutex_lock (sch trio_released) 7 = 0 \<and> pc trio_released 0x3000 = In_klock 7 NULL \<and>
   ((\<exists>u tmp'. pc trio_released u = In_klock 7 tmp' \<and>
              task_state (sch trio_released) u = TASK_RUNNING) \<or>
    (\<exists>u. pc trio_released u = In_kunlock 7) \<or>
    (\<exists>u h tmp'. pc trio_released u = In_wake 7 h \<and> pc trio_released h = In_klock 7 tmp'))"
proof -
  have "mutex_lock (sch trio_released) 7 = 0" "pc trio_released 0x3000 = In_klock 7 NULL"
    by (simp_all add: trio_released_def kstate_def)
  then show ?thesis
    using klock_no_lost_wakeup [OF trio_kstart trio_reaches_release] trio_kstart trio_reaches_release
    by blast
qed

lemma klock_queue_example:
  "kstart trio_start \<and> kstep\<^sup>*\<^sup>* trio_start trio_held \<and>
   (\<exists>c. linked (pc trio_held) 7 c (waitq (sch trio_held) (WQ_mutex 7)) \<and> distinct c \<and>
        set c = {t. \<exists>tmp. pc trio_held t = In_klock 7 tmp})"
  using klock_queue [OF trio_kstart trio_reaches, of 7] trio_kstart trio_reaches by blast

lemma klock_runs_runnable_example:
  "kstart trio_start \<and> kstep\<^sup>*\<^sup>* trio_start trio_held \<and>
   task_state (sch trio_held) (cur trio_held) = TASK_RUNNING"
  using klock_runs_runnable [OF trio_kstart trio_reaches] trio_kstart trio_reaches by blast

end
