(* ===== verification/Fork.thy ===== *)
theory Fork
  imports Paging Mutex
begin

text \<open>
  Process creation: \<^verbatim>\<open>kernel/fork.c\<close> and the stub \<^verbatim>\<open>sys_fork\<close> of \<^verbatim>\<open>kernel/sys_call.s\<close>.

  The state of the whole kernel puts together the memory, the scheduler, the processor tables, the
  counter \<^verbatim>\<open>last_pid\<close>, the coprocessor registers and the file and inode objects that process
  descriptors point to.  A \<^verbatim>\<open>long\<close> argument of \<^verbatim>\<open>copy_process\<close> is a field of the record of the
  registers on the kernel stack.
\<close>

section \<open>State\<close>

record kernel =
  kmm :: mm
  ksched :: sched
  kcpu :: cpu
  last_pid :: u32
  fpu :: i387_struct
  files :: "ptr \<Rightarrow> file_struct"
  inodes :: "ptr \<Rightarrow> m_inode"

record syscall_frame =
  r_ebp :: u32
  r_edi :: u32
  r_esi :: u32
  r_gs :: u32
  r_none :: u32
  r_ebx :: u32
  r_ecx :: u32
  r_edx :: u32
  r_orig_eax :: u32
  r_fs :: u32
  r_es :: u32
  r_ds :: u32
  r_eip :: u32
  r_cs :: u32
  r_eflags :: u32
  r_esp :: u32
  r_ss :: u32

definition task_at :: "kernel \<Rightarrow> ptr \<Rightarrow> task_struct" where
  "task_at k p = tasks (ksched k) p"

definition set_task :: "ptr \<Rightarrow> task_struct \<Rightarrow> kernel \<Rightarrow> kernel" where
  "set_task p t k = k\<lparr>ksched := (ksched k)\<lparr>tasks := (tasks (ksched k))(p := t)\<rparr>\<rparr>"

abbreviation (input) cur_task :: "kernel \<Rightarrow> ptr" where
  "cur_task k \<equiv> current (ksched k)"

section \<open>\<^verbatim>\<open>find_empty_process\<close>\<close>

text \<open>The increment of \<^verbatim>\<open>last_pid\<close>, a \<^verbatim>\<open>long\<close>, wraps to a negative value and restarts at 1.\<close>

definition next_pid :: "u32 \<Rightarrow> u32" where
  "next_pid l = (if sint (l + 1) < 0 then 1 else l + 1)"

definition pid_used :: "sched \<Rightarrow> u32 \<Rightarrow> bool" where
  "pid_used s l \<longleftrightarrow>
     list_ex (\<lambda>i. task s i \<noteq> NULL \<and>
                  (ts_pid (tasks s (task s i)) = l \<or> ts_pgrp (tasks s (task s i)) = l)) [0..<NR_TASKS]"

partial_function (option) find_pid :: "sched \<Rightarrow> u32 \<Rightarrow> u32 option" where
  "find_pid s l = (let l' = next_pid l in if pid_used s l' then find_pid s l' else Some l')"

function find_slot :: "sched \<Rightarrow> nat \<Rightarrow> nat option" where
  "find_slot s i =
     (if NR_TASKS \<le> i then None else if task s i = NULL then Some i else find_slot s (i + 1))"
  by pat_completeness auto
termination
  by (relation "measure (\<lambda>(s, i). NR_TASKS - i)") auto

declare find_slot.simps [simp del]

definition find_empty_process :: "kernel \<Rightarrow> (u32 \<times> kernel) option" where
  "find_empty_process k =
     (case find_pid (ksched k) (last_pid k) of
        None \<Rightarrow> None
      | Some l \<Rightarrow>
          Some (case find_slot (ksched k) 1 of Some i \<Rightarrow> of_nat i | None \<Rightarrow> - EAGAIN,
                k\<lparr>last_pid := l\<rparr>))"

section \<open>\<^verbatim>\<open>copy_mem\<close>\<close>

text \<open>
  \<^verbatim>\<open>get_limit(0x0f)\<close> and \<^verbatim>\<open>get_limit(0x17)\<close> name entries 1 and 2 of the LDT that is loaded, that of
  the current task.  The value returned by \<^verbatim>\<open>copy_page_tables\<close> is not looked at.
\<close>

definition copy_mem :: "nat \<Rightarrow> ptr \<Rightarrow> kernel \<Rightarrow> (u32 \<times> kernel) kres" where
  "copy_mem nr p k =
     (let cur = task_at k (cur_task k);
          code_limit = get_limit (ts_ldt cur 1);
          data_limit = get_limit (ts_ldt cur 2);
          old_code_base = get_base (ts_ldt cur 1);
          old_data_base = get_base (ts_ldt cur 2)
      in if old_data_base \<noteq> old_code_base then Inl (Panic ''We don't support separate I&D'')
         else if data_limit < code_limit then Inl (Panic ''Bad data_limit'')
         else
           let new_base = of_nat nr * TASK_SIZE;
               t = task_at k p;
               t = t\<lparr>ts_start_code := new_base\<rparr>;
               t = t\<lparr>ts_ldt := (ts_ldt t)(1 := set_base (ts_ldt t 1) new_base)\<rparr>;
               t = t\<lparr>ts_ldt := (ts_ldt t)(2 := set_base (ts_ldt t 2) new_base)\<rparr>;
               k = set_task p t k
           in case copy_page_tables old_data_base new_base data_limit (kmm k) of
                Inl e \<Rightarrow> Inl e
              | Inr (r, m) \<Rightarrow> Inr (0, k\<lparr>kmm := m\<rparr>))"

section \<open>\<^verbatim>\<open>copy_process\<close>\<close>

text \<open>The child's descriptor up to the test of the coprocessor.\<close>

definition child_tss :: "nat \<Rightarrow> ptr \<Rightarrow> syscall_frame \<Rightarrow> tss_struct \<Rightarrow> tss_struct" where
  "child_tss nr p r t =
     t\<lparr>tss_back_link := 0, tss_esp0 := word_of_int PAGE_SIZE + p, tss_ss0 := 0x10,
       tss_eip := r_eip r, tss_eflags := r_eflags r, tss_eax := 0, tss_ecx := r_ecx r,
       tss_edx := r_edx r, tss_ebx := r_ebx r, tss_esp := r_esp r, tss_ebp := r_ebp r,
       tss_esi := r_esi r, tss_edi := r_edi r, tss_es := r_es r AND 0xffff,
       tss_cs := r_cs r AND 0xffff, tss_ss := r_ss r AND 0xffff, tss_ds := r_ds r AND 0xffff,
       tss_fs := r_fs r AND 0xffff, tss_gs := r_gs r AND 0xffff, tss_ldt := LDT_sel (of_nat nr),
       tss_trace_bitmap := 0x80000000\<rparr>"

definition child_task :: "nat \<Rightarrow> ptr \<Rightarrow> u32 \<Rightarrow> u32 \<Rightarrow> syscall_frame \<Rightarrow> task_struct \<Rightarrow> task_struct" where
  "child_task nr p pid jif r t =
     t\<lparr>ts_state := TASK_UNINTERRUPTIBLE, ts_pid := pid, ts_counter := ts_priority t, ts_signal := 0,
       ts_alarm := 0, ts_leader := 0, ts_utime := 0, ts_stime := 0, ts_cutime := 0, ts_cstime := 0,
       ts_start_time := jif, ts_tss := child_tss nr p r (ts_tss t)\<rparr>"

text \<open>\<^verbatim>\<open>clts ; fnsave p->tss.i387 ; frstor p->tss.i387\<close>.\<close>

definition save_fpu :: "ptr \<Rightarrow> kernel \<Rightarrow> kernel" where
  "save_fpu p k =
     (if last_task_used_math (ksched k) = cur_task k
      then
        let t = task_at k p;
            k = set_task p (t\<lparr>ts_tss := (ts_tss t)\<lparr>tss_i387 := fpu k\<rparr>\<rparr>) k
        in k\<lparr>ksched := (ksched k)\<lparr>cr0_ts := False\<rparr>\<rparr>
      else k)"

definition stack_address :: "u32 \<Rightarrow> u32 \<Rightarrow> u32" where
  "stack_address esp new_data_base = c_div (esp + 4095) 4096 * 4096 + new_data_base - 4096"

primrec count_files :: "nat \<Rightarrow> task_struct \<Rightarrow> kernel \<Rightarrow> kernel" where
  "count_files 0 t k = k"
| "count_files (Suc n) t k =
     (let i = NR_OPEN - Suc n;
          f = ts_filp t i
      in count_files n t
           (if f \<noteq> NULL
            then k\<lparr>files := (files k)(f := (files k f)\<lparr>f_count := f_count (files k f) + 1\<rparr>)\<rparr>
            else k))"

definition count_inode :: "ptr \<Rightarrow> kernel \<Rightarrow> kernel" where
  "count_inode i k =
     (if i \<noteq> NULL
      then k\<lparr>inodes := (inodes k)(i := (inodes k i)\<lparr>i_count := i_count (inodes k i) + 1\<rparr>)\<rparr> else k)"

definition set_descs :: "nat \<Rightarrow> ptr \<Rightarrow> kernel \<Rightarrow> kernel" where
  "set_descs nr p k =
     (let c = kcpu k;
          g = set_tss_desc (gdt c) (2 * nr + FIRST_TSS_ENTRY) (p + offsetof_task ''tss'');
          g = set_ldt_desc g (2 * nr + FIRST_LDT_ENTRY) (p + offsetof_task ''ldt'')
      in k\<lparr>kcpu := c\<lparr>gdt := g\<rparr>\<rparr>)"

definition link_child :: "ptr \<Rightarrow> kernel \<Rightarrow> kernel" where
  "link_child p k =
     (let c = cur_task k;
          k = set_task p ((task_at k p)\<lparr>ts_p_pptr := c, ts_p_cptr := NULL, ts_p_ysptr := NULL\<rparr>) k;
          os = ts_p_cptr (task_at k c);
          k = set_task p ((task_at k p)\<lparr>ts_p_osptr := os\<rparr>) k;
          k = (if os \<noteq> NULL then set_task os ((task_at k os)\<lparr>ts_p_ysptr := p\<rparr>) k else k)
      in set_task c ((task_at k c)\<lparr>ts_p_cptr := p\<rparr>) k)"

text \<open>From the allocation of the descriptor to the call of \<^verbatim>\<open>copy_mem\<close>, and from its return to the end.\<close>

definition fork_entry :: "nat \<Rightarrow> ptr \<Rightarrow> syscall_frame \<Rightarrow> kernel \<Rightarrow> kernel" where
  "fork_entry nr p r k =
     (let k = k\<lparr>ksched := (ksched k)\<lparr>task := (task (ksched k))(nr := p)\<rparr>\<rparr>;
          k = set_task p (child_task nr p (last_pid k) (jiffies (ksched k)) r (task_at k (cur_task k))) k
      in save_fpu p k)"

definition fork_finish :: "nat \<Rightarrow> ptr \<Rightarrow> syscall_frame \<Rightarrow> kernel \<Rightarrow> kernel" where
  "fork_finish nr p r k =
     (let new_data_base = get_base (ts_ldt (task_at k p) 2);
          m = kmm k;
          k = k\<lparr>kmm := un_wp_page (lin2phy (stack_address (r_esp r) new_data_base) m) m\<rparr>;
          k = count_files NR_OPEN (task_at k p) k;
          c = task_at k (cur_task k);
          k = count_inode (ts_pwd c) k;
          k = count_inode (ts_root c) k;
          k = count_inode (ts_executable c) k;
          k = count_inode (ts_library c) k;
          k = set_descs nr p k;
          k = link_child p k
      in set_task p ((task_at k p)\<lparr>ts_state := TASK_RUNNING\<rparr>) k)"

definition copy_process :: "nat \<Rightarrow> syscall_frame \<Rightarrow> kernel \<Rightarrow> (u32 \<times> kernel) kres" where
  "copy_process nr r k =
     (let (p, m) = get_free_page (kmm k);
          k = k\<lparr>kmm := m\<rparr>
      in if p = NULL then Inr (- EAGAIN, k)
         else
           case copy_mem nr p (fork_entry nr p r k) of
             Inl e \<Rightarrow> Inl e
           | Inr (err, k) \<Rightarrow>
               if err \<noteq> 0 then Inr (- EAGAIN, k)
               else let k = fork_finish nr p r k in Inr (last_pid k, k))"

definition sys_fork :: "syscall_frame \<Rightarrow> kernel \<Rightarrow> (u32 \<times> kernel) kres option" where
  "sys_fork r k =
     (case find_empty_process k of
        None \<Rightarrow> None
      | Some (nr, k) \<Rightarrow> Some (if sint nr < 0 then Inr (nr, k) else copy_process (unat nr) r k))"


section \<open>Frames of the parts of \<^verbatim>\<open>copy_process\<close>\<close>

lemma set_task_frame [simp, frame]:
  "kmm (set_task p t k) = kmm k" "kcpu (set_task p t k) = kcpu k" "last_pid (set_task p t k) = last_pid k"
  "files (set_task p t k) = files k" "inodes (set_task p t k) = inodes k" "fpu (set_task p t k) = fpu k"
  "task (ksched (set_task p t k)) = task (ksched k)"
  "current (ksched (set_task p t k)) = current (ksched k)"
  "init_task (ksched (set_task p t k)) = init_task (ksched k)"
  "last_task_used_math (ksched (set_task p t k)) = last_task_used_math (ksched k)"
  "task_at (set_task p t k) q = (if q = p then t else task_at k q)"
  by (simp_all add: set_task_def task_at_def)

lemma task_at_frame [simp, frame]:
  "task_at (k\<lparr>kmm := m\<rparr>) p = task_at k p" "task_at (k\<lparr>kcpu := c\<rparr>) p = task_at k p"
  "task_at (k\<lparr>files := f\<rparr>) p = task_at k p" "task_at (k\<lparr>inodes := i\<rparr>) p = task_at k p"
  "task_at (k\<lparr>ksched := s\<rparr>) p = tasks s p"
  by (simp_all add: task_at_def)

lemma count_files_frame [simp, frame]:
  "kmm (count_files n t k) = kmm k" "kcpu (count_files n t k) = kcpu k"
  "last_pid (count_files n t k) = last_pid k" "inodes (count_files n t k) = inodes k"
  "ksched (count_files n t k) = ksched k" "task_at (count_files n t k) p = task_at k p"
  by (induction n arbitrary: k) (simp_all add: Let_def)

lemma count_inode_frame [simp, frame]:
  "kmm (count_inode i k) = kmm k" "kcpu (count_inode i k) = kcpu k"
  "last_pid (count_inode i k) = last_pid k" "files (count_inode i k) = files k"
  "ksched (count_inode i k) = ksched k" "task_at (count_inode i k) p = task_at k p"
  by (simp_all add: count_inode_def)

lemma set_descs_frame [simp, frame]:
  "kmm (set_descs n p k) = kmm k" "last_pid (set_descs n p k) = last_pid k"
  "files (set_descs n p k) = files k" "inodes (set_descs n p k) = inodes k"
  "ksched (set_descs n p k) = ksched k" "task_at (set_descs n p k) q = task_at k q"
  by (simp_all add: set_descs_def Let_def)

lemma link_child_frame [simp, frame]:
  "kmm (link_child p k) = kmm k" "kcpu (link_child p k) = kcpu k" "last_pid (link_child p k) = last_pid k"
  "files (link_child p k) = files k" "inodes (link_child p k) = inodes k"
  "task (ksched (link_child p k)) = task (ksched k)"
  "current (ksched (link_child p k)) = current (ksched k)"
  "init_task (ksched (link_child p k)) = init_task (ksched k)"
  by (simp_all add: link_child_def Let_def)

lemma save_fpu_frame [simp, frame]:
  "kmm (save_fpu p k) = kmm k" "kcpu (save_fpu p k) = kcpu k" "last_pid (save_fpu p k) = last_pid k"
  "files (save_fpu p k) = files k" "inodes (save_fpu p k) = inodes k"
  "task (ksched (save_fpu p k)) = task (ksched k)"
  "current (ksched (save_fpu p k)) = current (ksched k)"
  "init_task (ksched (save_fpu p k)) = init_task (ksched k)"
  "q \<noteq> p \<Longrightarrow> task_at (save_fpu p k) q = task_at k q"
  "task_at (save_fpu p k) p = (task_at k p)\<lparr>ts_tss := (ts_tss (task_at k p))\<lparr>tss_i387 :=
     (if last_task_used_math (ksched k) = current (ksched k) then fpu k
      else tss_i387 (ts_tss (task_at k p)))\<rparr>\<rparr>"
  by (simp_all add: save_fpu_def Let_def task_at_def set_task_def)

lemma link_child_tasks:
  assumes "p \<noteq> current (ksched k)" and "p \<noteq> NULL"
    and "ts_p_cptr (task_at k (current (ksched k))) \<notin> {p, current (ksched k)}"
  shows "task_at (link_child p k) q =
    (let c = current (ksched k); os = ts_p_cptr (task_at k c)
     in if q = p then (task_at k p)\<lparr>ts_p_pptr := c, ts_p_cptr := NULL, ts_p_ysptr := NULL, ts_p_osptr := os\<rparr>
        else if q = c then (task_at k c)\<lparr>ts_p_cptr := p\<rparr>
        else if os \<noteq> NULL \<and> q = os then (task_at k os)\<lparr>ts_p_ysptr := p\<rparr>
        else task_at k q)"
  using assms by (auto simp: link_child_def Let_def)

text \<open>The descriptor of the child as it is when \<^verbatim>\<open>copy_process\<close> returns.\<close>

definition forked_child :: "nat \<Rightarrow> ptr \<Rightarrow> syscall_frame \<Rightarrow> kernel \<Rightarrow> task_struct" where
  "forked_child nr p r k =
     (let c = current (ksched k);
          t = child_task nr p (last_pid k) (jiffies (ksched k)) r (task_at k c);
          base = of_nat nr * TASK_SIZE
      in t\<lparr>ts_state := TASK_RUNNING,
           ts_start_code := base,
           ts_ldt := (ts_ldt t)(1 := set_base (ts_ldt t 1) base, 2 := set_base (ts_ldt t 2) base),
           ts_p_pptr := c, ts_p_cptr := NULL, ts_p_ysptr := NULL, ts_p_osptr := ts_p_cptr (task_at k c),
           ts_tss := (ts_tss t)\<lparr>tss_i387 :=
             (if last_task_used_math (ksched k) = c then fpu k else tss_i387 (ts_tss t))\<rparr>\<rparr>)"


section \<open>A fork that goes through\<close>

text \<open>
  What \<^verbatim>\<open>copy_process\<close> relies on: the parent's descriptor and its youngest child's are not on a free
  page; code and data segments of the parent have one base, a multiple of 4 MB, and at most 4 MB; its
  page table exists and the slot's region has none; two frames are free.
\<close>

definition parent_base :: "kernel \<Rightarrow> u32" where
  "parent_base k = get_base (ts_ldt (task_at k (current (ksched k))) 2)"

definition parent_limit :: "kernel \<Rightarrow> u32" where
  "parent_limit k = get_limit (ts_ldt (task_at k (current (ksched k))) 2)"

definition child_base :: "nat \<Rightarrow> u32" where
  "child_base nr = of_nat nr * TASK_SIZE"

definition segments_ok :: "kernel \<Rightarrow> bool" where
  "segments_ok k \<longleftrightarrow>
     get_base (ts_ldt (task_at k (current (ksched k))) 1) = parent_base k \<and>
     get_limit (ts_ldt (task_at k (current (ksched k))) 1) \<le> parent_limit k \<and>
     parent_base k AND 0x3fffff = 0 \<and> drop_bit 22 (parent_limit k + 0x3fffff) = 1"

definition tables_ok :: "nat \<Rightarrow> kernel \<Rightarrow> bool" where
  "tables_ok nr k \<longleftrightarrow>
     bit (pmem (kmm k) (dir_index (parent_base k))) 0 \<and>
     live (kmm k) (page_of (pmem (kmm k) (dir_index (parent_base k)))) \<and>
     page_of (pmem (kmm k) (dir_index (parent_base k))) \<noteq> 0 \<and>
     \<not> bit (pmem (kmm k) (dir_index (child_base nr))) 0"

definition family_ok :: "kernel \<Rightarrow> bool" where
  "family_ok k \<longleftrightarrow>
     (let c = current (ksched k); os = ts_p_cptr (task_at k c)
      in live (kmm k) (page_of c) \<and> live (kmm k) (page_of os) \<and> os \<noteq> c)"

definition fork_ready :: "nat \<Rightarrow> kernel \<Rightarrow> bool" where
  "fork_ready nr k \<longleftrightarrow>
     segments_ok k \<and> tables_ok nr k \<and> family_ok k \<and>
     has_free_page (kmm k) \<and> has_free_page (snd (get_free_page (kmm k)))"

lemma child_base_aligned: "child_base nr AND 0x3fffff = 0"
proof -
  have "child_base nr = push_bit 26 (of_nat nr)" by (simp add: child_base_def push_bit_eq_mult)
  then show ?thesis unfolding u32_bitwise by (simp add: bit_simps)
qed

lemma live_after_alloc:
  assumes "has_free_page m" and "live m p" and "page_aligned p"
  shows "live (snd (get_free_page m)) p"
  using assms gfp.alloc_refs [OF assms(1,3)] by (auto simp: live_def split: if_splits)

lemma dir_word_after_alloc:
  assumes "has_free_page m"
  shows "pmem (snd (get_free_page m)) (dir_index la) = pmem m (dir_index la)"
proof -
  have "\<not> in_page (fst (get_free_page m)) (dir_index la)"
    using live_word_kept [OF assms] by (simp add: dir_index_page live_def)
  then show ?thesis using gfp.alloc_word [OF assms] by simp
qed

lemma new_page_not_object:
  assumes "has_free_page m" and "live m (page_of a)"
  shows "a \<noteq> fst (get_free_page m)"
  using assms new_page_not_live gfp.alloc_aligned [OF assms(1)] page_of_entry(3) by metis


lemma copy_mem_ok:
  assumes "segments_ok k" and "p \<noteq> current (ksched k)"
    and "copy_page_tables (parent_base k) (child_base nr) (parent_limit k) (kmm k) = Inr (0, m)"
  shows "copy_mem nr p k = Inr (0, (set_task p ((task_at k p)\<lparr>ts_start_code := child_base nr,
      ts_ldt := (ts_ldt (task_at k p))(1 := set_base (ts_ldt (task_at k p) 1) (child_base nr),
                                       2 := set_base (ts_ldt (task_at k p) 2) (child_base nr))\<rparr>) k)
      \<lparr>kmm := m\<rparr>)"
  using assms
  by (simp add: copy_mem_def Let_def segments_ok_def parent_base_def parent_limit_def child_base_def
      not_less del: TASK_SIZE_def)

lemma fork_entry_simps:
  fixes k r nr p
  defines "k1 \<equiv> fork_entry nr p r k"
  shows "kmm k1 = kmm k" "kcpu k1 = kcpu k" "last_pid k1 = last_pid k"
    "files k1 = files k" "inodes k1 = inodes k" "current (ksched k1) = current (ksched k)"
    "init_task (ksched k1) = init_task (ksched k)"
    "task (ksched k1) = (task (ksched k))(nr := p)"
    "q \<noteq> p \<Longrightarrow> task_at k1 q = task_at k q"
    "task_at k1 p =
      (let t = child_task nr p (last_pid k) (jiffies (ksched k)) r (task_at k (current (ksched k)))
       in t\<lparr>ts_tss := (ts_tss t)\<lparr>tss_i387 :=
           (if last_task_used_math (ksched k) = current (ksched k) then fpu k
            else tss_i387 (ts_tss t))\<rparr>\<rparr>)"
  by (simp_all add: k1_def fork_entry_def Let_def) (simp_all add: task_at_def set_task_def)

lemma fork_entry_parent:
  assumes "current (ksched k) \<noteq> p"
  shows "parent_base (fork_entry nr p r k) = parent_base k"
    "parent_limit (fork_entry nr p r k) = parent_limit k"
    "segments_ok (fork_entry nr p r k) = segments_ok k"
  using assms by (simp_all add: parent_base_def parent_limit_def segments_ok_def fork_entry_simps)

lemma fork_entry_tables:
  assumes "fork_ready nr k"
  shows "\<exists>m. copy_page_tables (parent_base k) (child_base nr) (parent_limit k)
      (snd (get_free_page (kmm k))) = Inr (0, m)"
proof -
  let ?m1 = "snd (get_free_page (kmm k))"
  have f: "has_free_page (kmm k)" "has_free_page ?m1" "segments_ok k" "tables_ok nr k"
    using assms by (simp_all add: fork_ready_def)
  note d = dir_word_after_alloc [OF f(1)]
  have "live ?m1 (page_of (pmem (kmm k) (dir_index (parent_base k))))"
    using f(1,4) live_after_alloc by (simp add: tables_ok_def)
  then show ?thesis
    using copy_page_tables_effect [of "parent_base k" "child_base nr" "parent_limit k" ?m1] f
      child_base_aligned d by (auto simp: segments_ok_def tables_ok_def)
qed

lemma fork_finish_simps:
  fixes nr p r k
  defines "k' \<equiv> fork_finish nr p r k" and "c \<equiv> current (ksched k)"
  assumes "p \<noteq> c" and "p \<noteq> NULL" and "ts_p_cptr (task_at k c) \<notin> {p, c}"
  shows "last_pid k' = last_pid k"
    "kmm k' = un_wp_page (lin2phy (stack_address (r_esp r) (get_base (ts_ldt (task_at k p) 2))) (kmm k)) (kmm k)"
    "task (ksched k') = task (ksched k)" "current (ksched k') = c"
    "init_task (ksched k') = init_task (ksched k)"
    "gdt (kcpu k') = gdt (kcpu (set_descs nr p k))" "idt (kcpu k') = idt (kcpu k)"
    "task_at k' q =
      (let os = ts_p_cptr (task_at k c)
       in if q = p then (task_at k p)\<lparr>ts_p_pptr := c, ts_p_cptr := NULL, ts_p_ysptr := NULL,
                          ts_p_osptr := os, ts_state := TASK_RUNNING\<rparr>
          else if q = c then (task_at k c)\<lparr>ts_p_cptr := p\<rparr>
          else if os \<noteq> NULL \<and> q = os then (task_at k os)\<lparr>ts_p_ysptr := p\<rparr>
          else task_at k q)"
  using assms(3-5)
  by (simp_all add: k'_def c_def fork_finish_def Let_def link_child_tasks)
    (simp_all add: set_descs_def Let_def)


definition forked_tasks :: "nat \<Rightarrow> syscall_frame \<Rightarrow> kernel \<Rightarrow> ptr \<Rightarrow> task_struct" where
  "forked_tasks nr r k q =
     (let p = fst (get_free_page (kmm k)); c = current (ksched k); os = ts_p_cptr (task_at k c)
      in if q = p then forked_child nr p r k
         else if q = c then (task_at k c)\<lparr>ts_p_cptr := p\<rparr>
         else if os \<noteq> NULL \<and> q = os then (task_at k os)\<lparr>ts_p_ysptr := p\<rparr>
         else task_at k q)"

lemma copy_process_eq:
  assumes ready: "fork_ready nr k"
    and tables: "copy_page_tables (parent_base k) (child_base nr) (parent_limit k)
      (snd (get_free_page (kmm k))) = Inr (0, m)"
  shows "\<exists>k'. copy_process nr r k = Inr (last_pid k, k') \<and> last_pid k' = last_pid k \<and>
    kmm k' = un_wp_page (lin2phy (stack_address (r_esp r) (child_base nr)) m) m \<and>
    task (ksched k') = (task (ksched k))(nr := fst (get_free_page (kmm k))) \<and>
    current (ksched k') = current (ksched k) \<and> init_task (ksched k') = init_task (ksched k) \<and>
    gdt (kcpu k') = gdt (kcpu (set_descs nr (fst (get_free_page (kmm k))) k)) \<and>
    task_at k' = forked_tasks nr r k"
proof -
  define p where "p = fst (get_free_page (kmm k))"
  define k0 where "k0 = k\<lparr>kmm := snd (get_free_page (kmm k))\<rparr>"
  define k1 where "k1 = fork_entry nr p r k0"
  define t where "t = task_at k1 p"
  define k2 where "k2 = (set_task p (t\<lparr>ts_start_code := child_base nr,
      ts_ldt := (ts_ldt t)(1 := set_base (ts_ldt t 1) (child_base nr),
                           2 := set_base (ts_ldt t 2) (child_base nr))\<rparr>) k1)\<lparr>kmm := m\<rparr>"
  have fam: "family_ok k" "has_free_page (kmm k)" "segments_ok k"
    using ready by (simp_all add: fork_ready_def)
  have k0: "current (ksched k0) = current (ksched k)" "task_at k0 = task_at k" "ksched k0 = ksched k"
    "segments_ok k0 = segments_ok k" "parent_base k0 = parent_base k" "parent_limit k0 = parent_limit k"
    "kcpu k0 = kcpu k" "last_pid k0 = last_pid k" "fpu k0 = fpu k"
    by (simp_all add: k0_def segments_ok_def parent_base_def parent_limit_def fun_eq_iff)
  have ne: "current (ksched k) \<noteq> p" "p \<noteq> NULL"
      "ts_p_cptr (task_at k (current (ksched k))) \<notin> {p, current (ksched k)}"
    using fam(1) new_page_not_object [OF fam(2)] new_page_high [OF fam(2)]
    by (auto simp: family_ok_def Let_def p_def)
  note s1 = fork_entry_simps [where k = k0 and nr = nr and r = r and p = p, folded k1_def, unfolded k0]
  have mem: "copy_mem nr p k1 = Inr (0, k2)"
    unfolding k2_def t_def
    using fork_entry_parent [of k0 p nr r] tables fam(3) s1(1,6) ne(1) k0
    by (intro copy_mem_ok) (auto simp: k1_def k0_def)
  then have cp: "copy_process nr r k = Inr (last_pid k, fork_finish nr p r k2)"
    using ne s1(3) fork_finish_simps(1) [of p k2 nr r] s1(6,9)
    by (simp add: copy_process_def split_beta p_def [symmetric] k0_def [symmetric] k1_def [symmetric]
        k2_def)
  have s2: "current (ksched k2) = current (ksched k)" "task_at k2 (current (ksched k)) =
      task_at k (current (ksched k))" using s1(6,9) ne(1) by (simp_all add: k2_def)
  note f = fork_finish_simps [of p k2 nr r, unfolded s2, OF ne(1)[symmetric] ne(2,3)]
  have "task_at (fork_finish nr p r k2) q = forked_tasks nr r k q" for q
    using f(8) s1(9,10) ne by (simp add: forked_tasks_def forked_child_def Let_def p_def [symmetric] k2_def
        t_def child_base_def [symmetric] del: TASK_SIZE_def)
  then show ?thesis
    using cp f(1-6) s1 k0 by (intro exI [of _ "fork_finish nr p r k2"])
      (simp add: p_def k2_def set_descs_def Let_def fun_eq_iff)
qed

 
section \<open>A fresh process identifier\<close>

definition used_pids :: "sched \<Rightarrow> u32 set" where
  "used_pids s =
     (\<lambda>i. ts_pid (tasks s (task s i))) ` {i. i < NR_TASKS \<and> task s i \<noteq> NULL} \<union>
     (\<lambda>i. ts_pgrp (tasks s (task s i))) ` {i. i < NR_TASKS \<and> task s i \<noteq> NULL}"

lemma pid_used_iff: "pid_used s l \<longleftrightarrow> l \<in> used_pids s"
  by (auto simp: pid_used_def used_pids_def list_ex_iff)

lemma used_pids_card: "finite (used_pids s)" "card (used_pids s) \<le> 128"
proof -
  have f: "finite {i. i < NR_TASKS \<and> task s i \<noteq> NULL}" by simp
  have "card {i. i < NR_TASKS \<and> task s i \<noteq> NULL} \<le> card {..<NR_TASKS}"
    by (rule card_mono) auto
  then have "card {i. i < NR_TASKS \<and> task s i \<noteq> NULL} \<le> 64" by simp
  then have "card ((\<lambda>i. g (tasks s (task s i)) :: u32) ` {i. i < NR_TASKS \<and> task s i \<noteq> NULL}) \<le> 64" for g
    using card_image_le [OF f] le_trans by blast
  then have "card ((\<lambda>i. ts_pid (tasks s (task s i))) ` {i. i < NR_TASKS \<and> task s i \<noteq> NULL}) +
    card ((\<lambda>i. ts_pgrp (tasks s (task s i))) ` {i. i < NR_TASKS \<and> task s i \<noteq> NULL}) \<le> 64 + 64"
    by (intro add_mono)
  then show "card (used_pids s) \<le> 128"
    unfolding used_pids_def using card_Un_le le_trans by fastforce
  show "finite (used_pids s)" by (simp add: used_pids_def)
qed

text \<open>From a positive value the counter runs through all positive values of a \<^verbatim>\<open>long\<close>.\<close>

lemma next_pid_positive:
  assumes "0 < sint l"
  shows "sint (next_pid l) = sint l mod (2 ^ 31 - 1) + 1"
proof -
  have l: "sint l < 2 ^ 31" using sint_lt [of l] by simp
  show ?thesis
  proof (cases "sint l = 2 ^ 31 - 1")
    case True
    then have "l = word_of_int (2 ^ 31 - 1)" by (metis scast_eq scast_id)
    then show ?thesis by (simp add: next_pid_def)
  next
    case False
    then have "sint (l + 1) = sint l + 1"
      using l assms by (simp add: sint_word_ariths signed_take_bit_int_eq_self)
    then show ?thesis using l False assms by (simp add: next_pid_def)
  qed
qed

lemma next_pid_iterate:
  assumes "0 < sint l"
  shows "sint ((next_pid ^^ k) l) = (sint l - 1 + int k) mod (2 ^ 31 - 1) + 1"
proof (induction k)
  case 0
  have "sint l < 2 ^ 31" using sint_lt [of l] by simp
  then show ?case using assms by simp
next
  case (Suc k)
  let ?x = "(sint l - 1 + int k) mod (2 ^ 31 - 1)"
  have "0 < sint ((next_pid ^^ k) l)" unfolding Suc by (simp add: pos_mod_sign add_nonneg_pos)
  then have "sint ((next_pid ^^ Suc k) l) = (?x + 1) mod (2 ^ 31 - 1) + 1"
    using next_pid_positive Suc by simp
  also have "(?x + 1) mod (2 ^ 31 - 1) = (sint l - 1 + int k + 1) mod (2 ^ 31 - 1)"
    by (rule mod_add_left_eq)
  also have "sint l - 1 + int k + 1 = sint l - 1 + int (Suc k)" by simp
  finally show ?case .
qed

lemma fresh_iterate:
  assumes "0 < sint l"
  shows "\<exists>k \<le> 128. (next_pid ^^ k) l \<notin> used_pids s"
proof (rule ccontr)
  assume "\<not> ?thesis"
  then have sub: "(\<lambda>k. (next_pid ^^ k) l) ` {..128} \<subseteq> used_pids s" by auto
  have "inj_on (\<lambda>k. (next_pid ^^ k) l) {..128}"
  proof (rule inj_onI)
    fix j k assume jk: "j \<in> {..128::nat}" "k \<in> {..128}" "(next_pid ^^ j) l = (next_pid ^^ k) l"
    then have "(sint l - 1 + int j) mod (2 ^ 31 - 1) = (sint l - 1 + int k) mod (2 ^ 31 - 1)"
      using next_pid_iterate [OF assms] by (metis add_right_cancel)
    then have "(2 ^ 31 - 1) dvd (sint l - 1 + int j) - (sint l - 1 + int k)"
      by (simp only: mod_eq_dvd_iff)
    then obtain q where "int j - int k = 2147483647 * q" by (auto simp: dvd_def)
    moreover have "\<bar>int j - int k\<bar> \<le> 128" using jk(1,2) by auto
    ultimately have "q = 0" by linarith
    with \<open>int j - int k = 2147483647 * q\<close> show "j = k" by simp
  qed
  then have "card ((\<lambda>k. (next_pid ^^ k) l) ` {..128}) = 129" by (simp add: card_image)
  then show False using card_mono [OF used_pids_card(1) sub] used_pids_card(2) [of s] by simp
qed

lemma find_pid_iterate:
  "(next_pid ^^ Suc k) l \<notin> used_pids s \<Longrightarrow>
     \<exists>j \<le> k. find_pid s l = Some ((next_pid ^^ Suc j) l) \<and> (next_pid ^^ Suc j) l \<notin> used_pids s"
proof (induction k arbitrary: l)
  case 0
  then show ?case by (subst find_pid.simps) (simp add: pid_used_iff)
next
  case (Suc k)
  show ?case
  proof (cases "next_pid l \<in> used_pids s")
    case True
    then have "find_pid s l = find_pid s (next_pid l)"
      by (subst find_pid.simps) (simp add: pid_used_iff)
    moreover have "(next_pid ^^ Suc k) (next_pid l) \<notin> used_pids s"
      using Suc.prems by (simp add: funpow_swap1)
    then obtain j where "j \<le> k" "find_pid s (next_pid l) = Some ((next_pid ^^ Suc j) (next_pid l))"
        "(next_pid ^^ Suc j) (next_pid l) \<notin> used_pids s"
      using Suc.IH by blast
    ultimately show ?thesis
      by (intro exI [of _ "Suc j"]) (simp add: funpow_swap1)
  next
    case False
    then show ?thesis
      by (intro exI [of _ 0], subst find_pid.simps) (simp add: pid_used_iff)
  qed
qed

lemma next_pid_nonneg: "0 \<le> sint (next_pid l)"
  by (simp add: next_pid_def)

lemma next_pid_pos:
  assumes "0 \<le> sint l"
  shows "0 < sint (next_pid l)"
proof -
  have "sint (l + 1) \<noteq> 0"
  proof
    assume "sint (l + 1) = 0"
    then have "l + 1 = 0" by (metis scast_eq scast_id of_int_0)
    then have "l = - 1" by (simp add: add_eq_0_iff2)
    then show False using assms by simp
  qed
  then show ?thesis by (simp add: next_pid_def)
qed

lemma find_pid_total: "\<exists>l'. find_pid s l = Some l' \<and> l' \<notin> used_pids s \<and> 0 \<le> sint l'"
proof -
  let ?l1 = "next_pid (next_pid l)"
  have "0 < sint ?l1" using next_pid_pos [OF next_pid_nonneg] .
  then obtain k where "(next_pid ^^ k) ?l1 \<notin> used_pids s" using fresh_iterate by blast
  then have "(next_pid ^^ Suc (Suc k)) l \<notin> used_pids s" by (simp add: funpow_swap1)
  from find_pid_iterate [OF this] show ?thesis using next_pid_nonneg by (metis funpow.simps(2) o_apply)
qed


lemma find_slot_from:
  "find_slot s i = (if \<exists>j. i \<le> j \<and> j < NR_TASKS \<and> task s j = NULL
     then Some (LEAST j. i \<le> j \<and> j < NR_TASKS \<and> task s j = NULL) else None)"
proof (induction s i rule: find_slot.induct)
  case (1 s i)
  show ?case
  proof (cases "NR_TASKS \<le> i")
    case True
    then show ?thesis by (subst find_slot.simps) auto
  next
    case False
    show ?thesis
    proof (cases "task s i = NULL")
      case True
      then have "(LEAST j. i \<le> j \<and> j < NR_TASKS \<and> task s j = NULL) = i"
        using False by (intro Least_equality) auto
      moreover have "\<exists>j. i \<le> j \<and> j < NR_TASKS \<and> task s j = NULL"
        using True False by (intro exI [of _ i]) simp
      ultimately show ?thesis using True False by (subst find_slot.simps) simp
    next
      case nn: False
      then have E: "i \<le> j \<and> j < NR_TASKS \<and> task s j = NULL \<longleftrightarrow>
          i + 1 \<le> j \<and> j < NR_TASKS \<and> task s j = NULL" for j
        by (metis Suc_eq_plus1 Suc_leD not_less_eq_eq le_antisym)
      have "find_slot s i = find_slot s (i + 1)" using nn False by (subst find_slot.simps) simp
      then show ?thesis using 1 [OF False nn] by (simp only: E)
    qed
  qed
qed

lemma find_empty_process_spec:
  "\<exists>pid. find_empty_process k =
      Some (if \<exists>i. 1 \<le> i \<and> i < NR_TASKS \<and> task (ksched k) i = NULL
            then of_nat (LEAST i. 1 \<le> i \<and> i < NR_TASKS \<and> task (ksched k) i = NULL) else - EAGAIN,
            k\<lparr>last_pid := pid\<rparr>) \<and>
     pid \<notin> used_pids (ksched k) \<and> 0 \<le> sint pid"
  using find_pid_total [of "ksched k" "last_pid k"]
  by (auto simp: find_empty_process_def find_slot_from)

text \<open>
  C18: \<^verbatim>\<open>find_empty_process\<close> always returns, whatever the tasks: the search for an identifier ends,
  with one that is not negative and that no task uses as its process or group identifier; the value
  returned is the first empty slot above slot 0, or \<^verbatim>\<open>-EAGAIN\<close> when there is none; nothing but
  \<^verbatim>\<open>last_pid\<close> changes.
\<close>

theorem find_empty_process_correct:
  "\<exists>pid. find_empty_process k =
      Some (if \<exists>i. 1 \<le> i \<and> i < NR_TASKS \<and> task (ksched k) i = NULL
            then of_nat (LEAST i. 1 \<le> i \<and> i < NR_TASKS \<and> task (ksched k) i = NULL) else - EAGAIN,
            k\<lparr>last_pid := pid\<rparr>) \<and>
     pid \<notin> used_pids (ksched k) \<and> 0 \<le> sint pid"
  by (rule find_empty_process_spec)


section \<open>What a fork produces\<close>

lemma set_descs_gdt:
  "gdt (kcpu (set_descs nr p k)) =
     (gdt (kcpu k))(2 * nr + 4 := set_tssldt_desc (p + 0x3b0) 0x89, 2 * nr + 5 := set_tssldt_desc (p + 0x398) 0x82)"
  by (simp add: set_descs_def Let_def set_tss_desc_def set_ldt_desc_def offsetof_task_tss
      offsetof_task_ldt FIRST_TSS_ENTRY_def FIRST_LDT_ENTRY_def)

lemma forked_tasks_child:
  "forked_tasks nr r k (fst (get_free_page (kmm k))) = forked_child nr (fst (get_free_page (kmm k))) r k"
  by (simp add: forked_tasks_def Let_def)

lemma forked_parent:
  assumes "fork_ready nr k"
  shows "forked_tasks nr r k (current (ksched k)) =
    (task_at k (current (ksched k)))\<lparr>ts_p_cptr := fst (get_free_page (kmm k))\<rparr>"
proof -
  have "current (ksched k) \<noteq> fst (get_free_page (kmm k))"
    using assms new_page_not_object by (auto simp: fork_ready_def family_ok_def Let_def)
  then show ?thesis by (simp add: forked_tasks_def Let_def)
qed

text \<open>
  C17: the child of a fork.  \<^verbatim>\<open>copy_process\<close> succeeds and returns the new identifier; the slot holds a
  descriptor on a page of its own that is runnable, has the new identifier, returns 0 from the call at
  the parent's instruction and stack, has a kernel stack at the top of its page, and has the code and data
  segments of the parent moved to \<open>nr\<close> times 64 MB with the same limits; the two GDT entries
  of the slot point at its TSS and LDT, its TSS names that LDT, and no other entry changes; the
  parent only gets a new youngest child.
\<close>

theorem copy_process_child:
  assumes "fork_ready nr k"
  shows "\<exists>k'. copy_process nr r k = Inr (last_pid k, k') \<and>
    (let p = fst (get_free_page (kmm k)); c = current (ksched k); t = task_at k' p
     in task (ksched k') = (task (ksched k))(nr := p) \<and>
        ts_state t = TASK_RUNNING \<and> ts_pid t = last_pid k \<and> ts_p_pptr t = c \<and>
        ts_p_osptr t = ts_p_cptr (task_at k c) \<and> ts_filp t = ts_filp (task_at k c) \<and>
        tss_eax (ts_tss t) = 0 \<and> tss_eip (ts_tss t) = r_eip r \<and> tss_esp (ts_tss t) = r_esp r \<and>
        tss_esp0 (ts_tss t) = p + 4096 \<and> tss_cr3 (ts_tss t) = tss_cr3 (ts_tss (task_at k c)) \<and>
        tss_ldt (ts_tss t) = LDT_sel (of_nat nr) \<and>
        (\<forall>i \<in> {1, 2}. get_base (ts_ldt t i) = of_nat nr * TASK_SIZE \<and>
           get_limit (ts_ldt t i) = get_limit (ts_ldt (task_at k c) i) \<and>
           desc_access (ts_ldt t i) = desc_access (ts_ldt (task_at k c) i)) \<and>
        get_base (gdt (kcpu k') (2 * nr + FIRST_TSS_ENTRY)) = p + offsetof_task ''tss'' \<and>
        get_base (gdt (kcpu k') (2 * nr + FIRST_LDT_ENTRY)) = p + offsetof_task ''ldt'' \<and>
        desc_access (gdt (kcpu k') (2 * nr + FIRST_TSS_ENTRY)) = 0x89 \<and>
        desc_access (gdt (kcpu k') (2 * nr + FIRST_LDT_ENTRY)) = 0x82 \<and>
        (\<forall>e. e = 2 * nr + FIRST_TSS_ENTRY \<or> e = 2 * nr + FIRST_LDT_ENTRY \<or>
             gdt (kcpu k') e = gdt (kcpu k) e) \<and>
        task_at k' c = (task_at k c)\<lparr>ts_p_cptr := p\<rparr>)"
proof -
  obtain m where "copy_page_tables (parent_base k) (child_base nr) (parent_limit k)
      (snd (get_free_page (kmm k))) = Inr (0, m)"
    using fork_entry_tables [OF assms] by blast
  then obtain k' where k': "copy_process nr r k = Inr (last_pid k, k')"
      "task (ksched k') = (task (ksched k))(nr := fst (get_free_page (kmm k)))"
      "gdt (kcpu k') = gdt (kcpu (set_descs nr (fst (get_free_page (kmm k))) k))"
      "task_at k' = forked_tasks nr r k"
    using copy_process_eq [OF assms] by blast
  from forked_parent [OF assms, of r] show ?thesis
    using k' by (intro exI [of _ k'])
      (simp add: Let_def forked_tasks_child set_descs_gdt forked_child_def child_task_def child_tss_def
        set_tssldt_desc_fields FIRST_TSS_ENTRY_def FIRST_LDT_ENTRY_def offsetof_task_tss
        offsetof_task_ldt add.commute)
qed


text \<open>The kernel when task 0 makes the first call of \<^verbatim>\<open>fork\<close> in \<^verbatim>\<open>init/main.c\<close>.\<close>

definition boot_kernel :: kernel where
  "boot_kernel =
     \<lparr>kmm = boot_mm,
      ksched = fst (sched_init 0 0 (\<lambda>_. 0)
        (\<lparr>tasks = (\<lambda>_. INIT_TASK 0x25000 0), task = (\<lambda>_. 0x25000), current = 0x25000,
          init_task = 0x25000, last_task_used_math = NULL, jiffies = 0, waitq = (\<lambda>_. NULL),
          mutex_lock = (\<lambda>_. 0), tr = 0, cr0_ts = False, sched_log = []\<rparr>,
         \<lparr>gdt = (\<lambda>_. desc_null), idt = (\<lambda>_. desc_null), ldtr = 0, eflags_nt = False, io_out = []\<rparr>)),
      kcpu = snd (sched_init 0 0 (\<lambda>_. 0)
        (\<lparr>tasks = (\<lambda>_. INIT_TASK 0x25000 0), task = (\<lambda>_. 0x25000), current = 0x25000,
          init_task = 0x25000, last_task_used_math = NULL, jiffies = 0, waitq = (\<lambda>_. NULL),
          mutex_lock = (\<lambda>_. 0), tr = 0, cr0_ts = False, sched_log = []\<rparr>,
         \<lparr>gdt = (\<lambda>_. desc_null), idt = (\<lambda>_. desc_null), ldtr = 0, eflags_nt = False, io_out = []\<rparr>)),
      last_pid = 1, fpu = zero_i387, files = (\<lambda>_. undefined), inodes = (\<lambda>_. undefined)\<rparr>"

lemma boot_kernel_simps:
  "kmm boot_kernel = boot_mm" "current (ksched boot_kernel) = 0x25000"
  "init_task (ksched boot_kernel) = 0x25000" "last_pid boot_kernel = 1"
  "task_at boot_kernel q = INIT_TASK 0x25000 0"
  "task (ksched boot_kernel) = (\<lambda>i. if 1 \<le> i \<and> i < 64 then NULL else 0x25000)"
  by (simp_all add: boot_kernel_def task_at_def sched_init_eq cong: if_cong)

lemma boot_parent: "parent_base boot_kernel = 0" "parent_limit boot_kernel = 0xA0000"
  by (simp_all add: parent_base_def parent_limit_def boot_kernel_simps INIT_TASK_def INIT_LDT_segments)

lemma boot_fork_ready: "fork_ready 1 boot_kernel"
proof -
  have d: "dir_index 0 = 0" "dir_index 0x4000000 = 0x40" "page_of 0x1007 = 0x1000"
      "page_of 0x25000 = 0x25000" "page_of 0 = 0"
    by (simp_all add: dir_index_def page_of_def)
  have pm: "pmem boot_mm 0 = 0x1007" "pmem boot_mm 0x40 = 0"
    by (simp_all add: boot_mm_simps boot_pmem_def)
  have "mem_map (snd (get_free_page boot_mm)) 900 = 0 \<or> mem_map (snd (get_free_page boot_mm)) 901 = 0"
    by (auto simp: get_free_page_eq boot_mm_simps)
  then have "has_free_page (snd (get_free_page boot_mm))"
    unfolding has_free_page_def by (elim disjE) (intro exI conjI; simp)+
  then show ?thesis
    using has_free_page_boot
    by (simp add: fork_ready_def segments_ok_def tables_ok_def family_ok_def boot_parent boot_kernel_simps
        child_base_def d pm live_def INIT_TASK_def INIT_LDT_segments [unfolded One_nat_def])
qed

definition boot_frame :: syscall_frame where
  "boot_frame = \<lparr>r_ebp = 0, r_edi = 0, r_esi = 0, r_gs = 0x17, r_none = 0, r_ebx = 0, r_ecx = 0, r_edx = 0,
     r_orig_eax = 2, r_fs = 0x17, r_es = 0x17, r_ds = 0x17, r_eip = 0x6800, r_cs = 0x0f,
     r_eflags = 0x202, r_esp = 0x27000, r_ss = 0x17\<rparr>"

theorem copy_process_child_witness:
  "\<exists>k'. copy_process 1 boot_frame boot_kernel = Inr (1, k') \<and>
     (let t = task_at k' (fst (get_free_page boot_mm))
      in ts_pid t = 1 \<and> ts_state t = TASK_RUNNING \<and> tss_eax (ts_tss t) = 0 \<and>
         tss_eip (ts_tss t) = 0x6800 \<and> get_base (ts_ldt t 1) = 0x4000000 \<and> get_limit (ts_ldt t 1) = 0xA0000)"
  using copy_process_child [OF boot_fork_ready, of boot_frame]
  by (auto simp: boot_kernel_simps boot_frame_def Let_def INIT_TASK_def
      INIT_LDT_segments [unfolded One_nat_def])

section \<open>The process table\<close>

text \<open>
  The invariant of the process table: a used slot \<open>i\<close> has a descriptor of its own, whose segments
  start at \<open>i\<close> times 64 MB and whose TSS and LDT are those of the GDT entries of the slot; no two
  tasks have the same identifier.
\<close>

definition slot_ok :: "kernel \<Rightarrow> nat \<Rightarrow> bool" where
  "slot_ok k i \<longleftrightarrow>
     (let t = task (ksched k) i
      in get_base (ts_ldt (task_at k t) 1) = child_base i \<and> get_base (ts_ldt (task_at k t) 2) = child_base i \<and>
         tss_ldt (ts_tss (task_at k t)) = LDT_sel (of_nat i) \<and>
         get_base (gdt (kcpu k) (2 * i + FIRST_TSS_ENTRY)) = t + offsetof_task ''tss'' \<and>
         get_base (gdt (kcpu k) (2 * i + FIRST_LDT_ENTRY)) = t + offsetof_task ''ldt'')"

definition used_slot :: "kernel \<Rightarrow> nat \<Rightarrow> bool" where
  "used_slot k i \<longleftrightarrow> i < NR_TASKS \<and> task (ksched k) i \<noteq> NULL"

definition procs_ok :: "kernel \<Rightarrow> bool" where
  "procs_ok k \<longleftrightarrow>
     (\<forall>i. used_slot k i \<longrightarrow> slot_ok k i) \<and>
     (\<forall>i j. used_slot k i \<longrightarrow> used_slot k j \<longrightarrow> i \<noteq> j \<longrightarrow>
        task (ksched k) i \<noteq> task (ksched k) j \<and>
        ts_pid (task_at k (task (ksched k) i)) \<noteq> ts_pid (task_at k (task (ksched k) j)))"

lemma forked_tasks_other:
  assumes "q \<noteq> fst (get_free_page (kmm k))"
  shows "ts_ldt (forked_tasks nr r k q) = ts_ldt (task_at k q)"
    "ts_tss (forked_tasks nr r k q) = ts_tss (task_at k q)"
    "ts_pid (forked_tasks nr r k q) = ts_pid (task_at k q)"
  using assms by (simp_all add: forked_tasks_def Let_def)

lemma forked_slot_ok:
  assumes k': "task (ksched k') = (task (ksched k))(nr := fst (get_free_page (kmm k)))"
      "gdt (kcpu k') = gdt (kcpu (set_descs nr (fst (get_free_page (kmm k))) k))"
      "task_at k' = forked_tasks nr r k"
    and fresh: "i \<noteq> nr \<Longrightarrow> task (ksched k) i \<noteq> fst (get_free_page (kmm k))"
    and old: "i \<noteq> nr \<Longrightarrow> slot_ok k i"
  shows "slot_ok k' i"
proof (cases "i = nr")
  case True
  then show ?thesis
    by (simp add: slot_ok_def Let_def k' forked_tasks_child set_descs_gdt forked_child_def child_task_def
        child_tss_def child_base_def set_tssldt_desc_fields FIRST_TSS_ENTRY_def FIRST_LDT_ENTRY_def
        offsetof_task_tss offsetof_task_ldt)
next
  case False
  then have "2 * i + 4 \<noteq> 2 * nr + 4" "2 * i + 4 \<noteq> 2 * nr + 5" "2 * i + 5 \<noteq> 2 * nr + 4" "2 * i + 5 \<noteq> 2 * nr + 5"
    by presburger+
  then show ?thesis
    using False old [OF False] fresh [OF False]
    by (simp add: slot_ok_def Let_def k' forked_tasks_other set_descs_gdt FIRST_TSS_ENTRY_def
        FIRST_LDT_ENTRY_def)
qed


lemma found_slot:
  assumes "find_empty_process k = Some (nr, k1)" and "0 \<le> sint nr"
  shows "unat nr < NR_TASKS" "task (ksched k) (unat nr) = NULL" "k1 = k\<lparr>last_pid := last_pid k1\<rparr>"
    "last_pid k1 \<notin> used_pids (ksched k)"
proof -
  let ?P = "\<lambda>i. 1 \<le> i \<and> i < NR_TASKS \<and> task (ksched k) i = NULL"
  obtain pid where e: "find_empty_process k =
      Some (if \<exists>i. ?P i then of_nat (LEAST i. ?P i) else - EAGAIN, k\<lparr>last_pid := pid\<rparr>)"
      "pid \<notin> used_pids (ksched k)"
    using find_empty_process_spec [of k] by (elim exE conjE)
  have "Some (nr, k1) = Some (if \<exists>i. ?P i then of_nat (LEAST i. ?P i) else - EAGAIN, k\<lparr>last_pid := pid\<rparr>)"
    using assms(1) e(1) by (rule trans [OF sym])
  note pid = conjunct1 [OF this [unfolded option.inject prod.inject]]
    conjunct2 [OF this [unfolded option.inject prod.inject]]
  have ex: "\<exists>i. ?P i"
  proof (rule ccontr)
    assume "\<not> (\<exists>i. ?P i)"
    then have "nr = - EAGAIN" using pid(1) by (simp only: if_False)
    then show False using assms(2) by simp
  qed
  then have "?P (LEAST i. ?P i)" by (rule LeastI_ex)
  moreover have "nr = of_nat (LEAST i. ?P i)" using ex pid(1) by (simp only: if_True)
  ultimately have "?P (unat nr)" by (simp add: unat_of_nat)
  then show "unat nr < NR_TASKS" "task (ksched k) (unat nr) = NULL" by simp_all
  show "k1 = k\<lparr>last_pid := last_pid k1\<rparr>" "last_pid k1 \<notin> used_pids (ksched k)" using pid(2) e(2) by simp_all
qed

lemma used_pidsD: "used_slot k i \<Longrightarrow> l \<notin> used_pids (ksched k) \<Longrightarrow>
    ts_pid (task_at k (task (ksched k) i)) \<noteq> l"
  by (auto simp: used_slot_def used_pids_def task_at_def)

lemma forked_procs_ok:
  assumes ok: "procs_ok k" and pid: "last_pid k \<notin> used_pids (ksched k)"
    and k': "task (ksched k') = (task (ksched k))(nr := fst (get_free_page (kmm k)))"
      "gdt (kcpu k') = gdt (kcpu (set_descs nr (fst (get_free_page (kmm k))) k))"
      "task_at k' = forked_tasks nr r k"
    and fresh: "\<And>i. used_slot k i \<Longrightarrow> task (ksched k) i \<noteq> fst (get_free_page (kmm k))"
    and free: "task (ksched k) nr = NULL"
  shows "procs_ok k'"
proof -
  let ?p = "fst (get_free_page (kmm k))"
  have u: "used_slot k' i \<Longrightarrow> i \<noteq> nr \<Longrightarrow> used_slot k i" for i by (simp add: used_slot_def k')
  have new: "ts_pid (task_at k' ?p) = last_pid k"
    by (simp add: k' forked_tasks_child forked_child_def child_task_def Let_def)
  have old: "ts_pid (task_at k' (task (ksched k) i)) = ts_pid (task_at k (task (ksched k) i))"
    if "used_slot k i" for i
    using fresh [OF that] by (simp add: k'(3) forked_tasks_other)
  have "slot_ok k' i" if "used_slot k' i" for i
    using fresh [OF u [OF that]] ok u [OF that] by (intro forked_slot_ok [OF k']) (auto simp: procs_ok_def)
  moreover have "task (ksched k') i \<noteq> task (ksched k') j \<and>
      ts_pid (task_at k' (task (ksched k') i)) \<noteq> ts_pid (task_at k' (task (ksched k') j))"
    if "used_slot k' i" "used_slot k' j" "i \<noteq> j" for i j
  proof -
    consider "i = nr" "j \<noteq> nr" | "i \<noteq> nr" "j = nr" | "i \<noteq> nr" "j \<noteq> nr" using \<open>i \<noteq> j\<close> by blast
    then show ?thesis
    proof cases
      case 1
      then show ?thesis
        using u [OF that(2)] fresh old new used_pidsD [OF _ pid, of j] by (metis fun_upd_apply k'(1))
    next
      case 2
      then show ?thesis
        using u [OF that(1)] fresh old new used_pidsD [OF _ pid, of i] by (metis fun_upd_apply k'(1))
    next
      case 3
      then show ?thesis
        using u [OF that(1)] u [OF that(2)] old ok that(3) unfolding procs_ok_def k'(1)
        by (metis fun_upd_apply)
    qed
  qed
  ultimately show ?thesis by (simp add: procs_ok_def)
qed

text \<open>
  \<^verbatim>\<open>sys_fork\<close> keeps the process table.  From a table that satisfies the invariant, with the
  descriptors on pages in use and the conditions of \<^verbatim>\<open>copy_process\<close>, the call returns the identifier of the
  child, which no task had, and the new table satisfies the invariant again: in particular the segments of different
  tasks start at different multiples of 64 MB and identifiers stay unique.
\<close>

lemma sys_fork_keeps_table:
  assumes ok: "procs_ok k"
    and find: "find_empty_process k = Some (nr, k1)" "0 \<le> sint nr"
    and ready: "fork_ready (unat nr) k1"
    and used: "\<forall>i. used_slot k i \<longrightarrow> live (kmm k) (page_of (task (ksched k) i))"
  shows "\<exists>k'. sys_fork r k = Some (Inr (last_pid k1, k')) \<and> procs_ok k' \<and> used_slot k' (unat nr) \<and>
    \<not> used_slot k (unat nr) \<and>
    (\<forall>i. used_slot k i \<longrightarrow> ts_pid (task_at k (task (ksched k) i)) \<noteq> last_pid k1)"
proof -
  let ?n = "unat nr" and ?p = "fst (get_free_page (kmm k1))"
  note f = found_slot [OF find]
  have same: "kmm k1 = kmm k" "ksched k1 = ksched k" "kcpu k1 = kcpu k" "task_at k1 = task_at k"
    by (subst f(3), simp add: task_at_def fun_eq_iff)+
  have ok1: "procs_ok k1" using ok by (simp add: procs_ok_def slot_ok_def used_slot_def same)
  obtain k' where k': "copy_process ?n r k1 = Inr (last_pid k1, k')"
      "task (ksched k') = (task (ksched k1))(?n := ?p)"
      "gdt (kcpu k') = gdt (kcpu (set_descs ?n ?p k1))" "task_at k' = forked_tasks ?n r k1"
    using fork_entry_tables [OF ready] copy_process_eq [OF ready] by blast
  have free: "has_free_page (kmm k1)" using ready by (simp add: fork_ready_def)
  have fresh: "task (ksched k1) i \<noteq> ?p" if "used_slot k1 i" for i
    using new_page_not_object [OF free] used that by (simp add: same used_slot_def)
  have "procs_ok k'"
    using forked_procs_ok [OF ok1 _ k'(2-4) fresh] f(2,4) by (simp add: same)
  moreover have "used_slot k' ?n"
    using k'(2) f(1) new_page_high [OF free] by (auto simp: used_slot_def)
  moreover have "sys_fork r k = Some (Inr (last_pid k1, k'))"
    using find k'(1) by (simp add: sys_fork_def)
  ultimately show ?thesis
    using f(2) used_pidsD [OF _ f(4)] by (auto simp: used_slot_def)
qed


lemma boot_used_slot: "used_slot (boot_kernel\<lparr>last_pid := l\<rparr>) i \<longleftrightarrow> i = 0"
  by (auto simp: used_slot_def boot_kernel_simps)

lemma boot_procs_ok: "procs_ok (boot_kernel\<lparr>last_pid := l\<rparr>)"
proof -
  have "gdt (kcpu boot_kernel) 4 = set_tssldt_desc 0x253b0 0x89"
    "gdt (kcpu boot_kernel) 5 = set_tssldt_desc 0x25398 0x82"
    by (simp_all add: boot_kernel_def sched_init_eq)
  then have "slot_ok (boot_kernel\<lparr>last_pid := l\<rparr>) 0"
    by (simp add: slot_ok_def boot_kernel_simps [unfolded task_at_def] task_at_def Let_def child_base_def
        INIT_TASK_def INIT_TSS_def INIT_LDT_segments [unfolded One_nat_def] set_tssldt_desc_fields
        offsetof_task_tss offsetof_task_ldt FIRST_TSS_ENTRY_def FIRST_LDT_ENTRY_def)
  then show ?thesis by (simp add: procs_ok_def boot_used_slot)
qed

lemma boot_find_empty: "find_empty_process (boot_kernel\<lparr>last_pid := 0\<rparr>) = Some (1, boot_kernel)"
proof -
  have used: "used_pids (ksched boot_kernel) = {0}"
  proof -
    have "{i. i < NR_TASKS \<and> task (ksched boot_kernel) i \<noteq> NULL} = {0}"
      by (auto simp: boot_kernel_simps)
    then show ?thesis
      using boot_kernel_simps(5) by (simp add: used_pids_def task_at_def [symmetric] INIT_TASK_def)
  qed
  have "find_pid (ksched boot_kernel) 0 = Some 1"
    by (subst find_pid.simps) (simp add: pid_used_iff used next_pid_def)
  moreover have "find_slot (ksched boot_kernel) 1 = Some 1"
    by (subst find_slot.simps) (simp add: boot_kernel_simps)
  moreover have "boot_kernel\<lparr>last_pid := 1\<rparr> = boot_kernel"
    by (simp add: boot_kernel_def)
  ultimately show ?thesis by (simp add: find_empty_process_def)
qed

lemma sys_fork_keeps_table_example:
  "procs_ok (boot_kernel\<lparr>last_pid := 0\<rparr>) \<and> fork_ready 1 boot_kernel \<and>
   (\<exists>k'. sys_fork boot_frame (boot_kernel\<lparr>last_pid := 0\<rparr>) = Some (Inr (1, k')) \<and> procs_ok k' \<and>
         used_slot k' 1)"
proof -
  have "\<forall>i. used_slot (boot_kernel\<lparr>last_pid := 0\<rparr>) i \<longrightarrow>
      live (kmm (boot_kernel\<lparr>last_pid := 0\<rparr>)) (page_of (task (ksched (boot_kernel\<lparr>last_pid := 0\<rparr>)) i))"
    by (simp add: boot_used_slot boot_kernel_simps page_of_def live_def)
  then show ?thesis
    using sys_fork_keeps_table [OF boot_procs_ok boot_find_empty _ _, of boot_frame] boot_fork_ready
      boot_procs_ok by (auto simp: boot_kernel_simps)
qed

section \<open>The child's memory\<close>

text \<open>The page below the stack pointer, relative to the base of the data segment.\<close>

definition stack_page :: "u32 \<Rightarrow> u32" where
  "stack_page esp = (esp - 1) AND 0xfffff000"

lemma stack_address_eq:
  assumes "0 < esp" and "esp \<le> 0x400000"
  shows "stack_address esp base = base + stack_page esp" "stack_page esp < 0x400000"
proof -
  have e: "0 < uint esp" "uint esp \<le> 0x400000"
    using assms by (simp_all add: word_less_def word_le_def)
  have u1: "uint (esp - 1) = uint esp - 1" using assms(1) e by (simp add: uint_minus word_le_def)
  have page: "(esp - 1) AND 0xfffff000 = word_of_int ((uint esp - 1) div 4096 * 4096)"
  proof -
    have "(esp - 1) AND 0xfffff000 = push_bit 12 (drop_bit 12 (esp - 1))"
      unfolding u32_bitwise by (simp add: bit_simps)
    also have "\<dots> = (esp - 1) div 4096 * 4096" by (simp add: push_bit_eq_mult drop_bit_eq_div)
    also have "\<dots> = word_of_int (uint ((esp - 1) div 4096) * 4096)" by simp
    also have "uint ((esp - 1) div 4096) = (uint esp - 1) div 4096" by (simp add: uint_div u1)
    finally show ?thesis .
  qed
  have X: "0 \<le> (uint esp - 1) div 4096 * 4096" "(uint esp - 1) div 4096 * 4096 < 0x400000"
    using e by (auto simp: pos_imp_zdiv_nonneg_iff)
  have "uint (stack_page esp) = (uint esp - 1) div 4096 * 4096"
    unfolding stack_page_def page uint_word_of_int using X by (intro mod_pos_pos_trivial) simp_all
  then show "stack_page esp < 0x400000" using X by (simp add: word_less_def)
  have "uint (esp + 4095) = uint esp + 4095" using e by (simp add: uint_word_ariths)
  then have s: "sint (esp + 4095) = uint esp + 4095" using e by (simp add: sint_small)
  have "c_div (esp + 4095) 4096 = word_of_int ((uint esp + 4095) div 4096)"
    using e by (simp add: c_div_def s)
  moreover have "(uint esp - 1 + 4096) div 4096 = (uint esp - 1) div 4096 + 1"
    by (rule div_add_self2) simp
  ultimately show "stack_address esp base = base + stack_page esp"
    by (simp add: stack_address_def stack_page_def page algebra_simps)
qed

lemma region_pte_kept:
  assumes "has_free_page m" and "live m (page_of (pmem m (dir_index la)))"
  shows "pte_of la (snd (get_free_page m)) = pte_of la m"
proof -
  let ?T = "page_of (pmem m (dir_index la))"
  have "in_page ?T (?T + 4 * of_nat (table_index la))"
    using page_offset_bits [OF page_of_aligned table_index_less] .
  then have "\<not> in_page (fst (get_free_page m)) (?T + 4 * of_nat (table_index la))"
    using new_page_not_live [OF assms] in_page_unique by metis
  then show ?thesis
    unfolding pte_of_pte_at pte_at_def dir_word_after_alloc [OF assms(1)]
    using gfp.alloc_word [OF assms(1)] by simp
qed

lemma lin2phy_index: "lin2phy la s = page_of (pmem s (dir_index la)) + 4 * of_nat (table_index la)"
  by (simp add: lin2phy_eq dir_index_def table_index_def)

lemma region_lin2phy_neq:
  assumes "base AND 0x3fffff = 0" and "x < 0x400000" and "y < 0x400000"
    and "drop_bit 12 x \<noteq> drop_bit 12 y"
  shows "lin2phy (base + x) s \<noteq> lin2phy (base + y) s"
proof -
  have "table_index (base + x) \<noteq> table_index (base + y)"
    using region_index(2) [OF assms(1,2)] region_index(2) [OF assms(1,3)] assms(4)
    by (auto dest: unsigned_word_eqI)
  then show ?thesis
    unfolding lin2phy_index region_index(1) [OF assms(1,2)] region_index(1) [OF assms(1,3)]
    using word_offset_inject [OF table_index_less table_index_less] by simp
qed

lemma fork_tables_shared:
  assumes ready: "fork_ready nr k"
    and tables: "copy_page_tables (parent_base k) (child_base nr) (parent_limit k)
      (snd (get_free_page (kmm k))) = Inr (0, m)"
    and off: "off < 0x400000" "parent_base k \<noteq> 0 \<or> off < 0xA0000"
  shows "pte_of (child_base nr + off) m = ro (pte_of (parent_base k + off) (kmm k))"
proof -
  let ?m1 = "snd (get_free_page (kmm k))"
  have f: "has_free_page (kmm k)" "has_free_page ?m1" "segments_ok k" "tables_ok nr k"
    using ready by (simp_all add: fork_ready_def)
  note d = dir_word_after_alloc [OF f(1)]
  have l: "live ?m1 (page_of (pmem (kmm k) (dir_index (parent_base k))))"
    using f(1,4) live_after_alloc by (simp add: tables_ok_def)
  have "if parent_base k = 0 \<and> 0xA0000 \<le> off then True
      else pte_of (child_base nr + off) m = ro (pte_of (parent_base k + off) ?m1)"
    using copy_page_tables_regions [of "parent_base k" "child_base nr" "parent_limit k" ?m1] f l
      child_base_aligned d off(1) tables
    by (auto simp: segments_ok_def tables_ok_def split: if_splits)
  then have "pte_of (child_base nr + off) m = ro (pte_of (parent_base k + off) ?m1)"
    using off(2) by (simp add: not_le [symmetric] split: if_splits)
  moreover have "pte_of (parent_base k + off) ?m1 = pte_of (parent_base k + off) (kmm k)"
    using region_pte_kept [OF f(1)] f(3,4) region_index(1) [OF _ off(1)]
    by (simp add: segments_ok_def tables_ok_def)
  ultimately show ?thesis by simp
qed

text \<open>
  The child's memory after a fork.  Its stack page is a writable copy of the parent's on a frame of
  its own, and every other page of its region is the parent's page, read-only.
\<close>

lemma fork_memory:
  assumes ready: "fork_ready nr k"
    and tables: "copy_page_tables (parent_base k) (child_base nr) (parent_limit k)
      (snd (get_free_page (kmm k))) = Inr (0, m)"
    and esp: "0 < r_esp r" "r_esp r \<le> 0x400000" "parent_base k \<noteq> 0 \<or> r_esp r \<le> 0xA0000"
    and mem: "has_free_page m" "page_of (pmem m (dir_index (child_base nr))) \<noteq> 0"
      "live m (page_of (pmem m (dir_index (child_base nr))))"
    and old: "live m (page_of (pte_of (parent_base k + stack_page (r_esp r)) (kmm k)))"
      "\<not> (LOW_MEM \<le> page_of (pte_of (parent_base k + stack_page (r_esp r)) (kmm k)) \<and>
          page_refs m (page_of (pte_of (parent_base k + stack_page (r_esp r)) (kmm k))) = 1)"
  shows "\<exists>k' new. copy_process nr r k = Inr (last_pid k, k') \<and>
    page_refs m new = 0 \<and> page_refs (kmm k') new = 1 \<and>
    pte_of (child_base nr + stack_page (r_esp r)) (kmm k') = new OR 7 \<and>
    (\<forall>j < 1024. pmem (kmm k') (new + 4 * of_nat j) =
       pmem m (page_of (pte_of (parent_base k + stack_page (r_esp r)) (kmm k)) + 4 * of_nat j)) \<and>
    (\<forall>off < 0x400000. (parent_base k \<noteq> 0 \<or> off < 0xA0000) \<and>
        drop_bit 12 off \<noteq> drop_bit 12 (stack_page (r_esp r)) \<longrightarrow>
       pte_of (child_base nr + off) (kmm k') = ro (pte_of (parent_base k + off) (kmm k)))"
proof -
  let ?sp = "stack_page (r_esp r)" and ?b = "child_base nr" 
  note sa = stack_address_eq [OF esp(1,2)]
  have ro_page: "page_of (ro e) = page_of e" for e
    unfolding page_of_def ro_def u32_bitwise by (simp add: bit_simps)
  have "?sp \<le> r_esp r - 1" by (simp add: stack_page_def word_and_le2)
  also have "r_esp r - 1 < r_esp r" using uint_minus [of 1 "r_esp r"] esp(1)
    by (simp add: word_less_def word_le_def)
  finally have low: "parent_base k \<noteq> 0 \<or> ?sp < 0xA0000" using esp(3) by auto
  have pte: "page_of (pte_of (?b + ?sp) m) = page_of (pte_of (parent_base k + ?sp) (kmm k))"
    using fork_tables_shared [OF ready tables sa(2) low] ro_page by simp
  note dir = region_index(1) [OF child_base_aligned]
  obtain k' where k': "copy_process nr r k = Inr (last_pid k, k')"
      "kmm k' = do_wp_page 0 (?b + ?sp) m"
    using copy_process_eq [OF ready tables, of r] unfolding do_wp_page_lin2phy sa(1) by blast
  obtain new where new: "page_refs m new = 0" "page_refs (kmm k') new = 1" "pte_of (?b + ?sp) (kmm k') = new OR 7"
      "\<forall>j < 1024. pmem (kmm k') (new + 4 * of_nat j) =
         pmem m (page_of (pte_of (parent_base k + ?sp) (kmm k)) + 4 * of_nat j)"
      "\<forall>la. lin2phy la m \<noteq> lin2phy (?b + ?sp) m \<longrightarrow> live m (page_of (lin2phy la m)) \<longrightarrow>
         pte_of la (kmm k') = pte_of la m"
    using do_wp_page_copies [of m "?b + ?sp" 0] mem old unfolding dir [OF sa(2)] pte k'(2) by blast
  have "pte_of (?b + off) (kmm k') = ro (pte_of (parent_base k + off) (kmm k))"
    if "off < 0x400000" "parent_base k \<noteq> 0 \<or> off < 0xA0000" "drop_bit 12 off \<noteq> drop_bit 12 ?sp" for off
    using new(5) region_lin2phy_neq [OF child_base_aligned that(1) sa(2) that(3)] mem(3)
      fork_tables_shared [OF ready tables that(1,2)] by (simp add: lin2phy_page dir [OF that(1)])
  with k'(1) new(1-4) show ?thesis by (intro exI [of _ k'] exI [of _ new]) simp
qed

lemma boot_not_shared: "k < 0xA0 \<Longrightarrow> \<not> shared (pte_at (snd (get_free_page boot_mm)) 0x1000 k)"
proof -
  assume k: "k < 0xA0"
  have u: "unat (4 * of_nat k :: u32) = 4 * k" using k by (simp add: unat_word_ariths unat_of_nat)
  have "\<not> in_page (fst (get_free_page boot_mm)) (0x1000 + 4 * of_nat k)"
  proof -
    have "in_page 0x1000 (0x1000 + 4 * of_nat k)"
      using page_offset_bits [of "0x1000" k] k by (simp add: page_aligned_def)
    moreover have "0x1000 \<noteq> fst (get_free_page boot_mm)"
      using new_page_high [OF has_free_page_boot] by auto
    ultimately show ?thesis using in_page_unique by metis
  qed
  then have "pte_at (snd (get_free_page boot_mm)) 0x1000 k = boot_pmem (0x1000 + 4 * of_nat k)"
    using gfp.alloc_word [OF has_free_page_boot] by (simp add: pte_at_def boot_mm_simps)
  also have "\<dots> = 0x1000 * of_nat k + 7"
    using k u by (simp add: boot_pmem_def word_less_nat_alt word_le_nat_alt unat_word_ariths unat_of_nat)
  also have "\<dots> = of_nat (4096 * k + 7)" by simp
  finally have e: "pte_at (snd (get_free_page boot_mm)) 0x1000 k = of_nat (4096 * k + 7)" .
  have "ro (of_nat (4096 * k + 7)) \<le> (of_nat (4096 * k + 7) :: u32)" by (simp add: ro_def word_and_le2)
  also have "(of_nat (4096 * k + 7) :: u32) \<le> 0x100000"
    using k by (simp add: word_le_nat_alt unat_of_nat del: of_nat_add of_nat_mult)
  finally show ?thesis unfolding e by (simp add: shared_def not_less)
qed

lemma boot_tables:
  "\<exists>m. copy_page_tables 0 0x4000000 0xA0000 (snd (get_free_page boot_mm)) = Inr (0, m) \<and>
     has_free_page m \<and> page_of (pmem m 0x40) \<noteq> 0 \<and> live m (page_of (pmem m 0x40))"
proof -
  let ?m1 = "snd (get_free_page boot_mm)"
  have f1: "has_free_page ?m1" using boot_fork_ready by (simp add: fork_ready_def boot_kernel_simps)
  have d: "dir_index 0 = 0" "dir_index 0x4000000 = 0x40" "page_of 0x1007 = 0x1000"
    by (simp_all add: dir_index_def page_of_def)
  have pm: "pmem ?m1 0 = 0x1007" "pmem ?m1 0x40 = 0"
    using dir_word_after_alloc [OF has_free_page_boot, of 0]
      dir_word_after_alloc [OF has_free_page_boot, of "0x4000000"]
    by (simp_all add: d boot_mm_simps boot_pmem_def)
  have cnt: "frame_count ?m1 0x1000 [0..<0xA0] i = 0" for i
    unfolding frame_count_def using boot_not_shared by (simp add: filter_empty_conv)
  obtain m where m: "copy_page_tables 0 0x4000000 0xA0000 ?m1 = Inr (0, m)"
      "pmem m 0x40 = fst (get_free_page ?m1) OR 7"
      "\<forall>i. mem_map m i = ((mem_map ?m1)(last_free ?m1 := 1)) i"
    using copy_page_tables_effect [of 0 "0x4000000" "0xA0000" ?m1] f1 cnt
    by (auto simp: d pm live_def)
  have tt: "page_of (pmem m 0x40) = fst (get_free_page ?m1)"
    unfolding m(2) using page_of_entry(1) gfp.alloc_aligned [OF f1] by blast
  have "page_refs m (fst (get_free_page ?m1)) = 1"
    using m(3) MAP_NR_last_free [OF f1] by (simp add: page_refs_def get_free_page_eq [of ?m1])
  moreover have "mem_map m 900 = 0 \<or> mem_map m 901 = 0 \<or> mem_map m 902 = 0"
    by (simp add: m(3) get_free_page_eq boot_mm_simps)
  then have "has_free_page m"
    unfolding has_free_page_def by (elim disjE) (intro exI conjI; simp)+
  ultimately show ?thesis
    using m(1) tt new_page_high [OF f1] by (intro exI [of _ m]) (auto simp: live_def)
qed

lemma fork_memory_example:
  "\<exists>m k' new. copy_process 1 boot_frame boot_kernel = Inr (1, k') \<and> page_refs m new = 0 \<and>
     page_refs (kmm k') new = 1 \<and> pte_of 0x4026000 (kmm k') = new OR 7 \<and>
     pte_of 0x4005000 (kmm k') = 0x5005"
proof -
  obtain m where m: "copy_page_tables 0 0x4000000 0xA0000 (snd (get_free_page boot_mm)) = Inr (0, m)"
      "has_free_page m" "page_of (pmem m 0x40) \<noteq> 0" "live m (page_of (pmem m 0x40))"
    using boot_tables by blast
  have sp: "stack_page 0x27000 = 0x26000" "child_base 1 = 0x4000000"
      "dir_index 0x4000000 = 0x40" "r_esp boot_frame = 0x27000"
    by (simp_all add: stack_page_def boot_frame_def child_base_def dir_index_def)
  have pte: "pte_of 0x26000 boot_mm = 0x26007" "page_of 0x26007 = 0x26000" "pte_of 0x5000 boot_mm = 0x5007"
    by (simp_all add: pte_of_def lin2phy_eq boot_mm_simps page_of_def boot_pmem_def)
  obtain k' new where *: "copy_process 1 boot_frame boot_kernel = Inr (1, k')" "page_refs m new = 0"
      "page_refs (kmm k') new = 1" "pte_of (0x4000000 + 0x26000) (kmm k') = new OR 7"
      "\<forall>off < 0x400000. ((0 :: u32) \<noteq> 0 \<or> off < 0xA0000) \<and> drop_bit 12 off \<noteq> drop_bit 12 (0x26000 :: u32) \<longrightarrow>
         pte_of (0x4000000 + off) (kmm k') = ro (pte_of (0 + off) boot_mm)"
    using fork_memory [OF boot_fork_ready, of m boot_frame, unfolded boot_parent boot_kernel_simps sp,
        unfolded add_0_left, unfolded pte, OF m(1) _ _ _ m(2-4)]
    by (auto simp: live_def)
  have "pte_of (0x4000000 + 0x5000) (kmm k') = ro (pte_of (0 + 0x5000) boot_mm)"
    using *(5) [rule_format, of "0x5000"] by simp
  then show ?thesis using *(1-4) pte(3) by (intro exI [of _ m] exI [of _ k'] exI [of _ new]) (simp add: ro_def)
qed


section \<open>Reference counts\<close>

lemma count_files_apply:
  "n \<le> NR_OPEN \<Longrightarrow> f \<noteq> NULL \<Longrightarrow>
     files (count_files n t k) f = (files k f)\<lparr>f_count := f_count (files k f) +
       of_nat (length (filter (\<lambda>i. ts_filp t i = f) [NR_OPEN - n..<NR_OPEN]))\<rparr>"
proof (induction n arbitrary: k)
  case (Suc n)
  have "[NR_OPEN - Suc n..<NR_OPEN] = (NR_OPEN - Suc n) # [NR_OPEN - n..<NR_OPEN]"
    using Suc.prems(1) Suc_diff_Suc [of n NR_OPEN] by (simp only: upt_conv_Cons)
  with Suc show ?case by (simp add: Let_def del: NR_OPEN_def)
qed simp

lemma count_files_null: "files (count_files n t k) NULL = files k NULL"
  by (induction n arbitrary: k) (simp_all add: Let_def)

text \<open>
  A fork counts the references that the child inherits: the count of an open file grows by the
  number of descriptors of the process that point to it (in 16 bits), a file that none points to
  keeps its count.
\<close>

lemma fork_counts_files:
  "files (fork_finish nr p r k) f =
     (if f = NULL then files k f
      else (files k f)\<lparr>f_count := f_count (files k f) +
             of_nat (card {i. i < NR_OPEN \<and> ts_filp (task_at k p) i = f})\<rparr>)"
proof -
  have l: "length (filter (\<lambda>i. g i = f) [0..<NR_OPEN]) = card {i. i < NR_OPEN \<and> g i = f}" for g :: "nat \<Rightarrow> ptr"
    by (simp add: distinct_card [symmetric] del: NR_OPEN_def)
  have "files (fork_finish nr p r k) = files (count_files NR_OPEN (task_at k p)
      (k\<lparr>kmm := un_wp_page (lin2phy (stack_address (r_esp r) (get_base (ts_ldt (task_at k p) 2))) (kmm k)) (kmm k)\<rparr>))"
    by (simp add: fork_finish_def Let_def del: NR_OPEN_def)
  then show ?thesis
    by (simp add: count_files_apply count_files_null l del: NR_OPEN_def)
qed

end
