(* ===== verification/Buffer.thy ===== *)
theory Buffer
  imports Sched
begin

text \<open>
  The buffer cache: \<^verbatim>\<open>fs/buffer.c\<close> and \<^verbatim>\<open>struct buffer_head\<close> of \<^verbatim>\<open>include/linux/fs.h\<close>.

  Buffer heads live in a store indexed by their address.  The wait queue \<^verbatim>\<open>b_wait\<close> of a head and the
  queue \<^verbatim>\<open>buffer_wait\<close> are kept with the other wait queues of the scheduler.  A function that may
  sleep is modelled by the stretches between its calls of \<^verbatim>\<open>schedule\<close>: it ends by returning or at
  the call, and a second definition says what it does when that call returns.  A loop with no bound
  of its own is a partial function, with \<^const>\<open>None\<close> for a loop that does not end.
\<close>

section \<open>State\<close>

definition NR_HASH :: nat where
  [simp, kconsts]: "NR_HASH = 307"

definition BLOCK_SIZE :: u32 where
  [simp, kconsts]: "BLOCK_SIZE = 1024"

text \<open>\<^verbatim>\<open>sizeof(struct buffer_head)\<close> on i386, with two bytes of padding before \<^verbatim>\<open>b_wait\<close>.\<close>

definition sizeof_buffer_head :: u32 where
  [simp, kconsts]: "sizeof_buffer_head = 36"

record buffer_head =
  b_data :: ptr
  b_blocknr :: u32
  b_dev :: u16
  b_uptodate :: u8
  b_dirt :: u8
  b_count :: u8
  b_lock :: u8
  b_prev :: ptr
  b_next :: ptr
  b_prev_free :: ptr
  b_next_free :: ptr

record bstate =
  heads :: "ptr \<Rightarrow> buffer_head"
  hash_table :: "nat \<Rightarrow> ptr"
  free_list :: ptr
  start_buffer :: ptr
  nr_buffers :: u32
  bsched :: sched

definition upd_head :: "ptr \<Rightarrow> (buffer_head \<Rightarrow> buffer_head) \<Rightarrow> bstate \<Rightarrow> bstate" where
  "upd_head p f b = b\<lparr>heads := (heads b)(p := f (heads b p))\<rparr>"

definition set_hash :: "nat \<Rightarrow> ptr \<Rightarrow> bstate \<Rightarrow> bstate" where
  "set_hash i p b = b\<lparr>hash_table := (hash_table b)(i := p)\<rparr>"

definition BADNESS :: "buffer_head \<Rightarrow> nat" where
  "BADNESS h = 2 * unat (b_dirt h) + unat (b_lock h)"

text \<open>\<^verbatim>\<open>_hashfn\<close> takes two \<^verbatim>\<open>int\<close>s; a device field of a head is promoted from 16 bits.\<close>

definition hashfn :: "u32 \<Rightarrow> u32 \<Rightarrow> nat" where
  "hashfn dev block = unat ((dev XOR block) mod of_nat NR_HASH)"

definition head_hash :: "buffer_head \<Rightarrow> nat" where
  "head_hash h = hashfn (ucast (b_dev h)) (b_blocknr h)"

section \<open>The queues\<close>

text \<open>\<^verbatim>\<open>remove_from_queues\<close>: out of the hash queue, then out of the free list.\<close>

definition unhash :: "ptr \<Rightarrow> bstate \<Rightarrow> bstate" where
  "unhash bh b =
     (let h = heads b bh;
          b = (if b_next h \<noteq> NULL then upd_head (b_next h) (\<lambda>n. n\<lparr>b_prev := b_prev h\<rparr>) b else b);
          h = heads b bh;
          b = (if b_prev h \<noteq> NULL then upd_head (b_prev h) (\<lambda>n. n\<lparr>b_next := b_next h\<rparr>) b else b);
          h = heads b bh
      in if hash_table b (head_hash h) = bh then set_hash (head_hash h) (b_next h) b else b)"

definition unfree :: "ptr \<Rightarrow> bstate \<Rightarrow> bstate" where
  "unfree bh b =
     (let h = heads b bh;
          b = upd_head (b_next_free h) (\<lambda>n. n\<lparr>b_prev_free := b_prev_free h\<rparr>) b;
          h = heads b bh;
          b = upd_head (b_prev_free h) (\<lambda>n. n\<lparr>b_next_free := b_next_free h\<rparr>) b
      in if free_list b = bh then b\<lparr>free_list := b_next_free (heads b bh)\<rparr> else b)"

definition remove_from_queues :: "ptr \<Rightarrow> bstate \<Rightarrow> bstate kres" where
  "remove_from_queues bh b =
     (let b = unhash bh b;
          h = heads b bh
      in if b_prev_free h = NULL \<or> b_prev_free h = NULL then Inl (Panic ''Free block list corrupted'')
         else Inr (unfree bh b))"

text \<open>\<^verbatim>\<open>insert_into_queues\<close>: to the end of the free list, then, with a device, into the hash queue.\<close>

definition enfree :: "ptr \<Rightarrow> bstate \<Rightarrow> bstate" where
  "enfree bh b =
     (let last = b_prev_free (heads b (free_list b));
          b = upd_head bh (\<lambda>h. h\<lparr>b_prev_free := last, b_next_free := free_list b\<rparr>) b;
          b = upd_head last (\<lambda>h. h\<lparr>b_next_free := bh\<rparr>) b
      in upd_head (free_list b) (\<lambda>h. h\<lparr>b_prev_free := bh\<rparr>) b)"

definition enhash :: "ptr \<Rightarrow> bstate \<Rightarrow> bstate" where
  "enhash bh b =
     (let b = upd_head bh (\<lambda>h. h\<lparr>b_prev := NULL, b_next := NULL\<rparr>) b;
          h = heads b bh
      in if b_dev h = 0 then b
         else
           let first = hash_table b (head_hash h);
               b = set_hash (head_hash h) bh b;
               b = upd_head bh (\<lambda>h. h\<lparr>b_next := first\<rparr>) b
           in if first \<noteq> NULL then upd_head first (\<lambda>h. h\<lparr>b_prev := bh\<rparr>) b else b)"

definition insert_into_queues :: "ptr \<Rightarrow> bstate \<Rightarrow> bstate" where
  "insert_into_queues bh b = enhash bh (enfree bh b)"

partial_function (option) find_chain :: "u32 \<Rightarrow> u32 \<Rightarrow> bstate \<Rightarrow> ptr \<Rightarrow> ptr option" where
  "find_chain dev block b tmp =
     (if tmp = NULL then Some NULL
      else if ucast (b_dev (heads b tmp)) = dev \<and> b_blocknr (heads b tmp) = block then Some tmp
      else find_chain dev block b (b_next (heads b tmp)))"

definition find_buffer :: "u32 \<Rightarrow> u32 \<Rightarrow> bstate \<Rightarrow> ptr option" where
  "find_buffer dev block b = find_chain dev block b (hash_table b (hashfn dev block))"

section \<open>Waiting\<close>

datatype wait_end = Unlocked bstate | Waits ptr bstate

partial_function (option) wait_on_buffer :: "ptr \<Rightarrow> bstate \<Rightarrow> wait_end kres option" where
  "wait_on_buffer bh b =
     (if b_lock (heads b bh) \<noteq> 0
      then (case sleep_on (WQ_buffer bh) (bsched b) of
              Inl e \<Rightarrow> Some (Inl e)
            | Inr (Returned s) \<Rightarrow> wait_on_buffer bh (b\<lparr>bsched := s\<rparr>)
            | Inr (At_repeat tmp s) \<Rightarrow> Some (Inr (Waits tmp (b\<lparr>bsched := s\<rparr>))))
      else Some (Inr (Unlocked b)))"

definition wait_resume :: "ptr \<Rightarrow> ptr \<Rightarrow> bstate \<Rightarrow> wait_end kres option" where
  "wait_resume bh tmp b =
     (case sleep_on_resume (WQ_buffer bh) tmp (bsched b) of
        Returned s \<Rightarrow> wait_on_buffer bh (b\<lparr>bsched := s\<rparr>)
      | At_repeat tmp' s \<Rightarrow> Some (Inr (Waits tmp' (b\<lparr>bsched := s\<rparr>))))"

section \<open>\<^verbatim>\<open>get_hash_table\<close>\<close>

text \<open>
  \<open>Ght_done\<close> carries the result, \<^verbatim>\<open>NULL\<close> when the block is not cached; \<open>Ght_waits bh tmp\<close> is the
  call asleep on the lock of \<open>bh\<close>.  After the wait the head is checked again.
\<close>

datatype ght_end = Ght_done ptr bstate | Ght_waits ptr ptr bstate

partial_function (option) get_hash_table :: "u32 \<Rightarrow> u32 \<Rightarrow> bstate \<Rightarrow> ght_end kres option" where
  "get_hash_table dev block b =
     (case find_buffer dev block b of
        None \<Rightarrow> None
      | Some bh \<Rightarrow>
          if bh = NULL then Some (Inr (Ght_done NULL b))
          else
            (case wait_on_buffer bh (upd_head bh (\<lambda>h. h\<lparr>b_count := b_count h + 1\<rparr>) b) of
               None \<Rightarrow> None
             | Some (Inl e) \<Rightarrow> Some (Inl e)
             | Some (Inr (Waits tmp b)) \<Rightarrow> Some (Inr (Ght_waits bh tmp b))
             | Some (Inr (Unlocked b)) \<Rightarrow>
                 if ucast (b_dev (heads b bh)) = dev \<and> b_blocknr (heads b bh) = block
                 then Some (Inr (Ght_done bh b))
                 else get_hash_table dev block (upd_head bh (\<lambda>h. h\<lparr>b_count := b_count h - 1\<rparr>) b)))"

definition ght_resume :: "u32 \<Rightarrow> u32 \<Rightarrow> ptr \<Rightarrow> ptr \<Rightarrow> bstate \<Rightarrow> ght_end kres option" where
  "ght_resume dev block bh tmp b =
     (case wait_resume bh tmp b of
        None \<Rightarrow> None
      | Some (Inl e) \<Rightarrow> Some (Inl e)
      | Some (Inr (Waits tmp b)) \<Rightarrow> Some (Inr (Ght_waits bh tmp b))
      | Some (Inr (Unlocked b)) \<Rightarrow>
          if ucast (b_dev (heads b bh)) = dev \<and> b_blocknr (heads b bh) = block
          then Some (Inr (Ght_done bh b))
          else get_hash_table dev block (upd_head bh (\<lambda>h. h\<lparr>b_count := b_count h - 1\<rparr>) b))"

section \<open>\<^verbatim>\<open>getblk\<close>\<close>

text \<open>The search of the free list: \<open>best\<close> is \<^verbatim>\<open>bh\<close>, the best candidate so far.\<close>

partial_function (option) scan_free :: "bstate \<Rightarrow> ptr \<Rightarrow> ptr \<Rightarrow> ptr option" where
  "scan_free b tmp best =
     (let better = b_count (heads b tmp) = 0 \<and>
                   (best = NULL \<or> BADNESS (heads b tmp) < BADNESS (heads b best));
          best' = (if better then tmp else best)
      in if better \<and> BADNESS (heads b tmp) = 0 then Some best'
         else if b_next_free (heads b tmp) \<noteq> free_list b
              then scan_free b (b_next_free (heads b tmp)) best'
              else Some best')"

definition claim_buffer :: "u32 \<Rightarrow> u32 \<Rightarrow> ptr \<Rightarrow> bstate \<Rightarrow> bstate kres" where
  "claim_buffer dev block bh b =
     (let b = upd_head bh (\<lambda>h. h\<lparr>b_count := 1, b_dirt := 0, b_uptodate := 0\<rparr>) b
      in case remove_from_queues bh b of
           Inl e \<Rightarrow> Inl e
         | Inr b \<Rightarrow>
             Inr (insert_into_queues bh
                    (upd_head bh (\<lambda>h. h\<lparr>b_dev := ucast dev, b_blocknr := block\<rparr>) b)))"

text \<open>
  \<open>getblk_from\<close> runs from a point of the function to its return or to its next call of
  \<^verbatim>\<open>schedule\<close>: from the label \<^verbatim>\<open>repeat\<close>, from the return of \<^verbatim>\<open>get_hash_table\<close>, or from the return
  of \<^verbatim>\<open>wait_on_buffer\<close>.
\<close>

datatype gb_at = At_top | At_hash ptr | At_unlocked ptr

datatype gb_end = Gb_done ptr bstate | Gb_in_hash ptr ptr bstate | Gb_no_buffer ptr bstate
  | Gb_locked ptr ptr bstate

partial_function (option) getblk_from :: "gb_at \<Rightarrow> u32 \<Rightarrow> u32 \<Rightarrow> bstate \<Rightarrow> gb_end kres option" where
  "getblk_from at dev block b =
     (case at of
        At_top \<Rightarrow>
          (case get_hash_table dev block b of
             None \<Rightarrow> None
           | Some (Inl e) \<Rightarrow> Some (Inl e)
           | Some (Inr (Ght_waits bh tmp b)) \<Rightarrow> Some (Inr (Gb_in_hash bh tmp b))
           | Some (Inr (Ght_done bh b)) \<Rightarrow> getblk_from (At_hash bh) dev block b)
      | At_hash bh \<Rightarrow>
          if bh \<noteq> NULL then Some (Inr (Gb_done bh b))
          else
            (case scan_free b (free_list b) NULL of
               None \<Rightarrow> None
             | Some bh \<Rightarrow>
                 if bh = NULL
                 then (case sleep_on WQ_buffer_wait (bsched b) of
                         Inl e \<Rightarrow> Some (Inl e)
                       | Inr (Returned s) \<Rightarrow> getblk_from At_top dev block (b\<lparr>bsched := s\<rparr>)
                       | Inr (At_repeat tmp s) \<Rightarrow> Some (Inr (Gb_no_buffer tmp (b\<lparr>bsched := s\<rparr>))))
                 else (case wait_on_buffer bh b of
                         None \<Rightarrow> None
                       | Some (Inl e) \<Rightarrow> Some (Inl e)
                       | Some (Inr (Waits tmp b)) \<Rightarrow> Some (Inr (Gb_locked bh tmp b))
                       | Some (Inr (Unlocked b)) \<Rightarrow> getblk_from (At_unlocked bh) dev block b))
      | At_unlocked bh \<Rightarrow>
          if b_count (heads b bh) \<noteq> 0 \<or> b_dirt (heads b bh) \<noteq> 0 then getblk_from At_top dev block b
          else
            (case find_buffer dev block b of
               None \<Rightarrow> None
             | Some q \<Rightarrow>
                 if q \<noteq> NULL then getblk_from At_top dev block b
                 else
                   (case claim_buffer dev block bh b of
                      Inl e \<Rightarrow> Some (Inl e)
                    | Inr b \<Rightarrow> Some (Inr (Gb_done bh b)))))"

definition getblk :: "u32 \<Rightarrow> u32 \<Rightarrow> bstate \<Rightarrow> gb_end kres option" where
  "getblk dev block b = getblk_from At_top dev block b"

text \<open>What a suspended call does when its call of \<^verbatim>\<open>schedule\<close> returns.\<close>

definition getblk_resume :: "u32 \<Rightarrow> u32 \<Rightarrow> gb_end \<Rightarrow> gb_end kres option" where
  "getblk_resume dev block g =
     (case g of
        Gb_done bh b \<Rightarrow> Some (Inr (Gb_done bh b))
      | Gb_in_hash bh tmp b \<Rightarrow>
          (case ght_resume dev block bh tmp b of
             None \<Rightarrow> None
           | Some (Inl e) \<Rightarrow> Some (Inl e)
           | Some (Inr (Ght_waits bh tmp b)) \<Rightarrow> Some (Inr (Gb_in_hash bh tmp b))
           | Some (Inr (Ght_done bh b)) \<Rightarrow> getblk_from (At_hash bh) dev block b)
      | Gb_no_buffer tmp b \<Rightarrow>
          (case sleep_on_resume WQ_buffer_wait tmp (bsched b) of
             Returned s \<Rightarrow> getblk_from At_top dev block (b\<lparr>bsched := s\<rparr>)
           | At_repeat tmp s \<Rightarrow> Some (Inr (Gb_no_buffer tmp (b\<lparr>bsched := s\<rparr>))))
      | Gb_locked bh tmp b \<Rightarrow>
          (case wait_resume bh tmp b of
             None \<Rightarrow> None
           | Some (Inl e) \<Rightarrow> Some (Inl e)
           | Some (Inr (Waits tmp b)) \<Rightarrow> Some (Inr (Gb_locked bh tmp b))
           | Some (Inr (Unlocked b)) \<Rightarrow> getblk_from (At_unlocked bh) dev block b))"

text \<open>\<^verbatim>\<open>sys_kdebug\<close> prints when its \<^verbatim>\<open>getblk\<close> has returned, at once or after it was suspended.\<close>

definition kdebug_print :: "gb_end kres option \<Rightarrow> gb_end kres option" where
  "kdebug_print r =
     (case r of
        Some (Inr (Gb_done bh b)) \<Rightarrow>
          Some (Inr (Gb_done bh (b\<lparr>bsched := printk (''getblk() returned success'' @ [CHR 0x0A]) (bsched b)\<rparr>)))
      | _ \<Rightarrow> r)"

definition sys_kdebug :: "bstate \<Rightarrow> gb_end kres option" where
  "sys_kdebug b = kdebug_print (getblk 0x300 0 b)"

definition sys_kdebug_resume :: "gb_end \<Rightarrow> gb_end kres option" where
  "sys_kdebug_resume g = kdebug_print (getblk_resume 0x300 0 g)"

section \<open>\<^verbatim>\<open>buffer_init\<close>\<close>

definition init_head :: "ptr \<Rightarrow> ptr \<Rightarrow> bstate \<Rightarrow> bstate" where
  "init_head h d b =
     (let b = upd_head h (\<lambda>x. x\<lparr>b_dev := 0, b_dirt := 0, b_count := 0, b_lock := 0, b_uptodate := 0,
                b_next := NULL, b_prev := NULL, b_data := d, b_prev_free := h - sizeof_buffer_head,
                b_next_free := h + sizeof_buffer_head\<rparr>) b
      in b\<lparr>bsched := set_waitq (bsched b) (WQ_buffer h) NULL, nr_buffers := nr_buffers b + 1\<rparr>)"

partial_function (option) init_loop :: "ptr \<Rightarrow> ptr \<Rightarrow> bstate \<Rightarrow> (ptr \<times> bstate) option" where
  "init_loop h d b =
     (let d = d - BLOCK_SIZE
      in if h + sizeof_buffer_head \<le> d
         then init_loop (h + sizeof_buffer_head) (if d = 0x100000 then 0xa0000 else d) (init_head h d b)
         else Some (h, b))"

primrec clear_hash :: "nat \<Rightarrow> bstate \<Rightarrow> bstate" where
  "clear_hash 0 b = b"
| "clear_hash (Suc n) b = clear_hash n (set_hash (NR_HASH - Suc n) NULL b)"

definition buffer_init :: "u32 \<Rightarrow> bstate \<Rightarrow> bstate option" where
  "buffer_init buffer_end b =
     (let d = (if buffer_end = push_bit 20 1 then 640 * 1024 else buffer_end)
      in case init_loop (start_buffer b) d b of
           None \<Rightarrow> None
         | Some (h, b) \<Rightarrow>
             let h = h - sizeof_buffer_head;
                 b = b\<lparr>free_list := start_buffer b\<rparr>;
                 b = upd_head (free_list b) (\<lambda>x. x\<lparr>b_prev_free := h\<rparr>) b;
                 b = upd_head h (\<lambda>x. x\<lparr>b_next_free := free_list b\<rparr>) b
             in Some (clear_hash NR_HASH b))"

section \<open>Doubly linked rings\<close>

text \<open>
  \<open>links n p xs\<close>: consecutive elements of \<open>xs\<close> are linked both ways by the successor function \<open>n\<close>
  and the predecessor function \<open>p\<close>.  A ring closes the list on its first element.
\<close>

fun links :: "('a \<Rightarrow> 'a) \<Rightarrow> ('a \<Rightarrow> 'a) \<Rightarrow> 'a list \<Rightarrow> bool" where
  "links n p (x # y # zs) \<longleftrightarrow> n x = y \<and> p y = x \<and> links n p (y # zs)"
| "links n p xs \<longleftrightarrow> True"

definition ring :: "('a \<Rightarrow> 'a) \<Rightarrow> ('a \<Rightarrow> 'a) \<Rightarrow> 'a list \<Rightarrow> bool" where
  "ring n p xs \<longleftrightarrow> xs \<noteq> [] \<and> distinct xs \<and> links n p (xs @ [hd xs])"

lemma links_append: "links n p (xs @ y # zs) \<longleftrightarrow> links n p (xs @ [y]) \<and> links n p (y # zs)"
proof (induction xs)
  case (Cons x xs)
  then show ?case by (cases xs) auto
qed simp

lemma links_cong:
  "(\<And>x. x \<in> set (butlast xs) \<Longrightarrow> n' x = n x) \<Longrightarrow> (\<And>x. x \<in> set (tl xs) \<Longrightarrow> p' x = p x) \<Longrightarrow>
     links n' p' xs \<longleftrightarrow> links n p xs"
proof (induction xs)
  case (Cons x xs)
  show ?case
  proof (cases xs)
    case (Cons y ys)
    have "links n' p' xs \<longleftrightarrow> links n p xs"
      using Cons.IH Cons.prems \<open>xs = y # ys\<close> by (intro Cons.IH) auto
    then show ?thesis using Cons.prems \<open>xs = y # ys\<close> by auto
  qed simp
qed simp

lemma ring_Cons: "ring n p (x # xs) \<longleftrightarrow> distinct (x # xs) \<and> links n p (x # xs @ [x])"
  by (simp add: ring_def)

lemma ring_rotate: "ring n p (xs @ ys) \<Longrightarrow> ring n p (ys @ xs)"
proof (cases xs; cases ys)
  fix x xs' y ys' assume a: "ring n p (xs @ ys)" and e: "xs = x # xs'" "ys = y # ys'"
  have "links n p ((x # xs') @ y # ys' @ [x])" using a e by (simp add: ring_def)
  then have "links n p (x # xs' @ [y])" "links n p (y # ys' @ [x])"
    using links_append [of n p "x # xs'" y "ys' @ [x]"] by simp_all
  then have "links n p ((y # ys') @ x # xs' @ [y])"
    using links_append [of n p "y # ys'" x "xs' @ [y]"] by simp
  then show "ring n p (ys @ xs)" using a e by (auto simp: ring_def)
qed auto

lemma ring_next_hd: "ring n p (x # y # zs) \<Longrightarrow> n x = y"
  by (simp add: ring_def)

lemma links_snoc: "links n p (xs @ [y, z]) \<longleftrightarrow> links n p (xs @ [y]) \<and> n y = z \<and> p z = y"
  using links_append [of n p xs y "[z]"] by simp

lemma ring_prev_hd:
  assumes "ring n p (x # xs)"
  shows "p x = last (x # xs)" and "n (last (x # xs)) = x"
  using assms links_snoc [of n p "x # butlast xs" "last xs" x]
  by (cases xs rule: rev_cases; simp add: ring_def)+

text \<open>Taking an element out of a ring, and putting one in at the end.\<close>

lemma links_Cons_snoc:
  "links n p (y # zs @ [x]) \<longleftrightarrow> links n p (y # zs) \<and> n (last (y # zs)) = x \<and> p x = last (y # zs)"
  by (induction zs arbitrary: y) auto

lemma links_upd:
  assumes "distinct (y # zs)" and "links n p (y # zs)"
  shows "links (n(last (y # zs) := u)) (p(y := v)) (y # zs)"
proof -
  have "last (y # zs) \<notin> set (butlast (y # zs))"
    using assms(1) by (cases zs rule: rev_cases) auto
  moreover have "y \<notin> set zs" using assms(1) by simp
  ultimately have "links (n(last (y # zs) := u)) (p(y := v)) (y # zs) = links n p (y # zs)"
    by (intro links_cong) auto
  then show ?thesis using assms(2) by simp
qed

lemma ring_remove_hd:
  assumes r: "ring n p (x # y # zs)"
  shows "ring (n(p x := n x)) (p(n x := p x)) (y # zs)"
proof -
  have nx: "n x = y" using r by (simp add: ring_def)
  have px: "p x = last (y # zs)" using ring_prev_hd(1) [OF r] by simp
  have d: "distinct (y # zs)" using r by (simp add: ring_def)
  have "links n p (y # zs)" using r by (simp add: ring_def links_Cons_snoc)
  from links_upd [OF d this] have "links (n(p x := n x)) (p(n x := p x)) (y # zs)" unfolding px nx .
  moreover have "(n(p x := n x)) (last (y # zs)) = y" "(p(n x := p x)) y = last (y # zs)"
    using px nx by simp_all
  ultimately have "links (n(p x := n x)) (p(n x := p x)) (y # zs @ [y])"
    unfolding links_Cons_snoc by blast
  then show ?thesis using d by (simp add: ring_def)
qed

lemma ring_insert_end:
  assumes r: "ring n p (y # zs)" and new: "x \<notin> set (y # zs)"
  shows "ring (n(x := y, p y := x)) (p(x := p y, y := x)) (y # zs @ [x])"
proof -
  have py: "p y = last (y # zs)" using ring_prev_hd(1) [OF r] .
  have d: "distinct (y # zs)" using r by (simp add: ring_def)
  let ?n = "n(x := y, p y := x)" and ?p = "p(x := p y, y := x)"
  have "links n p (y # zs)" using r by (simp add: ring_def links_Cons_snoc)
  from links_upd [OF d this, of x x] have "links (n(last (y # zs) := x)) (p(y := x)) (y # zs)" .
  moreover have "links ?n ?p (y # zs) = links (n(last (y # zs) := x)) (p(y := x)) (y # zs)"
    using new by (intro links_cong) (auto simp: py dest: in_set_butlastD)
  ultimately have "links ?n ?p (y # zs)" by blast
  moreover have "?n (last (y # zs)) = x" "?p x = last (y # zs)" "?n x = y" "?p y = x"
    using new py last_in_set [of "y # zs"] by auto
  ultimately have "links ?n ?p (y # zs @ [x])" "?n x = y" "?p y = x"
    unfolding links_Cons_snoc by blast+
  then have "links ?n ?p (y # (zs @ [x]) @ [y])"
    unfolding links_Cons_snoc [of ?n ?p y "zs @ [x]" y] by simp
  then show ?thesis using d new by (auto simp: ring_def)
qed


text \<open>Moving any element to the end.\<close>

lemma ring_remove:
  assumes r: "ring n p (as @ x # bs)" and "as @ bs \<noteq> []"
  shows "ring (n(p x := n x)) (p(n x := p x)) (as @ bs)"
proof -
  have "ring n p (x # bs @ as)" using ring_rotate [OF r] by simp
  moreover obtain y zs where "bs @ as = y # zs" using assms(2) by (cases "bs @ as") auto
  ultimately have "ring (n(p x := n x)) (p(n x := p x)) (bs @ as)" using ring_remove_hd by metis
  then show ?thesis by (rule ring_rotate)
qed

section \<open>Doubly linked chains\<close>

text \<open>\<open>chain n p v xs h\<close>: from \<open>h\<close> the successors are \<open>xs\<close>, then \<^verbatim>\<open>NULL\<close>; \<open>v\<close> is the predecessor of the first.\<close>

primrec chain :: "(ptr \<Rightarrow> ptr) \<Rightarrow> (ptr \<Rightarrow> ptr) \<Rightarrow> ptr \<Rightarrow> ptr list \<Rightarrow> ptr \<Rightarrow> bool" where
  "chain n p v [] h \<longleftrightarrow> h = NULL"
| "chain n p v (x # xs) h \<longleftrightarrow> h = x \<and> x \<noteq> NULL \<and> p x = v \<and> chain n p x xs (n x)"

lemma queue_chain_cong:
  "(\<And>x. x \<in> set xs \<Longrightarrow> n' x = n x \<and> p' x = p x) \<Longrightarrow> chain n' p' v xs h \<longleftrightarrow> chain n p v xs h"
  by (induction xs arbitrary: v h) auto

lemma chain_upd_other [simp]:
  "y \<notin> set xs \<Longrightarrow> chain (n(y := w)) p v xs h \<longleftrightarrow> chain n p v xs h"
  "y \<notin> set xs \<Longrightarrow> chain n (p(y := w)) v xs h \<longleftrightarrow> chain n p v xs h"
  by (induction xs arbitrary: v h) auto

lemma chain_upd_head:
  "chain n p v xs h \<Longrightarrow> distinct xs \<Longrightarrow> chain n (if h \<noteq> NULL then p(h := w) else p) w xs h"
  by (cases xs) auto

lemma chain_split:
  "chain n p v (as @ x # bs) h \<Longrightarrow>
     p x = last (v # as) \<and> chain n p x bs (n x)"
proof (induction as arbitrary: v h)
  case (Cons a as)
  then have "chain n p a (as @ x # bs) (n a)" by simp
  from Cons.IH [OF this] show ?case by simp
qed simp

lemma chain_head: "chain n p v xs h \<Longrightarrow> h = (case xs of [] \<Rightarrow> NULL | x # _ \<Rightarrow> x)"
  by (cases xs) auto

lemma chain_not_NULL: "chain n p v xs h \<Longrightarrow> NULL \<notin> set xs"
  by (induction xs arbitrary: v h) auto

lemma chain_remove:
  assumes "chain n p v (as @ x # bs) h" and "distinct (as @ x # bs)" and "v \<notin> set (as @ x # bs)"
  shows "chain (if p x \<noteq> NULL then n(p x := n x) else n) (if n x \<noteq> NULL then p(n x := p x) else p)
           v (as @ bs) (if h = x then n x else h)"
  using assms
proof (induction as arbitrary: v h)
  case Nil
  then have c: "chain n p x bs (n x)" "p x = v" "h = x" "distinct bs" "v \<notin> set bs" by simp_all
  have "chain n (if n x \<noteq> NULL then p(n x := v) else p) v bs (n x)"
    using chain_upd_head [OF c(1,4)] .
  then have "chain (if v \<noteq> NULL then n(v := n x) else n) (if n x \<noteq> NULL then p(n x := v) else p) v bs (n x)"
    using c(5) by (cases "v = NULL") simp_all
  then show ?case using c(2,3) by (simp only: append_Nil simp_thms if_True)
next
  case (Cons a as)
  let ?n = "if p x \<noteq> NULL then n(p x := n x) else n" and ?p = "if n x \<noteq> NULL then p(n x := p x) else p"
  have c: "h = a" "a \<noteq> NULL" "p a = v" "chain n p a (as @ x # bs) (n a)" "a \<noteq> x" using Cons.prems by auto
  note s = chain_split [OF c(4)]
  have "chain ?n ?p a (as @ bs) (if n a = x then n x else n a)"
    using Cons.prems by (intro Cons.IH [OF c(4)]) auto
  moreover have "?n a = (if n a = x then n x else n a)"
  proof (cases as rule: rev_cases)
    case Nil
    then show ?thesis using s c(2,4) by simp
  next
    case (snoc us z)
    then have "p x = z" "z \<noteq> a" "n a \<noteq> x" using s c(4) Cons.prems(2) by (cases us; auto)+
    then show ?thesis by simp
  qed
  moreover have "n x \<noteq> a"
    using s chain_head [of n p x bs "n x"] c(2) Cons.prems(2) by (cases bs) auto
  ultimately show ?case using c by auto
qed

section \<open>What the queue operations do to each link\<close>

definition nf :: "bstate \<Rightarrow> ptr \<Rightarrow> ptr" where
  "nf b x = b_next_free (heads b x)"

definition pf :: "bstate \<Rightarrow> ptr \<Rightarrow> ptr" where
  "pf b x = b_prev_free (heads b x)"

definition nx :: "bstate \<Rightarrow> ptr \<Rightarrow> ptr" where
  "nx b x = b_next (heads b x)"

definition pv :: "bstate \<Rightarrow> ptr \<Rightarrow> ptr" where
  "pv b x = b_prev (heads b x)"


lemmas link_defs = nf_def pf_def nx_def pv_def

text \<open>The fields of a head that the queue operations do not touch.\<close>

definition payload :: "buffer_head \<Rightarrow> ptr \<times> u32 \<times> u16 \<times> u8 \<times> u8 \<times> u8 \<times> u8" where
  "payload h = (b_data h, b_blocknr h, b_dev h, b_uptodate h, b_dirt h, b_count h, b_lock h)"

lemma upd_head_simps [simp]:
  "heads (upd_head p f b) x = (if x = p then f (heads b p) else heads b x)"
  "hash_table (upd_head p f b) = hash_table b" "free_list (upd_head p f b) = free_list b"
  "bsched (upd_head p f b) = bsched b" "start_buffer (upd_head p f b) = start_buffer b"
  "nr_buffers (upd_head p f b) = nr_buffers b"
  by (simp_all add: upd_head_def)

lemma set_hash_simps [simp]:
  "heads (set_hash i p b) = heads b" "hash_table (set_hash i p b) = (hash_table b)(i := p)"
  "free_list (set_hash i p b) = free_list b" "bsched (set_hash i p b) = bsched b"
  by (simp_all add: set_hash_def)

lemma remove_split:
  "remove_from_queues bh b =
     (if pf (unhash bh b) bh = NULL then Inl (Panic ''Free block list corrupted'')
      else Inr (unfree bh (unhash bh b)))"
  by (simp add: remove_from_queues_def Let_def pf_def)

lemma head_hash_payload: "payload h' = payload h \<Longrightarrow> head_hash h' = head_hash h"
  by (simp add: payload_def head_hash_def)

lemma unhash_heads:
  "heads (unhash bh b) x =
     (heads b x)\<lparr>b_prev := (if nx b bh \<noteq> NULL \<and> x = nx b bh then pv b bh else pv b x),
                b_next := (if pv b bh \<noteq> NULL \<and> x = pv b bh then nx b bh else nx b x)\<rparr>"
  by (cases "nx b bh = NULL"; cases "pv b bh = NULL"; cases "nx b bh = bh"; cases "pv b bh = bh")
    (simp_all add: unhash_def Let_def link_defs)

lemma unhash_links:
  "nf (unhash bh b) = nf b" "pf (unhash bh b) = pf b" "free_list (unhash bh b) = free_list b"
  "bsched (unhash bh b) = bsched b" "payload (heads (unhash bh b) x) = payload (heads b x)"
  by (simp_all add: fun_eq_iff nf_def pf_def unhash_heads payload_def) (simp_all add: unhash_def Let_def)

lemma unhash_hash:
  "nx (unhash bh b) = (if pv b bh \<noteq> NULL then (nx b)(pv b bh := nx b bh) else nx b)"
  "pv (unhash bh b) = (if nx b bh \<noteq> NULL then (pv b)(nx b bh := pv b bh) else pv b)"
  by (simp_all add: fun_eq_iff nx_def [of "unhash bh b"] pv_def [of "unhash bh b"] unhash_heads)

lemma unhash_table:
  "hash_table (unhash bh b) =
     (if hash_table b (head_hash (heads b bh)) = bh
      then (hash_table b)(head_hash (heads b bh) := nx b bh) else hash_table b)"
  by (cases "nx b bh = NULL"; cases "pv b bh = NULL"; cases "nx b bh = bh"; cases "pv b bh = bh")
    (simp_all add: unhash_def Let_def head_hash_def link_defs)

lemma unfree_links:
  "nx (unfree bh b) = nx b" "pv (unfree bh b) = pv b" "hash_table (unfree bh b) = hash_table b"
  "bsched (unfree bh b) = bsched b" "payload (heads (unfree bh b) x) = payload (heads b x)"
  by (auto simp: unfree_def Let_def fun_eq_iff payload_def link_defs)

lemma unfree_ring:
  "nf (unfree bh b) = (nf b)(pf b bh := nf b bh)" "pf (unfree bh b) = (pf b)(nf b bh := pf b bh)"
  "free_list (unfree bh b) = (if free_list b = bh then nf b bh else free_list b)"
  by (auto simp: unfree_def Let_def fun_eq_iff link_defs)

lemma enfree_links:
  "nx (enfree bh b) = nx b" "pv (enfree bh b) = pv b" "hash_table (enfree bh b) = hash_table b"
  "bsched (enfree bh b) = bsched b" "payload (heads (enfree bh b) x) = payload (heads b x)"
  "free_list (enfree bh b) = free_list b"
  by (auto simp: enfree_def Let_def fun_eq_iff payload_def link_defs)

lemma enfree_ring:
  "nf (enfree bh b) = (nf b)(bh := free_list b, pf b (free_list b) := bh)"
  "pf (enfree bh b) = (pf b)(bh := pf b (free_list b), free_list b := bh)"
  by (auto simp: enfree_def Let_def fun_eq_iff link_defs)

lemma enhash_links:
  "nf (enhash bh b) = nf b" "pf (enhash bh b) = pf b" "free_list (enhash bh b) = free_list b"
  "bsched (enhash bh b) = bsched b" "payload (heads (enhash bh b) x) = payload (heads b x)"
  by (auto simp: enhash_def Let_def fun_eq_iff payload_def link_defs)

lemma enhash_hash:
  assumes "b_dev (heads b bh) \<noteq> 0" and "hash_table b (head_hash (heads b bh)) \<noteq> bh"
  shows "nx (enhash bh b) = (nx b)(bh := hash_table b (head_hash (heads b bh)))"
    and "pv (enhash bh b) =
      (let first = hash_table b (head_hash (heads b bh))
       in if first \<noteq> NULL then (pv b)(bh := NULL, first := bh) else (pv b)(bh := NULL))"
    and "hash_table (enhash bh b) = (hash_table b)(head_hash (heads b bh) := bh)"
  using assms by (auto simp: enhash_def Let_def fun_eq_iff head_hash_def link_defs)

end
