(* ===== verification/Cache.thy ===== *)
theory Cache
  imports Buffer
begin

text \<open>
  The correctness of the buffer cache of \<^verbatim>\<open>fs/buffer.c\<close>: the invariant of its two queues, what a
  lookup, the choice of a victim and the reuse of a buffer do to it, and the refinement of a cache
  whose state is a finite map from blocks to buffers with a list of buffers in the order of reuse.
\<close>

section \<open>The invariant of the cache\<close>

text \<open>
  \<open>xs\<close> is the free list, a ring of all buffer heads in the order in which they are reused; \<open>C i\<close> is
  the list of the heads in bucket \<open>i\<close>.  Exactly the heads with a device are hashed, in the bucket of
  their device and block, and no two of them have the same device and block.
\<close>

definition ring_rep :: "bstate \<Rightarrow> ptr list \<Rightarrow> bool" where
  "ring_rep b xs \<longleftrightarrow> ring (nf b) (pf b) xs \<and> hd xs = free_list b \<and> NULL \<notin> set xs"

definition bucket :: "bstate \<Rightarrow> ptr set \<Rightarrow> nat \<Rightarrow> ptr set" where
  "bucket b S i = {p \<in> S. b_dev (heads b p) \<noteq> 0 \<and> head_hash (heads b p) = i}"

definition hash_rep :: "bstate \<Rightarrow> ptr set \<Rightarrow> (nat \<Rightarrow> ptr list) \<Rightarrow> bool" where
  "hash_rep b S C \<longleftrightarrow>
     (\<forall>i < NR_HASH. chain (nx b) (pv b) NULL (C i) (hash_table b i) \<and> distinct (C i) \<and>
        set (C i) = bucket b S i) \<and>
     (\<forall>p \<in> S. b_dev (heads b p) = 0 \<longrightarrow> nx b p = NULL \<and> pv b p = NULL)"

definition head_key :: "buffer_head \<Rightarrow> u16 \<times> u32" where
  "head_key h = (b_dev h, b_blocknr h)"

definition keys_unique :: "bstate \<Rightarrow> ptr set \<Rightarrow> bool" where
  "keys_unique b S \<longleftrightarrow>
     (\<forall>p \<in> S. \<forall>q \<in> S. b_dev (heads b p) \<noteq> 0 \<longrightarrow> head_key (heads b p) = head_key (heads b q) \<longrightarrow> p = q)"

definition cache_ok :: "bstate \<Rightarrow> ptr list \<Rightarrow> (nat \<Rightarrow> ptr list) \<Rightarrow> bool" where
  "cache_ok b xs C \<longleftrightarrow> ring_rep b xs \<and> hash_rep b (set xs) C \<and> keys_unique b (set xs)"

lemma head_hash_less: "head_hash h < NR_HASH"
proof -
  have "unat (x mod 307 :: u32) < 307" for x :: u32
    by (simp add: unat_mod)
  then show ?thesis by (simp add: head_hash_def hashfn_def)
qed

lemma hash_repD:
  assumes "hash_rep b S C" and "i < NR_HASH"
  shows "chain (nx b) (pv b) NULL (C i) (hash_table b i)" "distinct (C i)" "set (C i) = bucket b S i"
  using assms by (simp_all add: hash_rep_def)

lemma hash_rep_plain:
  "hash_rep b S C \<Longrightarrow> p \<in> S \<Longrightarrow> b_dev (heads b p) = 0 \<Longrightarrow> nx b p = NULL \<and> pv b p = NULL"
  by (simp add: hash_rep_def)

lemma chain_ends:
  assumes "chain n p NULL (as @ x # bs) h"
  shows "p x = NULL \<or> p x \<in> set as" and "n x = NULL \<or> n x \<in> set bs"
proof -
  note s = chain_split [OF assms]
  then show "p x = NULL \<or> p x \<in> set as" by (cases as rule: rev_cases) auto
  show "n x = NULL \<or> n x \<in> set bs" using s by (cases bs) auto
qed

lemma unhash_plain:
  assumes "hash_rep b S C" and "bh \<in> S" and "bh \<noteq> NULL" and "b_dev (heads b bh) = 0"
  shows "nx (unhash bh b) = nx b" "pv (unhash bh b) = pv b" "hash_table (unhash bh b) = hash_table b"
proof -
  let ?i = "head_hash (heads b bh)"
  note r = hash_repD [OF assms(1) head_hash_less]
  have "bh \<notin> set (C ?i)" using r(3) assms(4) by (simp add: bucket_def)
  then have "hash_table b ?i \<noteq> bh" using chain_head [OF r(1)] assms(3) by (auto split: list.splits)
  then show "hash_table (unhash bh b) = hash_table b" by (simp add: unhash_table)
  show "nx (unhash bh b) = nx b" "pv (unhash bh b) = pv b"
    using hash_rep_plain [OF assms(1,2,4)] by (simp_all add: unhash_hash)
qed

lemma bucket_payload:
  assumes "\<And>p. p \<in> S \<Longrightarrow> payload (heads b' p) = payload (heads b p)"
  shows "bucket b' S i = bucket b S i"
proof -
  have "b_dev (heads b' p) = b_dev (heads b p) \<and> head_hash (heads b' p) = head_hash (heads b p)" if "p \<in> S" for p
    using head_hash_payload [OF assms [OF that]] assms [OF that] by (simp add: payload_def)
  then show ?thesis unfolding bucket_def by auto
qed

lemma hash_rep_payload:
  assumes "hash_rep b S C" and "\<And>p. payload (heads b' p) = payload (heads b p)"
    and "nx b' = nx b" "pv b' = pv b" "hash_table b' = hash_table b"
  shows "hash_rep b' S C"
proof -
  have "bucket b' S i = bucket b S i" for i by (rule bucket_payload) (rule assms(2))
  moreover have "b_dev (heads b' p) = b_dev (heads b p)" for p using assms(2) [of p] by (simp add: payload_def)
  ultimately show ?thesis using assms(1,3-) by (simp add: hash_rep_def)
qed

lemma unfree_rep: "hash_rep b S C \<Longrightarrow> hash_rep (unfree bh b) S C"
  by (erule hash_rep_payload) (rule unfree_links)+

lemma enfree_rep: "hash_rep b S C \<Longrightarrow> hash_rep (enfree bh b) S C"
  by (erule hash_rep_payload) (rule enfree_links)+

lemma unhash_neighbours:
  assumes rep: "hash_rep b S C" and bh: "bh \<in> S"
  shows "pv b bh = NULL \<or> b_dev (heads b (pv b bh)) \<noteq> 0"
    and "nx b bh = NULL \<or> b_dev (heads b (nx b bh)) \<noteq> 0"
proof -
  let ?i = "head_hash (heads b bh)"
  note r0 = hash_repD [OF rep head_hash_less, of "heads b bh"]
  have "(pv b bh = NULL \<or> b_dev (heads b (pv b bh)) \<noteq> 0) \<and> (nx b bh = NULL \<or> b_dev (heads b (nx b bh)) \<noteq> 0)"
  proof (cases "b_dev (heads b bh) = 0")
    case True
    then show ?thesis using hash_rep_plain [OF rep bh] by simp
  next
    case False
    then have "bh \<in> set (C ?i)" using r0(3) bh by (simp add: bucket_def)
    then obtain as bs where C: "C ?i = as @ bh # bs" by (meson split_list)
    have "q \<in> set as \<or> q \<in> set bs \<Longrightarrow> b_dev (heads b q) \<noteq> 0" for q
      using r0(3) C by (auto simp: bucket_def)
    then show ?thesis using chain_ends [OF r0(1) [unfolded C]] by blast
  qed
  then show "pv b bh = NULL \<or> b_dev (heads b (pv b bh)) \<noteq> 0"
    "nx b bh = NULL \<or> b_dev (heads b (nx b bh)) \<noteq> 0" by simp_all
qed

lemma unhash_keeps_plain:
  assumes rep: "hash_rep b S C" and bh: "bh \<in> S" and "NULL \<notin> S"
    and p: "p \<in> S" "b_dev (heads (unhash bh b) p) = 0"
  shows "nx (unhash bh b) p = NULL \<and> pv (unhash bh b) p = NULL"
proof -
  have d: "b_dev (heads b p) = 0" using p(2) unhash_links(5) [of bh b p] by (simp add: payload_def)
  then have "nx b p = NULL" "pv b p = NULL" using hash_rep_plain [OF rep p(1)] by simp_all
  moreover have "pv b bh = NULL \<or> p \<noteq> pv b bh" "nx b bh = NULL \<or> p \<noteq> nx b bh"
    using unhash_neighbours [OF rep bh] d by auto
  moreover have "nx (unhash bh b) p = (if pv b bh \<noteq> NULL then (nx b)(pv b bh := nx b bh) else nx b) p"
    "pv (unhash bh b) p = (if nx b bh \<noteq> NULL then (pv b)(nx b bh := pv b bh) else pv b) p"
    by (rule fun_cong [OF unhash_hash(1)], rule fun_cong [OF unhash_hash(2)])
  ultimately show ?thesis by auto
qed

lemma unhash_rep:
  assumes rep: "hash_rep b S C" and bh: "bh \<in> S" and null: "NULL \<notin> S"
  shows "hash_rep (unhash bh b) (S - {bh}) (\<lambda>i. remove1 bh (C i))"
  unfolding hash_rep_def
proof (intro conjI allI impI ballI)
  let ?b = "unhash bh b" and ?d = "b_dev (heads b bh)"
  have bkt: "bucket ?b (S - {bh}) i = bucket b S i - {bh}" for i
    using bucket_payload [of "S - {bh}" ?b b i] by (auto simp: unhash_links bucket_def)
  have nb: "bh \<noteq> NULL" using bh null by auto
  fix i assume i: "i < NR_HASH"
  note r = hash_repD [OF rep i]
  show "distinct (remove1 bh (C i))" using r(2) by simp
  show "set (remove1 bh (C i)) = bucket ?b (S - {bh}) i" using r(2,3) bkt by simp
  show "chain (nx ?b) (pv ?b) NULL (remove1 bh (C i)) (hash_table ?b i)"
  proof (cases "?d = 0")
    case True
    then have "bh \<notin> set (C i)" using r(3) by (simp add: bucket_def)
    then show ?thesis using unhash_plain [OF rep bh nb True] r(1) by (simp add: remove1_idem)
  next
    case False
    let ?i = "head_hash (heads b bh)"
    note r0 = hash_repD [OF rep head_hash_less, of "heads b bh"]
    have "bh \<in> set (C ?i)" using r0(3) bh False by (simp add: bucket_def)
    then obtain as bs where C: "C ?i = as @ bh # bs" by (meson split_list)
    note e = chain_ends [OF r0(1) [unfolded C]]
    show ?thesis
    proof (cases "i = ?i")
      case True
      have "NULL \<notin> set (as @ bh # bs)" using chain_not_NULL r0(1) C by metis
      from chain_remove [OF r0(1) [unfolded C] r0(2) [unfolded C] this]
      have "chain (nx ?b) (pv ?b) NULL (as @ bs) (if hash_table b ?i = bh then nx b bh else hash_table b ?i)"
        unfolding unhash_hash .
      moreover have "remove1 bh (C i) = as @ bs" using True C r0(2) by (simp add: remove1_append)
      ultimately show ?thesis using True by (simp add: unhash_table split: if_splits)
    next
      case ne: False
      have dis: "set (C i) \<inter> set (C ?i) = {}" using r(3) r0(3) ne by (auto simp: bucket_def)
      have "NULL \<notin> set (C i)" using chain_not_NULL [OF r(1)] .
      then have "pv b bh \<notin> set (C i)" "nx b bh \<notin> set (C i)" using e dis C by auto
      then have "chain (nx ?b) (pv ?b) NULL (C i) (hash_table b i)"
        using r(1) unfolding unhash_hash by (cases "pv b bh = NULL"; cases "nx b bh = NULL") simp_all
      moreover have "bh \<notin> set (C i)" using dis C by auto
      ultimately show ?thesis using ne by (simp add: unhash_table remove1_idem)
    qed
  qed
next
  fix p assume p: "p \<in> S - {bh}" "b_dev (heads (unhash bh b) p) = 0"
  show "nx (unhash bh b) p = NULL" "pv (unhash bh b) p = NULL"
    using unhash_keeps_plain [OF rep bh null, of p] p by simp_all
qed


text \<open>Giving the head that is out of the queues a new device and block, and hashing it.\<close>

lemma set_key_rep:
  assumes rep: "hash_rep b (S - {bh}) C" and f: "\<And>h. b_next (f h) = b_next h \<and> b_prev (f h) = b_prev h"
  shows "hash_rep (upd_head bh f b) (S - {bh}) C"
proof -
  have "nx (upd_head bh f b) = nx b" "pv (upd_head bh f b) = pv b" using f by (auto simp: fun_eq_iff link_defs)
  moreover have "bucket (upd_head bh f b) (S - {bh}) i = bucket b (S - {bh}) i" for i
    by (auto simp: bucket_def)
  ultimately show ?thesis using rep unfolding hash_rep_def upd_head_simps(2) by auto
qed

lemma enhash_bucket:
  assumes "bh \<in> S" "b_dev (heads b bh) \<noteq> 0"
  shows "bucket (enhash bh b) S i =
    (if i = head_hash (heads b bh) then insert bh (bucket b (S - {bh}) i) else bucket b (S - {bh}) i)"
proof -
  have "bucket (enhash bh b) S i = bucket b S i" by (rule bucket_payload) (rule enhash_links(5))
  moreover have "bucket b S i =
      (if i = head_hash (heads b bh) then insert bh (bucket b (S - {bh}) i) else bucket b (S - {bh}) i)"
    using assms by (auto simp: bucket_def)
  ultimately show ?thesis by (rule trans)
qed

lemma enhash_rep:
  assumes rep: "hash_rep b (S - {bh}) C" and bh: "bh \<in> S" "bh \<noteq> NULL" and dev: "b_dev (heads b bh) \<noteq> 0"
  shows "hash_rep (enhash bh b) S (\<lambda>i. if i = head_hash (heads b bh) then bh # C i else C i)"
proof -
  let ?b = "enhash bh b" and ?i = "head_hash (heads b bh)"
  let ?f = "hash_table b ?i"
  note r0 = hash_repD [OF rep head_hash_less, of "heads b bh"]
  have notin: "bh \<notin> set (C i)" if "i < NR_HASH" for i
    using hash_repD(3) [OF rep that] by (simp add: bucket_def)
  have fC: "?f = NULL \<or> ?f \<in> set (C ?i)" using chain_head [OF r0(1)] by (cases "C ?i") simp_all
  have ne: "?f \<noteq> bh" using fC notin [OF head_hash_less] bh(2) by auto
  note e = enhash_hash [OF dev ne]
  note bkt = enhash_bucket [OF bh(1) dev]
  have chains: "chain (nx ?b) (pv ?b) NULL (if i = ?i then bh # C i else C i) (hash_table ?b i) \<and>
      distinct (if i = ?i then bh # C i else C i) \<and> set (if i = ?i then bh # C i else C i) = bucket ?b S i"
    if i: "i < NR_HASH" for i
  proof (cases "i = ?i")
    case True
    have "chain (nx b) (if ?f \<noteq> NULL then (pv b)(?f := bh) else pv b) bh (C ?i) ?f"
      using chain_upd_head [OF r0(1,2)] .
    moreover have "chain (nx ?b) (pv ?b) bh (C ?i) ?f =
        chain (nx b) (if ?f \<noteq> NULL then (pv b)(?f := bh) else pv b) bh (C ?i) ?f"
      using notin [OF head_hash_less] by (intro queue_chain_cong) (auto simp: e Let_def)
    ultimately have "chain (nx ?b) (pv ?b) bh (C ?i) ?f" by blast
    moreover have "pv ?b bh = NULL" "nx ?b bh = ?f" "hash_table ?b ?i = bh"
      using ne by (simp_all add: e Let_def)
    ultimately have "chain (nx ?b) (pv ?b) NULL (bh # C ?i) (hash_table ?b ?i)"
      unfolding chain.simps using bh(2) by (intro conjI) simp_all
    moreover have "distinct (bh # C ?i)" using r0(2) notin [OF head_hash_less] by simp
    moreover have "set (bh # C ?i) = bucket ?b S ?i" unfolding bkt using r0(3) by simp
    ultimately show ?thesis unfolding True if_P [OF refl] by (intro conjI)
  next
    case False
    note r = hash_repD [OF rep i]
    have "set (C i) \<inter> set (C ?i) = {}" unfolding r(3) r0(3) bucket_def using False by blast
    then have "?f \<notin> set (C i)"
      using fC chain_not_NULL [OF r(1)] by (elim disjE) (simp, simp only: disjoint_iff, metis)
    then have "chain (nx ?b) (pv ?b) NULL (C i) (hash_table b i)"
      using r(1) notin [OF i] unfolding e Let_def by (cases "?f = NULL") simp_all
    then show ?thesis using False r(2,3) bkt by (simp add: e(3))
  qed
  have "nx ?b p = NULL \<and> pv ?b p = NULL" if p: "p \<in> S" "b_dev (heads ?b p) = 0" for p
  proof -
    have d: "b_dev (heads b p) = 0" using p(2) enhash_links(5) [of bh b p] by (simp add: payload_def)
    then have "p \<noteq> bh" using dev by auto
    then have "nx b p = NULL" "pv b p = NULL" using hash_rep_plain [OF rep, of p] p(1) d by simp_all
    moreover have "?f = NULL \<or> p \<noteq> ?f" using fC r0(3) d by (auto simp: bucket_def)
    ultimately show ?thesis
      using \<open>p \<noteq> bh\<close> by (auto simp: e Let_def)
  qed
  then show ?thesis unfolding hash_rep_def using chains by (intro conjI allI impI ballI; simp only:)
qed


section \<open>Reusing a buffer\<close>

text \<open>\<open>claim_buffer\<close> as the composition of the four halves.\<close>

definition claim_mark :: "ptr \<Rightarrow> bstate \<Rightarrow> bstate" where
  "claim_mark bh b = upd_head bh (\<lambda>h. h\<lparr>b_count := 1, b_dirt := 0, b_uptodate := 0\<rparr>) b"

definition set_key :: "u32 \<Rightarrow> u32 \<Rightarrow> ptr \<Rightarrow> bstate \<Rightarrow> bstate" where
  "set_key dev block bh b = upd_head bh (\<lambda>h. h\<lparr>b_dev := ucast dev, b_blocknr := block\<rparr>) b"

definition claimed :: "u32 \<Rightarrow> u32 \<Rightarrow> ptr \<Rightarrow> bstate \<Rightarrow> bstate" where
  "claimed dev block bh b =
     enhash bh (enfree bh (set_key dev block bh (unfree bh (unhash bh (claim_mark bh b)))))"

lemma claim_mark_links:
  "nf (claim_mark bh b) = nf b" "pf (claim_mark bh b) = pf b" "nx (claim_mark bh b) = nx b"
  "pv (claim_mark bh b) = pv b" "free_list (claim_mark bh b) = free_list b"
  "hash_table (claim_mark bh b) = hash_table b" "bsched (claim_mark bh b) = bsched b"
  by (auto simp: claim_mark_def fun_eq_iff link_defs)

lemma set_key_links:
  "nf (set_key d k bh b) = nf b" "pf (set_key d k bh b) = pf b" "nx (set_key d k bh b) = nx b"
  "pv (set_key d k bh b) = pv b" "free_list (set_key d k bh b) = free_list b"
  "hash_table (set_key d k bh b) = hash_table b" "bsched (set_key d k bh b) = bsched b"
  by (auto simp: set_key_def fun_eq_iff link_defs)

lemma claim_buffer_eq:
  assumes "pf b bh \<noteq> NULL"
  shows "claim_buffer dev block bh b = Inr (claimed dev block bh b)"
proof -
  have "pf (unhash bh (claim_mark bh b)) bh \<noteq> NULL"
    using assms fun_cong [OF unhash_links(2)] claim_mark_links(2) by metis
  then show ?thesis
    by (simp add: claim_buffer_def claim_mark_def [symmetric] remove_split insert_into_queues_def claimed_def
        set_key_def)
qed

lemma claimed_payload:
  "payload (heads (claimed dev block bh b) x) =
     (if x = bh then payload ((heads b bh)\<lparr>b_count := 1, b_dirt := 0, b_uptodate := 0, b_dev := ucast dev,
                                 b_blocknr := block\<rparr>)
      else payload (heads b x))"
  by (simp add: claimed_def enhash_links enfree_links set_key_def unfree_links unhash_links)
    (use unfree_links(5) [of bh "unhash bh (claim_mark bh b)" bh] unhash_links(5) [of bh "claim_mark bh b" bh]
        unfree_links(5) [of bh "unhash bh (claim_mark bh b)" x] unhash_links(5) [of bh "claim_mark bh b" x] in
      \<open>auto simp: payload_def claim_mark_def\<close>)

lemma claimed_links:
  defines "c \<equiv> \<lambda>dev block bh b. claimed dev block bh b"
  assumes fl: "fl = (if free_list b = bh then nf b bh else free_list b)"
    and n: "n = (nf b)(pf b bh := nf b bh)" and p: "p = (pf b)(nf b bh := pf b bh)"
  shows "nf (c dev block bh b) = n(bh := fl, p fl := bh)"
    "pf (c dev block bh b) = p(bh := p fl, fl := bh)" "free_list (c dev block bh b) = fl"
    "bsched (c dev block bh b) = bsched b"
  unfolding c_def claimed_def enhash_links enfree_ring enfree_links set_key_links unfree_ring unfree_links
    unhash_links claim_mark_links
  by (simp_all only: fl n p unfree_ring unhash_links claim_mark_links)

lemma claimed_ring:
  assumes r: "ring_rep b xs" and bh: "bh \<in> set xs"
  shows "ring_rep (claimed dev block bh b) (remove1 bh xs @ [bh])"
proof -
  have ring: "ring (nf b) (pf b) xs" "hd xs = free_list b" "NULL \<notin> set xs"
    using r by (simp_all add: ring_rep_def)
  then have dist: "distinct xs" by (simp add: ring_def)
  obtain as bs where xs: "xs = as @ bh # bs" using bh by (meson split_list)
  have rm: "remove1 bh xs = as @ bs" using xs dist by (simp add: remove1_append)
  define fl where "fl = (if free_list b = bh then nf b bh else free_list b)"
  define n where "n = (nf b)(pf b bh := nf b bh)"
  define p where "p = (pf b)(nf b bh := pf b bh)"
  note links = claimed_links [OF fl_def n_def p_def, of dev block]
  have "ring (n(bh := fl, p fl := bh)) (p(bh := p fl, fl := bh)) (as @ bs @ [bh]) \<and> hd (as @ bs @ [bh]) = fl"
  proof (cases "as @ bs")
    case Nil
    then have "nf b bh = bh" "pf b bh = bh" "free_list b = bh" using ring(1,2) xs by (simp_all add: ring_def)
    then show ?thesis using Nil by (simp add: ring_def fl_def n_def p_def)
  next
    case (Cons y zs)
    have r': "ring n p (y # zs)"
      using ring_remove [OF ring(1) [unfolded xs]] Cons unfolding n_def p_def by simp
    have "fl = y"
    proof (cases as)
      case Nil
      then have "nf b bh = y" using ring(1) xs Cons by (simp add: ring_def)
      then show ?thesis using ring(2) xs Nil by (simp add: fl_def)
    next
      case (Cons a as')
      then have "free_list b = a" "a \<noteq> bh" using ring(2) dist xs by auto
      then show ?thesis using Cons \<open>as @ bs = y # zs\<close> by (simp add: fl_def)
    qed
    moreover have "bh \<notin> set (as @ bs)" using dist xs by simp
    then have "bh \<notin> set (y # zs)" unfolding Cons .
    from ring_insert_end [OF r' this] have "ring (n(bh := y, p y := bh)) (p(bh := p y, y := bh)) ((as @ bs) @ [bh])"
      unfolding Cons by simp
    moreover have "hd ((as @ bs) @ [bh]) = y" unfolding Cons by simp
    ultimately show ?thesis unfolding append_assoc by simp
  qed
  then show ?thesis
    using ring(3) xs unfolding ring_rep_def links rm by auto
qed

lemma claimed_hash:
  assumes rep: "hash_rep b S C" and bh: "bh \<in> S" "NULL \<notin> S" and dev: "ucast dev \<noteq> (0 :: u16)"
  shows "hash_rep (claimed dev block bh b) S
    (\<lambda>i. if i = head_hash (heads (claimed dev block bh b) bh) then bh # remove1 bh (C i) else remove1 bh (C i))"
proof -
  let ?b1 = "set_key dev block bh (unfree bh (unhash bh (claim_mark bh b)))"
  have "bucket (claim_mark bh b) S i = bucket b S i" for i
    by (auto simp: bucket_def claim_mark_def head_hash_def)
  moreover have "b_dev (heads (claim_mark bh b) p) = b_dev (heads b p)" for p by (simp add: claim_mark_def)
  ultimately have "hash_rep (claim_mark bh b) S C"
    using rep unfolding hash_rep_def claim_mark_links by simp
  from unfree_rep [OF unhash_rep [OF this bh]]
  have "hash_rep (unfree bh (unhash bh (claim_mark bh b))) (S - {bh}) (\<lambda>i. remove1 bh (C i))" .
  then have "hash_rep ?b1 (S - {bh}) (\<lambda>i. remove1 bh (C i))"
    unfolding set_key_def by (rule set_key_rep) simp
  then have "hash_rep (enfree bh ?b1) (S - {bh}) (\<lambda>i. remove1 bh (C i))" by (rule enfree_rep)
  moreover have "bh \<noteq> NULL" using bh by auto
  moreover have k: "b_dev (heads (enfree bh ?b1) bh) = ucast dev"
    using enfree_links(5) [of bh ?b1 bh] by (simp add: payload_def set_key_def)
  ultimately have "hash_rep (claimed dev block bh b) S
      (\<lambda>i. if i = head_hash (heads (enfree bh ?b1) bh) then bh # remove1 bh (C i) else remove1 bh (C i))"
    unfolding claimed_def using bh(1) dev by (intro enhash_rep) simp_all
  moreover have "head_hash (heads (claimed dev block bh b) bh) = head_hash (heads (enfree bh ?b1) bh)"
    unfolding claimed_def by (rule head_hash_payload, rule enhash_links(5))
  ultimately show ?thesis by simp
qed

lemma claimed_keys:
  assumes u: "keys_unique b S" and bh: "bh \<in> S" and dev: "ucast dev \<noteq> (0 :: u16)"
    and new: "\<And>q. q \<in> S \<Longrightarrow> head_key (heads b q) \<noteq> (ucast dev, block)"
  shows "keys_unique (claimed dev block bh b) S"
proof -
  have k: "head_key (heads (claimed dev block bh b) q) = (if q = bh then (ucast dev, block) else head_key (heads b q))"
    and d: "b_dev (heads (claimed dev block bh b) q) = (if q = bh then ucast dev else b_dev (heads b q))" for q
    using claimed_payload [of dev block bh b q] by (auto simp: payload_def head_key_def split: if_splits)
  show ?thesis
    unfolding keys_unique_def k d
  proof (intro ballI impI)
    fix p q assume pq: "p \<in> S" "q \<in> S" "(if p = bh then ucast dev else b_dev (heads b p)) \<noteq> 0"
      "(if p = bh then (ucast dev, block) else head_key (heads b p)) =
       (if q = bh then (ucast dev, block) else head_key (heads b q))"
    show "p = q"
    proof (cases "p = bh \<or> q = bh")
      case True
      then show ?thesis using pq new [of p] new [of q] by (auto split: if_splits)
    next
      case False
      then have "b_dev (heads b p) \<noteq> 0" "head_key (heads b p) = head_key (heads b q)" using pq by simp_all
      then show ?thesis using u pq(1,2) unfolding keys_unique_def by blast
    qed
  qed
qed

section \<open>Lookup\<close>

definition ptr_of :: "ptr option \<Rightarrow> ptr" where
  "ptr_of v = (case v of None \<Rightarrow> NULL | Some p \<Rightarrow> p)"

lemma find_chain_find:
  assumes "chain (nx b) (pv b) v xs h"
  shows "find_chain dev block b h =
    Some (ptr_of (find (\<lambda>p. ucast (b_dev (heads b p)) = dev \<and> b_blocknr (heads b p) = block) xs))"
  using assms
proof (induction xs arbitrary: v h)
  case Nil
  then show ?case by (simp add: find_chain.simps ptr_of_def)
next
  case (Cons x xs)
  then have h: "h = x" "x \<noteq> NULL" "chain (nx b) (pv b) x xs (nx b x)" by simp_all
  show ?case
    using Cons.IH [OF h(3)] h(1,2) by (subst find_chain.simps) (simp add: ptr_of_def nx_def)
qed

text \<open>The cached blocks as a map: the buffer of a block is the head with its device and number.\<close>

definition cached :: "bstate \<Rightarrow> ptr list \<Rightarrow> u16 \<times> u32 \<Rightarrow> ptr option" where
  "cached b xs k = (if fst k = 0 then None else find (\<lambda>p. head_key (heads b p) = k) xs)"

lemma find_unique:
  assumes "p \<in> set xs" and "P p" and "\<And>q. q \<in> set xs \<Longrightarrow> P q \<Longrightarrow> q = p"
  shows "find P xs = Some p"
proof -
  have "find P xs \<noteq> None" using assms(1,2) by (auto simp: find_None_iff)
  then obtain q where "find P xs = Some q" by auto
  then show ?thesis using find_SomeD [of P xs q] assms(3) by auto
qed

lemma cached_Some:
  assumes "keys_unique b (set xs)"
  shows "cached b xs k = Some p \<longleftrightarrow> fst k \<noteq> 0 \<and> p \<in> set xs \<and> head_key (heads b p) = k"
proof
  assume "cached b xs k = Some p"
  then show "fst k \<noteq> 0 \<and> p \<in> set xs \<and> head_key (heads b p) = k"
    using find_SomeD [of "\<lambda>p. head_key (heads b p) = k" xs p] by (auto simp: cached_def split: if_splits)
next
  assume a: "fst k \<noteq> 0 \<and> p \<in> set xs \<and> head_key (heads b p) = k"
  then have "b_dev (heads b p) \<noteq> 0" by (auto simp: head_key_def)
  then have "find (\<lambda>p. head_key (heads b p) = k) xs = Some p"
    using assms a by (intro find_unique) (auto simp: keys_unique_def)
  then show "cached b xs k = Some p" using a by (simp add: cached_def)
qed

lemma cached_None:
  "cached b xs k = None \<longleftrightarrow> fst k = 0 \<or> (\<forall>p \<in> set xs. head_key (heads b p) \<noteq> k)"
  by (auto simp: cached_def find_None_iff)

lemma head_hash_key: "head_key h = (d, k) \<Longrightarrow> head_hash h = hashfn (ucast d) k"
  by (auto simp: head_key_def head_hash_def)

lemma u16_ucast_inj: "(ucast (d :: u16) :: u32) = ucast d' \<longleftrightarrow> d = d'"
proof
  assume "(ucast d :: u32) = ucast d'"
  moreover have "unat (ucast x :: u32) = unat x" for x :: u16
    using unsigned_less [of x, where ?'a = nat] unfolding unsigned_ucast_eq by (intro take_bit_nat_eq_self) simp
  ultimately have "unat d = unat d'" by metis
  then show "d = d'" by (rule unsigned_word_eqI)
qed simp

lemma find_buffer_cached:
  assumes "cache_ok b xs C"
  shows "find_buffer (ucast d) k b = Some (ptr_of (cached b xs (d, k)))"
proof -
  let ?i = "hashfn (ucast d) k" and ?P = "\<lambda>p. ucast (b_dev (heads b p)) = (ucast d :: u32) \<and> b_blocknr (heads b p) = k"
  have rep: "hash_rep b (set xs) C" "keys_unique b (set xs)" using assms by (simp_all add: cache_ok_def)
  have "?i < NR_HASH" using head_hash_less by (simp add: hashfn_def unat_mod)
  note r = hash_repD [OF rep(1) this]
  have P: "?P p \<longleftrightarrow> head_key (heads b p) = (d, k)" for p by (auto simp: head_key_def u16_ucast_inj)
  have mem: "p \<in> set (C ?i) \<longleftrightarrow> p \<in> set xs \<and> d \<noteq> 0" if "head_key (heads b p) = (d, k)" for p
    unfolding r(3) bucket_def using head_hash_key [OF that] that by (auto simp: head_key_def)
  have "find ?P (C ?i) = cached b xs (d, k)"
  proof (cases "cached b xs (d, k)")
    case None
    then have "p \<in> set (C ?i) \<Longrightarrow> \<not> ?P p" for p using mem [of p] unfolding P cached_None by auto
    then have "find ?P (C ?i) = None" unfolding find_None_iff by blast
    then show ?thesis using None by simp
  next
    case (Some p)
    then have p: "d \<noteq> 0" "p \<in> set xs" "head_key (heads b p) = (d, k)" using cached_Some [OF rep(2)] by auto
    have "find ?P (C ?i) = Some p"
    proof (rule find_unique)
      fix q assume "q \<in> set (C ?i)" "?P q"
      then show "q = p"
        using mem [of q] Some cached_Some [OF rep(2), of "(d, k)" q] unfolding P by simp
    qed (use p mem [of p] in \<open>simp_all add: P\<close>)
    then show ?thesis using Some by simp
  qed
  then show ?thesis unfolding find_buffer_def find_chain_find [OF r(1)] by simp
qed

section \<open>The choice of a victim\<close>

text \<open>The search over the ring as a search over a list.\<close>

fun scan_list :: "bstate \<Rightarrow> ptr list \<Rightarrow> ptr \<Rightarrow> ptr" where
  "scan_list b [] best = best"
| "scan_list b (t # ts) best =
     (if b_count (heads b t) = 0 \<and> (best = NULL \<or> BADNESS (heads b t) < BADNESS (heads b best))
      then if BADNESS (heads b t) = 0 then t else scan_list b ts t
      else scan_list b ts best)"

lemma scan_free_list:
  assumes "links (nf b) (pf b) (ys @ [free_list b])" and "ys \<noteq> []" and "free_list b \<notin> set (tl ys)"
  shows "scan_free b (hd ys) best = Some (scan_list b ys best)"
  using assms
proof (induction ys arbitrary: best)
  case (Cons y ys)
  show ?case
  proof (cases ys)
    case Nil
    then have "b_next_free (heads b y) = free_list b" using Cons.prems by (simp add: nf_def)
    then show ?thesis using Nil by (subst scan_free.simps) (auto simp: Let_def)
  next
    case (Cons z zs)
    then have n: "b_next_free (heads b y) = z" using Cons.prems by (simp add: nf_def)
    have l: "links (nf b) (pf b) (ys @ [free_list b])" using Cons Cons.prems by simp
    have z: "z \<noteq> free_list b" "free_list b \<notin> set (tl ys)" using Cons Cons.prems by auto
    have "scan_free b z best' = Some (scan_list b ys best')" for best'
      using Cons.IH [OF l _ z(2), of best'] Cons by simp
    then show ?thesis using n z(1) by (subst scan_free.simps) (auto simp: Let_def)
  qed
qed simp

lemma scan_free_ring:
  assumes "ring_rep b xs"
  shows "scan_free b (free_list b) NULL = Some (scan_list b xs NULL)"
proof -
  have "xs \<noteq> []" "hd xs = free_list b" "distinct xs" "links (nf b) (pf b) (xs @ [free_list b])"
    using assms by (auto simp: ring_rep_def ring_def)
  then show ?thesis using scan_free_list [of b xs NULL] by (cases xs) auto
qed

text \<open>The result: the first of the least bad unused buffers.\<close>

definition unused :: "bstate \<Rightarrow> ptr \<Rightarrow> bool" where
  "unused b p \<longleftrightarrow> b_count (heads b p) = 0"

definition best_of :: "bstate \<Rightarrow> ptr list \<Rightarrow> ptr \<Rightarrow> bool" where
  "best_of b xs p \<longleftrightarrow>
     (\<exists>as bs. xs = as @ p # bs \<and> unused b p \<and>
        (\<forall>q \<in> set as. unused b q \<longrightarrow> BADNESS (heads b p) < BADNESS (heads b q)) \<and>
        (\<forall>q \<in> set bs. unused b q \<longrightarrow> BADNESS (heads b p) \<le> BADNESS (heads b q)))"

lemma best_ofD: "best_of b xs p \<Longrightarrow> p \<in> set xs" "best_of b xs p \<Longrightarrow> unused b p"
  by (auto simp: best_of_def)

lemma scan_list_step:
  assumes "best_of b zs p" and "NULL \<notin> set (zs @ ts)"
  shows "best_of b (zs @ ts) (scan_list b ts p)"
  using assms
proof (induction ts arbitrary: zs p)
  case (Cons t ts)
  let ?B = "\<lambda>q. BADNESS (heads b q)"
  obtain as bs where z: "zs = as @ p # bs" "unused b p" "\<forall>q \<in> set as. unused b q \<longrightarrow> ?B p < ?B q"
    "\<forall>q \<in> set bs. unused b q \<longrightarrow> ?B p \<le> ?B q" using Cons.prems(1) unfolding best_of_def by blast
  have p: "p \<noteq> NULL" using z(1) Cons.prems(2) by auto
  have better: "best_of b (zs @ t # us) t"
    if t: "unused b t" "?B t < ?B p" "\<forall>q \<in> set us. unused b q \<longrightarrow> ?B t \<le> ?B q" for us
  proof -
    have "unused b q \<longrightarrow> ?B t < ?B q" if "q \<in> set zs" for q
      using that z t(2) by fastforce
    then show ?thesis unfolding best_of_def using t(1,3) by blast
  qed
  have keep: "best_of b (zs @ [t]) p" if "\<not> (unused b t \<and> ?B t < ?B p)"
    unfolding best_of_def using z that by (intro exI [of _ as] exI [of _ "bs @ [t]"]) auto
  consider "unused b t \<and> ?B t < ?B p \<and> ?B t = 0" | "unused b t \<and> ?B t < ?B p \<and> ?B t \<noteq> 0"
    | "\<not> (unused b t \<and> ?B t < ?B p)" by blast
  then show ?case
  proof cases
    case 1
    then show ?thesis using p better [of ts] by (simp add: unused_def)
  next
    case 2
    then have "best_of b (zs @ [t]) t" using better [of "[]"] by simp
    from Cons.IH [OF this] Cons.prems(2) show ?thesis using 2 p by (simp add: unused_def)
  next
    case 3
    from Cons.IH [OF keep [OF 3]] Cons.prems(2) show ?thesis using 3 p by (auto simp: unused_def)
  qed
qed simp

lemma scan_list_none:
  "NULL \<notin> set xs \<Longrightarrow> (\<And>p. p \<in> set us \<Longrightarrow> \<not> unused b p) \<Longrightarrow> scan_list b (us @ xs) NULL = scan_list b xs NULL"
  by (induction us) (auto simp: unused_def)

lemma scan_list_best:
  assumes "NULL \<notin> set xs"
  shows "if \<exists>p \<in> set xs. unused b p then best_of b xs (scan_list b xs NULL) else scan_list b xs NULL = NULL"
proof (cases "\<exists>p \<in> set xs. unused b p")
  case True
  then obtain us t ts where xs: "xs = us @ t # ts" "unused b t" "\<forall>p \<in> set us. \<not> unused b p"
    using split_list_first_prop by metis
  then have s: "scan_list b xs NULL = scan_list b (t # ts) NULL" using assms scan_list_none [of "t # ts" us b] by simp
  show ?thesis
  proof (cases "BADNESS (heads b t) = 0")
    case True
    then have "scan_list b (t # ts) NULL = t" using xs(2) by (simp add: unused_def)
    moreover have "best_of b xs t" unfolding best_of_def using xs True
      by (intro exI [of _ us] exI [of _ ts]) auto
    ultimately show ?thesis using s \<open>\<exists>p \<in> set xs. unused b p\<close> by simp
  next
    case False
    have "best_of b (us @ [t]) t" unfolding best_of_def using xs by (intro exI [of _ us] exI [of _ "[]"]) auto
    then have "best_of b ((us @ [t]) @ ts) (scan_list b ts t)" using assms xs by (intro scan_list_step) simp_all
    moreover have "scan_list b (t # ts) NULL = scan_list b ts t" using False xs(2) by (simp add: unused_def)
    ultimately show ?thesis using s xs(1) \<open>\<exists>p \<in> set xs. unused b p\<close> by simp
  qed
next
  case False
  then show ?thesis using scan_list_none [of "[]" xs b] by simp
qed

section \<open>\<^verbatim>\<open>getblk\<close> over the invariant\<close>

lemma wait_on_buffer_unlocked [simp]:
  "b_lock (heads b bh) = 0 \<Longrightarrow> wait_on_buffer bh b = Some (Inr (Unlocked b))"
  by (subst wait_on_buffer.simps) simp

definition take_ref :: "ptr \<Rightarrow> bstate \<Rightarrow> bstate" where
  "take_ref p b = upd_head p (\<lambda>h. h\<lparr>b_count := b_count h + 1\<rparr>) b"

lemma take_ref_ok:
  assumes "cache_ok b xs C"
  shows "cache_ok (take_ref p b) xs C"
proof -
  have l: "nf (take_ref p b) = nf b" "pf (take_ref p b) = pf b" "nx (take_ref p b) = nx b" "pv (take_ref p b) = pv b"
    "free_list (take_ref p b) = free_list b" "hash_table (take_ref p b) = hash_table b"
    by (auto simp: take_ref_def link_defs)
  have k: "b_dev (heads (take_ref p b) q) = b_dev (heads b q)" "head_key (heads (take_ref p b) q) = head_key (heads b q)"
    "head_hash (heads (take_ref p b) q) = head_hash (heads b q)" for q
    by (auto simp: take_ref_def head_key_def head_hash_def)
  show ?thesis
    using assms unfolding cache_ok_def ring_rep_def hash_rep_def keys_unique_def bucket_def l k .
qed

lemma cache_okD:
  assumes "cache_ok b xs C"
  shows "ring_rep b xs" "hash_rep b (set xs) C" "keys_unique b (set xs)" "NULL \<notin> set xs" "distinct xs" "xs \<noteq> []"
  using assms by (auto simp: cache_ok_def ring_rep_def ring_def)

lemma get_hash_table_hit:
  assumes "cache_ok b xs C" and "cached b xs (d, k) = Some p" and "b_lock (heads b p) = 0"
  shows "get_hash_table (ucast d) k b = Some (Inr (Ght_done p (take_ref p b)))"
proof -
  have p: "p \<in> set xs" "head_key (heads b p) = (d, k)"
    using cached_Some [OF cache_okD(3) [OF assms(1)]] assms(2) by auto
  then have "p \<noteq> NULL" "ucast (b_dev (heads b p)) = (ucast d :: u32)" "b_blocknr (heads b p) = k"
    using cache_okD(4) [OF assms(1)] by (auto simp: head_key_def)
  moreover have "find_buffer (ucast d) k b = Some p"
    using find_buffer_cached [OF assms(1)] assms(2) by (simp add: ptr_of_def)
  ultimately show ?thesis using assms(3) by (subst get_hash_table.simps) (simp add: take_ref_def)
qed

lemma get_hash_table_miss:
  assumes "cache_ok b xs C" and "cached b xs (d, k) = None"
  shows "get_hash_table (ucast d) k b = Some (Inr (Ght_done NULL b))"
  using find_buffer_cached [OF assms(1), of d k] assms(2)
  by (subst get_hash_table.simps) (simp add: ptr_of_def)

lemma getblk_hit:
  assumes "cache_ok b xs C" and "cached b xs (d, k) = Some p" and "b_lock (heads b p) = 0"
  shows "getblk (ucast d) k b = Some (Inr (Gb_done p (take_ref p b)))"
proof -
  have "p \<in> set xs" using cached_Some [OF cache_okD(3) [OF assms(1)]] assms(2) by auto
  then have "p \<noteq> NULL" using cache_okD(4) [OF assms(1)] by auto
  then show ?thesis
    unfolding getblk_def
    by (subst getblk_from.simps, simp add: get_hash_table_hit [OF assms])
      (subst getblk_from.simps, simp)
qed

lemma getblk_miss_top:
  assumes "cache_ok b xs C" and "cached b xs (d, k) = None"
  shows "getblk_from At_top (ucast d) k b = getblk_from (At_hash NULL) (ucast d) k b"
  by (subst getblk_from.simps) (simp add: get_hash_table_miss [OF assms])

lemma getblk_miss_scan:
  assumes "cache_ok b xs C" and "cached b xs (d, k) = None" and "\<exists>p \<in> set xs. unused b p"
  defines "v \<equiv> scan_list b xs NULL"
  shows "getblk (ucast d) k b =
    (case wait_on_buffer v b of
       None \<Rightarrow> None
     | Some (Inl e) \<Rightarrow> Some (Inl e)
     | Some (Inr (Waits tmp b)) \<Rightarrow> Some (Inr (Gb_locked v tmp b))
     | Some (Inr (Unlocked b)) \<Rightarrow> getblk_from (At_unlocked v) (ucast d) k b)"
proof -
  have "best_of b xs v" using scan_list_best [OF cache_okD(4) [OF assms(1)], of b] assms(3) v_def by simp
  then have "v \<in> set xs" by (auto simp: best_of_def)
  then have "v \<noteq> NULL" using cache_okD(4) [OF assms(1)] by auto
  then show ?thesis
    unfolding getblk_def getblk_miss_top [OF assms(1,2)]
    by (subst getblk_from.simps) (simp add: scan_free_ring [OF cache_okD(1) [OF assms(1)]] v_def [symmetric]
        split: sum.splits option.splits)
qed

lemma ring_pf_not_NULL:
  assumes "ring_rep b xs" and "p \<in> set xs"
  shows "pf b p \<noteq> NULL"
proof -
  have r: "ring (nf b) (pf b) xs" "NULL \<notin> set xs" using assms by (simp_all add: ring_rep_def)
  obtain as bs where xs: "xs = as @ p # bs" using assms(2) by (meson split_list)
  have "ring (nf b) (pf b) (p # bs @ as)" using ring_rotate [of "nf b" "pf b" as "p # bs"] r(1) xs by simp
  from ring_prev_hd(1) [OF this] have "pf b p = last (p # bs @ as)" .
  then have "pf b p \<in> set (p # bs @ as)" using last_in_set [of "p # bs @ as"] by simp
  then show ?thesis using r(2) xs by auto
qed

lemma ucast_u16_u32 [simp]: "ucast (ucast (d :: u16) :: u32) = d"
  by transfer simp

text \<open>A buffer that \<^verbatim>\<open>getblk\<close> can hand out at once.\<close>

definition clean :: "bstate \<Rightarrow> ptr \<Rightarrow> bool" where
  "clean b p \<longleftrightarrow> b_count (heads b p) = 0 \<and> b_dirt (heads b p) = 0 \<and> b_lock (heads b p) = 0"

lemma clean_BADNESS: "clean b p \<longleftrightarrow> unused b p \<and> BADNESS (heads b p) = 0"
  by (auto simp: clean_def unused_def BADNESS_def unsigned_eq_0_iff)

lemma scan_clean:
  assumes "NULL \<notin> set xs" and "\<exists>p \<in> set xs. clean b p"
  shows "scan_list b xs NULL \<in> set xs" "clean b (scan_list b xs NULL)"
proof -
  let ?v = "scan_list b xs NULL"
  obtain q where q: "q \<in> set xs" "unused b q" "BADNESS (heads b q) = 0" using assms(2) clean_BADNESS by auto
  then have "\<exists>p \<in> set xs. unused b p" by blast
  then have "best_of b xs ?v" using scan_list_best [OF assms(1), of b] by simp
  then obtain as bs where v: "xs = as @ ?v # bs" "unused b ?v"
    "\<forall>q \<in> set as. unused b q \<longrightarrow> BADNESS (heads b ?v) < BADNESS (heads b q)"
    "\<forall>q \<in> set bs. unused b q \<longrightarrow> BADNESS (heads b ?v) \<le> BADNESS (heads b q)" unfolding best_of_def by blast
  have "q \<in> set as \<or> q = ?v \<or> q \<in> set bs" using q(1) v(1) by (metis Un_iff set_ConsD set_append)
  then have "BADNESS (heads b ?v) = 0" using v(3,4) q(2,3) by auto
  then show "clean b ?v" using v(2) clean_BADNESS by blast
  show "?v \<in> set xs" using v(1) by (metis in_set_conv_decomp)
qed

lemma claimed_ok:
  assumes ok: "cache_ok b xs C" and v: "v \<in> set xs" and d: "d \<noteq> 0" and n: "cached b xs (d, k) = None"
  shows "\<exists>C'. cache_ok (claimed (ucast d) k v b) (remove1 v xs @ [v]) C'"
proof -
  let ?b = "claimed (ucast d) k v b"
  note c = cache_okD [OF ok]
  have S: "set (remove1 v xs @ [v]) = set xs" using c(5) v by auto
  have "head_key (heads b q) \<noteq> (ucast (ucast d :: u32), k)" if "q \<in> set xs" for q
    using n d that by (simp add: cached_None)
  then have "keys_unique ?b (set xs)" using c(3) v d by (intro claimed_keys) simp_all
  moreover note claimed_ring [OF c(1) v, of "ucast d" k]
  moreover have "ucast (ucast d :: u32) \<noteq> (0 :: u16)" using d by simp
  note claimed_hash [OF c(2) v c(4) this, of k]
  ultimately show ?thesis unfolding cache_ok_def S by blast
qed

lemma claimed_head_key:
  "head_key (heads (claimed dev block v b) q) = (if q = v then (ucast dev, block) else head_key (heads b q))"
  using claimed_payload [of dev block v b q] by (auto simp: payload_def head_key_def split: if_splits)

lemma claimed_clean:
  "clean (claimed dev block v b) q \<longleftrightarrow> q \<noteq> v \<and> clean b q"
  using claimed_payload [of dev block v b q] by (auto simp: payload_def clean_def split: if_splits)

lemma getblk_miss:
  assumes ok: "cache_ok b xs C" and n: "cached b xs (d, k) = None" and room: "\<exists>p \<in> set xs. clean b p"
  defines "v \<equiv> scan_list b xs NULL"
  shows "getblk (ucast d) k b = Some (Inr (Gb_done v (claimed (ucast d) k v b)))"
proof -
  note c = cache_okD [OF ok]
  have v: "v \<in> set xs" "clean b v" using scan_clean [OF c(4) room] v_def by simp_all
  have "\<exists>p \<in> set xs. unused b p" using room clean_BADNESS by auto
  from getblk_miss_scan [OF ok n this]
  have "getblk (ucast d) k b = getblk_from (At_unlocked v) (ucast d) k b"
    using v(2) by (simp add: v_def [symmetric] clean_def)
  also have "\<dots> = Some (Inr (Gb_done v (claimed (ucast d) k v b)))"
    using v(2) find_buffer_cached [OF ok, of d k] n claim_buffer_eq [OF ring_pf_not_NULL [OF c(1) v(1)]]
    by (subst getblk_from.simps) (simp add: clean_def ptr_of_def)
  finally show ?thesis .
qed

text \<open>Nothing else of a buffer changes, and no other buffer but in its links.\<close>

section \<open>The interface of the cache\<close>

text \<open>
  What a user of the cache relies on: a block is found where it was put, reusing a buffer forgets
  only the block it held, and two blocks never share a buffer.  \<open>claims\<close> puts the blocks of a list
  one after the other into the given buffers.
\<close>

locale block_cache =
  fixes inv :: "'s \<Rightarrow> bool" and lookup :: "'s \<Rightarrow> 'k \<Rightarrow> 'p option" and claim :: "'k \<Rightarrow> 'p \<Rightarrow> 's \<Rightarrow> 's"
    and room :: "'s \<Rightarrow> 'p set" and valid :: "'k \<Rightarrow> bool"
  assumes inv_claim: "inv s \<Longrightarrow> valid k \<Longrightarrow> lookup s k = None \<Longrightarrow> v \<in> room s \<Longrightarrow> inv (claim k v s)"
    and room_claim: "inv s \<Longrightarrow> v \<in> room s \<Longrightarrow> room (claim k v s) = room s - {v}"
    and lookup_claim: "inv s \<Longrightarrow> valid k \<Longrightarrow> lookup s k = None \<Longrightarrow> v \<in> room s \<Longrightarrow>
      lookup (claim k v s) k' = (if k' = k then Some v else if lookup s k' = Some v then None else lookup s k')"
    and lookup_inj: "inv s \<Longrightarrow> lookup s k = Some v \<Longrightarrow> lookup s k' = Some v \<Longrightarrow> k = k'"
begin

fun claims :: "('k \<times> 'p) list \<Rightarrow> 's \<Rightarrow> 's" where
  "claims [] s = s"
| "claims ((k, v) # kvs) s = claims kvs (claim k v s)"

definition ready :: "('k \<times> 'p) list \<Rightarrow> 's \<Rightarrow> bool" where
  "ready kvs s \<longleftrightarrow> inv s \<and> distinct (map fst kvs) \<and> distinct (map snd kvs) \<and>
     (\<forall>(k, v) \<in> set kvs. valid k \<and> lookup s k = None \<and> v \<in> room s)"

lemma ready_step:
  assumes "ready ((k, v) # kvs) s"
  shows "ready kvs (claim k v s)"
proof -
  have r: "inv s" "valid k" "lookup s k = None" "v \<in> room s" using assms by (auto simp: ready_def)
  have "valid k' \<and> lookup (claim k v s) k' = None \<and> v' \<in> room (claim k v s)" if kv: "(k', v') \<in> set kvs" for k' v'
  proof -
    have "k' \<noteq> k" "v' \<noteq> v" using assms kv by (auto simp: ready_def image_iff)
    moreover have "valid k'" "lookup s k' = None" "v' \<in> room s" using assms kv by (auto simp: ready_def)
    ultimately show ?thesis using lookup_claim [OF r] room_claim [OF r(1,4)] by simp
  qed
  then show ?thesis using inv_claim [OF r] assms by (auto simp: ready_def)
qed

lemma claims_inv: "ready kvs s \<Longrightarrow> inv (claims kvs s)"
proof (induction kvs arbitrary: s)
  case (Cons kv kvs)
  then show ?case using ready_step by (cases kv) auto
qed (simp add: ready_def)

lemma claims_keep:
  "ready kvs s \<Longrightarrow> lookup s k = Some v \<Longrightarrow> v \<notin> snd ` set kvs \<Longrightarrow> lookup (claims kvs s) k = Some v"
proof (induction kvs arbitrary: s)
  case (Cons kv kvs)
  obtain k' v' where kv: "kv = (k', v')" by (cases kv)
  have "inv s" "valid k'" "lookup s k' = None" "v' \<in> room s" using Cons.prems(1) kv by (auto simp: ready_def)
  note l = lookup_claim [OF this, of k]
  have "k \<noteq> k'" using Cons.prems(2) \<open>lookup s k' = None\<close> by auto
  then have "lookup (claim k' v' s) k = Some v" using l Cons.prems(2,3) kv by auto
  then show ?case using Cons.IH ready_step Cons.prems kv by auto
qed simp

lemma claims_found: "ready kvs s \<Longrightarrow> (k, v) \<in> set kvs \<Longrightarrow> lookup (claims kvs s) k = Some v"
proof (induction kvs arbitrary: s)
  case (Cons kv kvs)
  obtain k' v' where kv: "kv = (k', v')" by (cases kv)
  have r: "ready kvs (claim k' v' s)" using ready_step Cons.prems(1) kv by simp
  show ?case
  proof (cases "(k, v) = kv")
    case True
    have "inv s" "valid k" "lookup s k = None" "v \<in> room s" using Cons.prems by (auto simp: ready_def)
    then have "lookup (claim k v s) k = Some v" using lookup_claim by simp
    moreover have "v \<notin> snd ` set kvs" using Cons.prems(1) True [symmetric] by (simp add: ready_def)
    ultimately show ?thesis using claims_keep r True kv by simp
  next
    case False
    then show ?thesis using Cons.IH [OF r] Cons.prems(2) kv by auto
  qed
qed simp

end

text \<open>The model: the state is the cache with its free list, a buffer can be claimed when it is clean.\<close>

definition cache_inv :: "bstate \<times> ptr list \<Rightarrow> bool" where
  "cache_inv s \<longleftrightarrow> (\<exists>C. cache_ok (fst s) (snd s) C)"

definition cache_claim :: "u16 \<times> u32 \<Rightarrow> ptr \<Rightarrow> bstate \<times> ptr list \<Rightarrow> bstate \<times> ptr list" where
  "cache_claim k v s = (claimed (ucast (fst k)) (snd k) v (fst s), remove1 v (snd s) @ [v])"

definition cache_room :: "bstate \<times> ptr list \<Rightarrow> ptr set" where
  "cache_room s = {p \<in> set (snd s). clean (fst s) p}"

lemma cached_claimed:
  assumes ok: "cache_ok b xs C" and v: "v \<in> set xs" and d: "fst k \<noteq> 0" and n: "cached b xs k = None"
  shows "cached (claimed (ucast (fst k)) (snd k) v b) (remove1 v xs @ [v]) k' =
    (if k' = k then Some v else if cached b xs k' = Some v then None else cached b xs k')"
proof -
  let ?b = "claimed (ucast (fst k)) (snd k) v b" and ?xs = "remove1 v xs @ [v]"
  note c = cache_okD [OF ok]
  obtain C' where "cache_ok ?b ?xs C'" using claimed_ok [OF ok v d, of "snd k"] n by auto
  note c' = cache_okD [OF this]
  have S: "set ?xs = set xs" using c(5) v by auto
  have inj: "p = q" if "p \<in> set xs" "q \<in> set xs" "head_key (heads b p) = head_key (heads b q)"
    "fst (head_key (heads b q)) \<noteq> 0" for p q
    using c(3) that unfolding keys_unique_def by (metis fst_conv head_key_def)
  have "cached ?b ?xs k' = Some p \<longleftrightarrow>
    (if k' = k then Some v else if cached b xs k' = Some v then None else cached b xs k') = Some p" for p
    using n d v
    unfolding cached_Some [OF c'(3)] S cached_Some [OF c(3)] claimed_head_key
    by (auto simp: cached_Some [OF c(3)] cached_None dest: inj)
  then show ?thesis by (metis option.exhaust)
qed

interpretation bcache: block_cache cache_inv "\<lambda>s. cached (fst s) (snd s)" cache_claim cache_room "\<lambda>k. fst k \<noteq> 0"
proof (unfold_locales, goal_cases)
  case (1 s k v)
  then obtain C where ok: "cache_ok (fst s) (snd s) C" by (auto simp: cache_inv_def)
  show ?case
    using claimed_ok [OF ok, of v "fst k" "snd k"] 1 by (simp add: cache_inv_def cache_claim_def cache_room_def)
next
  case (2 s v k)
  then show ?case
    using cache_okD(5) by (auto simp: cache_inv_def cache_claim_def cache_room_def claimed_clean)
next
  case (3 s k v k')
  then obtain C where ok: "cache_ok (fst s) (snd s) C" by (auto simp: cache_inv_def)
  show ?case
    using cached_claimed [OF ok, of v k k'] 3 by (simp add: cache_claim_def cache_room_def)
next
  case (4 s k v k')
  then obtain C where ok: "cache_ok (fst s) (snd s) C" by (auto simp: cache_inv_def)
  show ?case using 4 cached_Some [OF cache_okD(3) [OF ok]] by auto
qed

section \<open>Sequences of requests\<close>

fun getblks :: "(u16 \<times> u32) list \<Rightarrow> bstate \<Rightarrow> (ptr list \<times> bstate) option" where
  "getblks [] b = Some ([], b)"
| "getblks (k # ks) b =
     (case getblk (ucast (fst k)) (snd k) b of
        Some (Inr (Gb_done p b')) \<Rightarrow>
          (case getblks ks b' of
             None \<Rightarrow> None
           | Some (ps, b'') \<Rightarrow> Some (p # ps, b''))
      | _ \<Rightarrow> None)"

lemma finite_room [simp]: "finite (cache_room s)"
  by (simp add: cache_room_def)

lemma getblks_claims:
  assumes "cache_inv (b, xs)" and "distinct ks" and "\<And>k. k \<in> set ks \<Longrightarrow> fst k \<noteq> 0 \<and> cached b xs k = None"
    and "length ks \<le> card (cache_room (b, xs))"
  shows "\<exists>ps. length ps = length ks \<and> bcache.ready (zip ks ps) (b, xs) \<and>
    getblks ks b = Some (ps, fst (bcache.claims (zip ks ps) (b, xs)))"
  using assms
proof (induction ks arbitrary: b xs)
  case Nil
  then show ?case by (simp add: bcache.ready_def)
next
  case (Cons k ks)
  let ?s = "(b, xs)" and ?v = "scan_list b xs NULL"
  let ?s' = "cache_claim k ?v ?s"
  obtain C where ok: "cache_ok b xs C" using Cons.prems(1) by (auto simp: cache_inv_def)
  have k: "fst k \<noteq> 0" "cached b xs k = None" using Cons.prems(3) by simp_all
  have "cache_room ?s \<noteq> {}" using Cons.prems(4) by auto
  then have room: "\<exists>p \<in> set xs. clean b p" by (auto simp: cache_room_def)
  have v: "?v \<in> cache_room ?s" using scan_clean [OF cache_okD(4) [OF ok] room] by (simp add: cache_room_def)
  have get: "getblk (ucast (fst k)) (snd k) b = Some (Inr (Gb_done ?v (fst ?s')))"
    using getblk_miss [OF ok, of "fst k" "snd k"] k room by (simp add: cache_claim_def)
  have r: "cache_room ?s' = cache_room ?s - {?v}" by (rule bcache.room_claim [OF Cons.prems(1) v])
  have inv: "cache_inv ?s'" using bcache.inv_claim [OF Cons.prems(1), of k ?v] k v by simp
  have look: "cached (fst ?s') (snd ?s') k' =
      (if k' = k then Some ?v else if cached b xs k' = Some ?v then None else cached b xs k')" for k'
    using bcache.lookup_claim [OF Cons.prems(1), of k ?v k'] k v by simp
  have "length ks \<le> card (cache_room ?s')" using Cons.prems(4) r v by simp
  moreover have "fst k' \<noteq> 0 \<and> cached (fst ?s') (snd ?s') k' = None" if "k' \<in> set ks" for k'
    using look Cons.prems(2,3) that by (auto split: if_splits)
  ultimately obtain ps where ps: "length ps = length ks" "bcache.ready (zip ks ps) ?s'"
    "getblks ks (fst ?s') = Some (ps, fst (bcache.claims (zip ks ps) ?s'))"
    using Cons.IH [of "fst ?s'" "snd ?s'"] inv Cons.prems(2) by auto
  have in_room: "p \<in> cache_room ?s'" if p: "p \<in> set ps" for p
  proof -
    obtain i where "i < length ps" "p = ps ! i" using p by (auto simp: in_set_conv_nth)
    then have "(ks ! i, p) \<in> set (zip ks ps)" using ps(1) by (auto simp: in_set_zip)
    then show ?thesis using ps(2) by (auto simp: bcache.ready_def)
  qed
  then have "?v \<notin> set ps" using r by blast
  moreover have "distinct ps" using ps(1,2) by (simp add: bcache.ready_def)
  moreover have "fst k' \<noteq> 0 \<and> cached b xs k' = None \<and> v' \<in> cache_room ?s" if "(k', v') \<in> set (zip ks ps)" for k' v'
    using Cons.prems(3) [of k'] in_room [of v'] r set_zip_leftD [OF that] set_zip_rightD [OF that] by simp
  then have "\<forall>(k', v') \<in> set (zip ks ps). fst k' \<noteq> 0 \<and> cached b xs k' = None \<and> v' \<in> cache_room ?s" by blast
  ultimately have "bcache.ready (zip (k # ks) (?v # ps)) ?s"
    using Cons.prems(1,2) ps(1) k v by (simp add: bcache.ready_def)
  moreover have "getblks (k # ks) b = Some (?v # ps, fst (bcache.claims (zip (k # ks) (?v # ps)) ?s))"
    using get ps(3) by simp
  ultimately show ?case using ps(1) by (intro exI [of _ "?v # ps"]) simp
qed

lemma getblks_found:
  assumes "cache_ok b xs C" and "distinct ks" and "\<And>k. k \<in> set ks \<Longrightarrow> fst k \<noteq> 0 \<and> cached b xs k = None"
    and "length ks \<le> length (filter (clean b) xs)"
  shows "\<exists>ps b'. getblks ks b = Some (ps, b') \<and> length ps = length ks \<and> distinct ps \<and>
    (\<forall>i < length ks. find_buffer (ucast (fst (ks ! i))) (snd (ks ! i)) b' = Some (ps ! i))"
proof -
  have inv: "cache_inv (b, xs)" using assms(1) by (auto simp: cache_inv_def)
  have "card (cache_room (b, xs)) = length (filter (clean b) xs)"
    using cache_okD(5) [OF assms(1)] distinct_card [of "filter (clean b) xs"] by (simp add: cache_room_def)
  then obtain ps where ps: "length ps = length ks" "bcache.ready (zip ks ps) (b, xs)"
    "getblks ks b = Some (ps, fst (bcache.claims (zip ks ps) (b, xs)))"
    using getblks_claims [OF inv assms(2,3)] assms(4) by auto
  let ?s = "bcache.claims (zip ks ps) (b, xs)"
  obtain C' where ok: "cache_ok (fst ?s) (snd ?s) C'" using bcache.claims_inv [OF ps(2)] by (auto simp: cache_inv_def)
  have "find_buffer (ucast (fst (ks ! i))) (snd (ks ! i)) (fst ?s) = Some (ps ! i)" if "i < length ks" for i
  proof -
    have "(ks ! i, ps ! i) \<in> set (zip ks ps)" using that ps(1) by (auto simp: in_set_zip)
    from bcache.claims_found [OF ps(2) this] show ?thesis
      using find_buffer_cached [OF ok, of "fst (ks ! i)" "snd (ks ! i)"] by (simp add: ptr_of_def)
  qed
  moreover have "distinct ps" using ps(1,2) by (simp add: bcache.ready_def)
  ultimately show ?thesis using ps by blast
qed

section \<open>Refinement of a map with an order of reuse\<close>

record acache =
  blocks :: "u16 \<times> u32 \<rightharpoonup> ptr"
  order :: "ptr list"

definition acache_of :: "bstate \<Rightarrow> ptr list \<Rightarrow> acache" where
  "acache_of b xs = \<lparr>blocks = cached b xs, order = xs\<rparr>"

text \<open>A request for a cached block changes nothing; any other reuses a buffer, which moves to the end.\<close>

definition acache_get :: "u16 \<times> u32 \<Rightarrow> ptr \<Rightarrow> acache \<Rightarrow> acache" where
  "acache_get k p a =
     (if blocks a k \<noteq> None then a
      else \<lparr>blocks = (\<lambda>k'. if k' = k then Some p else if blocks a k' = Some p then None else blocks a k'),
            order = remove1 p (order a) @ [p]\<rparr>)"

lemma cached_take_ref: "cached (take_ref p b) xs = cached b xs"
proof -
  have "head_key (heads (take_ref p b) q) = head_key (heads b q)" for q
    by (simp add: take_ref_def head_key_def)
  then show ?thesis by (simp add: cached_def fun_eq_iff)
qed

text \<open>The buffer a request can have at once: the cached one when it is not locked, else the victim.\<close>

definition at_hand :: "bstate \<Rightarrow> ptr list \<Rightarrow> u16 \<times> u32 \<Rightarrow> bool" where
  "at_hand b xs k \<longleftrightarrow>
     (case cached b xs k of
        Some p \<Rightarrow> b_lock (heads b p) = 0
      | None \<Rightarrow> list_ex (clean b) xs)"

lemma getblk_acache:
  assumes ok: "cache_ok b xs C" and d: "fst k \<noteq> 0" and h: "at_hand b xs k"
  shows "\<exists>p b' xs' C'. getblk (ucast (fst k)) (snd k) b = Some (Inr (Gb_done p b')) \<and> cache_ok b' xs' C' \<and>
    acache_of b' xs' = acache_get k p (acache_of b xs) \<and> blocks (acache_of b' xs') k = Some p \<and>
    (blocks (acache_of b xs) k = None \<longrightarrow> p \<in> set xs \<and> clean b p)"
proof (cases "cached b xs k")
  case None
  let ?v = "scan_list b xs NULL"
  let ?b = "claimed (ucast (fst k)) (snd k) ?v b"
  have room: "\<exists>p \<in> set xs. clean b p" using h None by (simp add: at_hand_def list_ex_iff)
  have v: "?v \<in> set xs" "clean b ?v" using scan_clean [OF cache_okD(4) [OF ok] room] by simp_all
  have "getblk (ucast (fst k)) (snd k) b = Some (Inr (Gb_done ?v ?b))"
    using getblk_miss [OF ok, of "fst k" "snd k"] None room by simp
  moreover obtain C' where "cache_ok ?b (remove1 ?v xs @ [?v]) C'"
    using claimed_ok [OF ok v(1) d, of "snd k"] None by auto
  moreover note cached_claimed [OF ok v(1) d None]
  ultimately show ?thesis using None v
    by (intro exI [of _ ?v] exI [of _ ?b] exI [of _ "remove1 ?v xs @ [?v]"] exI [of _ C'])
      (simp add: acache_of_def acache_get_def fun_eq_iff)
next
  case (Some p)
  then have "getblk (ucast (fst k)) (snd k) b = Some (Inr (Gb_done p (take_ref p b)))"
    using getblk_hit [OF ok, of "fst k" "snd k" p] h by (simp add: at_hand_def)
  then show ?thesis using Some take_ref_ok [OF ok, of p]
    by (intro exI [of _ p] exI [of _ "take_ref p b"] exI [of _ xs] exI [of _ C])
      (simp add: acache_of_def acache_get_def cached_take_ref)
qed

section \<open>A request that does not end\<close>

lemma getblk_spin:
  assumes ok: "cache_ok b xs C" and n: "cached b xs (d, k) = None" and u: "\<exists>p \<in> set xs. unused b p"
    and dirty: "\<And>p. p \<in> set xs \<Longrightarrow> unused b p \<Longrightarrow> b_dirt (heads b p) \<noteq> 0 \<and> b_lock (heads b p) = 0"
  shows "getblk (ucast d) k b = None"
proof -
  let ?v = "scan_list b xs NULL"
  note c = cache_okD [OF ok]
  have "best_of b xs ?v" using scan_list_best [OF c(4), of b] u by simp
  then have v: "?v \<in> set xs" "unused b ?v" by (rule best_ofD)+
  then have vn: "?v \<noteq> NULL" "b_dirt (heads b ?v) \<noteq> 0" "b_lock (heads b ?v) = 0" using c(4) dirty [OF v] by auto
  let ?loops = "\<lambda>at dev block b' (y :: gb_end kres). \<not> ((at = At_top \<or> at = At_hash NULL \<or> at = At_unlocked ?v) \<and>
    dev = ucast d \<and> block = k \<and> b' = b)"
  have "?loops at dev block b' y" if "getblk_from at dev block b' = Some y" for at dev block b' y
  proof (rule getblk_from.raw_induct [of ?loops, OF _ that], rule notI, goal_cases)
    case (1 f at dev block b' y)
    note IH = 1(1) [of _ "ucast d" k b y, simplified]
    show ?case
      using 1(2-) vn get_hash_table_miss [OF ok n] scan_free_ring [OF c(1)]
      by (elim conjE disjE) (auto dest: IH)
  qed
  then show ?thesis unfolding getblk_def by (metis option.exhaust)
qed

section \<open>Properties\<close>

text \<open>A cache of two buffers: the first holds block 5 of device \<^verbatim>\<open>0x300\<close>, the second is empty.\<close>

definition pair_head :: "ptr \<Rightarrow> u32 \<Rightarrow> u16 \<Rightarrow> u8 \<Rightarrow> u8 \<Rightarrow> ptr \<Rightarrow> buffer_head" where
  "pair_head d k dev dirt cnt other =
     \<lparr>b_data = d, b_blocknr = k, b_dev = dev, b_uptodate = 1, b_dirt = dirt, b_count = cnt, b_lock = 0,
      b_prev = NULL, b_next = NULL, b_prev_free = other, b_next_free = other\<rparr>"

definition pair_cache :: "u8 \<Rightarrow> u8 \<Rightarrow> bstate" where
  "pair_cache dirt cnt =
     \<lparr>heads = (\<lambda>p. if p = 0x1000 then pair_head 0x8000 5 0x300 dirt 0 0x1024
               else pair_head 0x8400 0 0 0 cnt 0x1000),
      hash_table = (\<lambda>i. if i = 159 then 0x1000 else NULL), free_list = 0x1000, start_buffer = 0x1000,
      nr_buffers = 2, bsched = two_tasks 0\<rparr>"

definition pair_chains :: "nat \<Rightarrow> ptr list" where
  "pair_chains i = (if i = 159 then [0x1000] else [])"

lemma pair_cache_ok: "cache_ok (pair_cache dirt cnt) [0x1000, 0x1024] pair_chains"
proof -
  let ?b = "pair_cache dirt cnt"
  have hh: "head_hash (heads ?b 0x1000) = 159"
    by (simp add: pair_cache_def pair_head_def head_hash_def hashfn_def)
  have "ring_rep ?b [0x1000, 0x1024]"
    by (simp add: ring_rep_def ring_def link_defs pair_cache_def pair_head_def)
  moreover have "bucket ?b {0x1000, 0x1024} i = (if i = 159 then {0x1000} else {})" for i
    using hh by (auto simp: bucket_def) (auto simp: pair_cache_def pair_head_def)
  then have "hash_rep ?b (set [0x1000, 0x1024]) pair_chains"
    by (auto simp: hash_rep_def pair_chains_def link_defs pair_cache_def pair_head_def)
  moreover have "keys_unique ?b (set [0x1000, 0x1024])"
    by (auto simp: keys_unique_def head_key_def pair_cache_def pair_head_def)
  ultimately show ?thesis by (simp add: cache_ok_def)
qed

text \<open>
  C22: on a cache that satisfies the invariant, \<^verbatim>\<open>find_buffer\<close> returns, and its result is the buffer the
  map of cached blocks gives for the device and the block, \<^verbatim>\<open>NULL\<close> when there is none.
\<close>

theorem find_buffer_map:
  assumes "cache_ok b xs C"
  shows "find_buffer (ucast d) k b = Some (ptr_of (cached b xs (d, k)))"
  using assms by (rule find_buffer_cached)

theorem find_buffer_map_witness:
  "find_buffer 0x300 5 (pair_cache 0 0) = Some 0x1000 \<and> find_buffer 0x300 6 (pair_cache 0 0) = Some NULL"
  using find_buffer_map [OF pair_cache_ok [of 0 0], of "0x300" 5] find_buffer_map [OF pair_cache_ok [of 0 0], of "0x300" 6]
  by (simp add: cached_def pair_cache_def pair_head_def head_key_def ptr_of_def)

text \<open>
  The search of the free list for a buffer to reuse ends; it finds nothing exactly when every
  buffer is in use, and otherwise the first of the unused buffers with the least badness.
\<close>

lemma scan_free_best:
  assumes "cache_ok b xs C"
  shows "\<exists>v. scan_free b (free_list b) NULL = Some v \<and>
    (if list_ex (unused b) xs then best_of b xs v else v = NULL)"
proof -
  note c = cache_okD [OF assms]
  show ?thesis using scan_free_ring [OF c(1)] scan_list_best [OF c(4), of b] by (simp add: list_ex_iff)
qed

lemma scan_free_best_example:
  "scan_free (pair_cache 1 0) (free_list (pair_cache 1 0)) NULL = Some 0x1024 \<and>
   best_of (pair_cache 1 0) [0x1000, 0x1024] 0x1024"
proof -
  have "scan_free (pair_cache 1 0) (free_list (pair_cache 1 0)) NULL = Some 0x1024"
    using scan_free_ring [OF cache_okD(1) [OF pair_cache_ok [of 1 0]]]
    by (simp add: pair_cache_def pair_head_def BADNESS_def)
  moreover have "list_ex (unused (pair_cache 1 0)) [0x1000, 0x1024]"
    by (simp add: unused_def pair_cache_def pair_head_def)
  ultimately show ?thesis using scan_free_best [OF pair_cache_ok [of 1 0]] by auto
qed

text \<open>
  C11: \<^verbatim>\<open>getblk\<close> refines a map from blocks to buffers with an order of reuse.  When the block is cached
  and not locked, or some buffer is unused, clean and unlocked, it returns a buffer that the new map
  gives for the block; a request for a cached block changes neither the map nor the order, any
  other takes a buffer that was unused, clean and unlocked, moves it to the end and forgets only the
  block that buffer held; and the invariant of the cache holds again.
\<close>

theorem getblk_refines:
  assumes "cache_ok b xs C" and "fst k \<noteq> 0" and "at_hand b xs k"
  shows "\<exists>p b' xs' C'. getblk (ucast (fst k)) (snd k) b = Some (Inr (Gb_done p b')) \<and> cache_ok b' xs' C' \<and>
    acache_of b' xs' = acache_get k p (acache_of b xs) \<and> blocks (acache_of b' xs') k = Some p \<and>
    (blocks (acache_of b xs) k = None \<longrightarrow> p \<in> set xs \<and> clean b p)"
  using assms by (rule getblk_acache)

theorem getblk_refines_witness:
  "\<exists>p b' xs' C'. getblk 0x300 6 (pair_cache 1 0) = Some (Inr (Gb_done p b')) \<and> cache_ok b' xs' C' \<and>
    acache_of b' xs' = acache_get (0x300, 6) p (acache_of (pair_cache 1 0) [0x1000, 0x1024]) \<and>
    blocks (acache_of b' xs') (0x300, 6) = Some p \<and> p \<in> {0x1000, 0x1024} \<and> clean (pair_cache 1 0) p"
proof -
  have "at_hand (pair_cache 1 0) [0x1000, 0x1024] (0x300, 6)"
    by (simp add: at_hand_def cached_def clean_def pair_cache_def pair_head_def head_key_def)
  moreover have "blocks (acache_of (pair_cache 1 0) [0x1000, 0x1024]) (0x300, 6) = None"
    by (simp add: acache_of_def cached_def pair_cache_def pair_head_def head_key_def)
  ultimately show ?thesis using getblk_refines [OF pair_cache_ok _ \<open>at_hand _ _ _\<close>] by simp
qed

text \<open>
  A buffer that \<^verbatim>\<open>getblk\<close> reuses was unused, clean and unlocked; it comes back with one user, not up
  to date, with its data area and its lock as they were; the fields of every other buffer but its
  queue links are unchanged, and no task runs in between.
\<close>

lemma getblk_reuse:
  assumes "cache_ok b xs C" and "cached b xs (d, k) = None" and "list_ex (clean b) xs"
  shows "\<exists>v b'. getblk (ucast d) k b = Some (Inr (Gb_done v b')) \<and> v \<in> set xs \<and> clean b v \<and>
    payload (heads b' v) = payload ((heads b v)\<lparr>b_count := 1, b_uptodate := 0, b_dev := d, b_blocknr := k\<rparr>) \<and>
    (\<forall>p. p = v \<or> payload (heads b' p) = payload (heads b p)) \<and> bsched b' = bsched b"
proof -
  let ?v = "scan_list b xs NULL"
  have room: "\<exists>p \<in> set xs. clean b p" using assms(3) by (simp add: list_ex_iff)
  note v = scan_clean [OF cache_okD(4) [OF assms(1)] room]
  have "b_dirt (heads b ?v) = 0" using v(2) by (simp add: clean_def)
  then have "payload (heads (claimed (ucast d) k ?v b) ?v) =
      payload ((heads b ?v)\<lparr>b_count := 1, b_uptodate := 0, b_dev := d, b_blocknr := k\<rparr>)"
    unfolding claimed_payload by (simp add: payload_def)
  moreover have "p = ?v \<or> payload (heads (claimed (ucast d) k ?v b) p) = payload (heads b p)" for p
    unfolding claimed_payload by simp
  ultimately show ?thesis
    using getblk_miss [OF assms(1,2) room] v claimed_links(4) [OF refl refl refl, of "ucast d" k ?v b] by blast
qed

lemma getblk_reuse_example:
  "\<exists>v b'. getblk (ucast (0x300 :: u16)) 6 (pair_cache 1 0) = Some (Inr (Gb_done v b')) \<and>
    v \<in> set [0x1000, 0x1024] \<and> clean (pair_cache 1 0) v \<and>
    payload (heads b' v) =
      payload ((heads (pair_cache 1 0) v)\<lparr>b_count := 1, b_uptodate := 0, b_dev := 0x300, b_blocknr := 6\<rparr>) \<and>
    (\<forall>p. p = v \<or> payload (heads b' p) = payload (heads (pair_cache 1 0) p)) \<and>
    bsched b' = bsched (pair_cache 1 0)"
  by (rule getblk_reuse [OF pair_cache_ok])
    (simp_all add: cached_def clean_def pair_cache_def pair_head_def head_key_def)

text \<open>
  C12: requests for different blocks that are not cached get different buffers, as long as there are
  as many unused, clean and unlocked buffers as requests; and after the last of them every one of
  the blocks is still found in the buffer its request returned.
\<close>

theorem getblk_distinct_blocks:
  assumes "cache_ok b xs C" and "distinct ks" and "list_all (\<lambda>k. fst k \<noteq> 0 \<and> cached b xs k = None) ks"
    and "length ks \<le> length (filter (clean b) xs)"
  shows "\<exists>ps b'. getblks ks b = Some (ps, b') \<and> length ps = length ks \<and> distinct ps \<and>
    map (\<lambda>k. find_buffer (ucast (fst k)) (snd k) b') ks = map Some ps"
proof -
  have "fst k \<noteq> 0 \<and> cached b xs k = None" if "k \<in> set ks" for k using assms(3) that by (simp add: list_all_iff)
  from getblks_found [OF assms(1,2) this assms(4)] obtain ps b' where
    "getblks ks b = Some (ps, b')" "length ps = length ks" "distinct ps"
    "\<forall>i < length ks. find_buffer (ucast (fst (ks ! i))) (snd (ks ! i)) b' = Some (ps ! i)" by blast
  then show ?thesis by (intro exI [of _ ps] exI [of _ b'] conjI nth_equalityI) simp_all
qed

theorem getblk_distinct_blocks_witness:
  "\<exists>ps b'. getblks [(0x300, 6), (0x301, 6)] (pair_cache 0 0) = Some (ps, b') \<and> length ps = 2 \<and> distinct ps \<and>
    map (\<lambda>k. find_buffer (ucast (fst k)) (snd k) b') [(0x300 :: u16, 6), (0x301, 6)] = map Some ps"
proof -
  have "length (filter (clean (pair_cache 0 0)) [0x1000, 0x1024]) = 2"
    by (simp add: clean_def pair_cache_def pair_head_def)
  moreover have "list_all (\<lambda>k. fst k \<noteq> 0 \<and> cached (pair_cache 0 0) [0x1000, 0x1024] k = None) [(0x300, 6), (0x301, 6)]"
    by (simp add: cached_def pair_cache_def pair_head_def head_key_def)
  ultimately show ?thesis
    using getblk_distinct_blocks [OF pair_cache_ok [of 0 0], of "[(0x300, 6), (0x301, 6)]"] by (simp del: getblks.simps filter.simps list.map add: numeral_2_eq_2)
qed

text \<open>
  C23: when the block is not cached and every unused buffer is dirty and unlocked, \<^verbatim>\<open>getblk\<close> does not
  return: nothing in its loop writes a buffer out or sleeps.
\<close>

theorem getblk_spins:
  assumes "cache_ok b xs C" and "cached b xs (d, k) = None" and "list_ex (unused b) xs"
    and "list_all (\<lambda>p. unused b p \<longrightarrow> b_dirt (heads b p) \<noteq> 0 \<and> b_lock (heads b p) = 0) xs"
  shows "getblk (ucast d) k b = None"
  using assms by (intro getblk_spin [OF assms(1,2)]) (auto simp: list_ex_iff list_all_iff)

theorem getblk_spins_witness: "getblk (ucast (0x300 :: u16)) 6 (pair_cache 1 1) = None"
  by (rule getblk_spins [OF pair_cache_ok [of 1 1]])
    (simp_all add: cached_def unused_def pair_cache_def pair_head_def head_key_def)

end
