(* ===== verification/Cache_Init.thy ===== *)
theory Cache_Init
  imports Cache
begin

text \<open>
  \<^verbatim>\<open>buffer_init\<close> of \<^verbatim>\<open>fs/buffer.c\<close>: its loop over the buffer memory in terms of the list of data
  blocks it hands out, the heads it leaves, the invariant of the cache it establishes and the
  layout of the memory it uses.
\<close>

section \<open>Initialisation\<close>

text \<open>The addresses of the data blocks, from the top of the buffer memory \<open>d\<close> down to the heads.\<close>

function data_blocks :: "nat \<Rightarrow> nat \<Rightarrow> nat list" where
  "data_blocks h d =
     (if d < h + 1060 then []
      else (d - 1024) # data_blocks (h + 36) (if d - 1024 = 0x100000 then 0xa0000 else d - 1024))"
  by pat_completeness auto
termination by (relation "measure snd") auto

declare data_blocks.simps [simp del]

primrec init_all :: "ptr \<Rightarrow> nat list \<Rightarrow> bstate \<Rightarrow> bstate" where
  "init_all h [] b = b"
| "init_all h (d # ds) b = init_all (h + sizeof_buffer_head) ds (init_head h (of_nat d) b)"

definition head_addr :: "ptr \<Rightarrow> nat \<Rightarrow> ptr" where
  "head_addr s i = s + of_nat (36 * i)"

lemma head_addr_0 [simp]: "head_addr s 0 = s"
  by (simp add: head_addr_def)

lemma head_addr_Suc: "head_addr s (Suc i) = head_addr s i + 36" "head_addr (s + 36) i = head_addr s (Suc i)"
  by (simp_all add: head_addr_def algebra_simps)

lemma unat_plus_36: "unat (h :: u32) + 36 < 2 ^ 32 \<Longrightarrow> unat (h + 36) = unat h + 36"
  by (subst unat_add_lem [THEN iffD1]) simp_all

lemma init_loop_blocks:
  assumes "1024 \<le> unat h" and "1024 \<le> unat d" and "unat h + 36 < 2 ^ 32"
  shows "init_loop h d b =
    Some (head_addr h (length (data_blocks (unat h) (unat d))), init_all h (data_blocks (unat h) (unat d)) b)"
  using assms
proof (induction "unat h" "unat d" arbitrary: h d b rule: data_blocks.induct)
  case 1
  let ?d = "d - 1024" and ?next = "if unat d - 1024 = 0x100000 then 0xa0000 else unat d - 1024"
  have d: "unat ?d = unat d - 1024" using 1(3) by (simp add: unat_sub word_le_nat_alt)
  have h: "unat (h + 36) = unat h + 36" using 1(4) by (rule unat_plus_36)
  have c: "h + 36 \<le> ?d \<longleftrightarrow> \<not> unat d < unat h + 1060" using d h 1(3) by (auto simp: word_le_nat_alt)
  show ?case
  proof (cases "unat d < unat h + 1060")
    case True
    then have "\<not> h + 36 \<le> ?d" using c by simp
    then show ?thesis using True by (subst init_loop.simps) (simp add: data_blocks.simps Let_def)
  next
    case False
    define d' where "d' = (if ?d = 0x100000 then 0xa0000 else ?d)"
    have e: "?d = 0x100000 \<longleftrightarrow> unat d - 1024 = 0x100000" using d by (simp add: word_unat_eq_iff)
    have d': "unat d' = ?next" unfolding d'_def e using d by simp
    have bl: "data_blocks (unat h) (unat d) = (unat d - 1024) # data_blocks (unat (h + 36)) (unat d')"
      using False d' h by (subst data_blocks.simps) simp
    have "init_loop h d b = init_loop (h + 36) d' (init_head h ?d b)"
      using c False by (subst init_loop.simps) (simp add: Let_def d'_def)
    also have "\<dots> = Some (head_addr (h + 36) (length (data_blocks (unat (h + 36)) (unat d'))),
        init_all (h + 36) (data_blocks (unat (h + 36)) (unat d')) (init_head h ?d b))"
      using False 1(2) h d' unsigned_less [of d, where ?'a = nat]
      by (intro 1(1)) (auto split: if_splits)
    also have "init_all (h + 36) (data_blocks (unat (h + 36)) (unat d')) (init_head h ?d b) =
        init_all h (data_blocks (unat h) (unat d)) b"
      unfolding bl using d [symmetric] by simp
    finally show ?thesis unfolding bl by (simp add: head_addr_Suc)
  qed
qed

text \<open>Where the blocks lie: above the heads, one below the other, outside the hole below 1 MB.\<close>

lemma data_blocks_Cons:
  assumes "i < length (data_blocks h d)"
  defines "d' \<equiv> if d - 1024 = 0x100000 then 0xa0000 else d - 1024"
  shows "h + 1060 \<le> d" and "data_blocks h d = (d - 1024) # data_blocks (h + 36) d'" and "d' + 1024 \<le> d"
proof -
  show c: "h + 1060 \<le> d" using assms(1) by (subst (asm) data_blocks.simps) (auto split: if_splits)
  then show "data_blocks h d = (d - 1024) # data_blocks (h + 36) d'"
    unfolding d'_def by (subst data_blocks.simps) (simp only: not_less [symmetric] if_False)
  show "d' + 1024 \<le> d" using c by (auto simp: d'_def)
qed

lemma data_blocks_bounds:
  "i < length (data_blocks h d) \<Longrightarrow> h + 36 * Suc i \<le> data_blocks h d ! i \<and> data_blocks h d ! i + 1024 \<le> d"
proof (induction i arbitrary: h d)
  case 0
  note c = data_blocks_Cons [OF 0]
  show ?case unfolding c(2) using c(1) by simp
next
  case (Suc i)
  define d' where "d' = (if d - 1024 = 0x100000 then 0xa0000 else d - 1024)"
  note c = data_blocks_Cons [OF Suc.prems, folded d'_def]
  have "i < length (data_blocks (h + 36) d')" using Suc.prems unfolding c(2) by simp
  from Suc.IH [OF this] show ?case unfolding c(2) nth_Cons_Suc using c(3) by simp
qed

lemma data_blocks_apart:
  "i < j \<Longrightarrow> j < length (data_blocks h d) \<Longrightarrow> data_blocks h d ! j + 1024 \<le> data_blocks h d ! i"
proof (induction i arbitrary: h d j)
  case 0
  let ?d = "if d - 1024 = 0x100000 then 0xa0000 else d - 1024"
  note c = data_blocks_Cons [OF 0(2)]
  obtain j' where j: "j = Suc j'" using 0 by (cases j) auto
  then have "j' < length (data_blocks (h + 36) ?d)" using 0(2) unfolding c(2) by simp
  from data_blocks_bounds [OF this] show ?case unfolding c(2) j nth_Cons_Suc nth_Cons_0 using c(3) by linarith
next
  case (Suc i)
  note c = data_blocks_Cons [OF Suc.prems(2)]
  obtain j' where j: "j = Suc j'" using Suc by (cases j) auto
  show ?case using Suc.prems unfolding c(2) j nth_Cons_Suc by (intro Suc.IH) simp_all
qed

lemma data_blocks_above:
  assumes "i < length (data_blocks h d)"
  shows "h + 36 * length (data_blocks h d) \<le> data_blocks h d ! i"
proof -
  let ?n = "length (data_blocks h d)"
  have l: "?n - 1 < ?n" "Suc (?n - 1) = ?n" using assms by auto
  note b = data_blocks_bounds [OF l(1), unfolded l(2)]
  show ?thesis
  proof (cases "i = ?n - 1")
    case True
    then show ?thesis using b by simp
  next
    case False
    then have "i < ?n - 1" using assms by simp
    from data_blocks_apart [OF this l(1)] b show ?thesis by linarith
  qed
qed

text \<open>The memory between 640 KB and 1 MB holds no buffer.\<close>

lemma data_blocks_hole:
  "i < length (data_blocks h d) \<Longrightarrow> 1024 dvd d \<Longrightarrow> d \<le> 0xa0000 \<or> 0x100000 < d \<Longrightarrow>
     data_blocks h d ! i + 1024 \<le> 0xa0000 \<or> 0x100000 \<le> data_blocks h d ! i"
proof (induction i arbitrary: h d)
  case 0
  note c = data_blocks_Cons [OF 0(1)]
  obtain m where m: "d = 1024 * m" using 0(2) by auto
  show ?case unfolding c(2) nth_Cons_0 using 0(3) m c(1) by auto
next
  case (Suc i)
  let ?d = "if d - 1024 = 0x100000 then 0xa0000 else d - 1024"
  note c = data_blocks_Cons [OF Suc.prems(1)]
  obtain m where m: "d = 1024 * m" using Suc.prems(2) by auto
  have "1024 dvd ?d" using m by (auto simp: dvd_def intro!: exI [of _ "m - 1"])
  moreover have "?d \<le> 0xa0000 \<or> 0x100000 < ?d" using m Suc.prems(3) c(1) by auto
  ultimately show ?case using Suc.prems(1) unfolding c(2) nth_Cons_Suc by (intro Suc.IH) simp_all
qed

text \<open>The heads after the loop.\<close>

definition fresh_head :: "ptr \<Rightarrow> ptr \<Rightarrow> buffer_head \<Rightarrow> buffer_head" where
  "fresh_head h d x = x\<lparr>b_dev := 0, b_dirt := 0, b_count := 0, b_lock := 0, b_uptodate := 0,
     b_next := NULL, b_prev := NULL, b_data := d, b_prev_free := h - 36, b_next_free := h + 36\<rparr>"

lemma init_head_heads: "heads (init_head h d b) = (heads b)(h := fresh_head h d (heads b h))"
  by (simp add: init_head_def Let_def fun_eq_iff fresh_head_def)

lemma unat_head_addr: "unat s + 36 * i < 2 ^ 32 \<Longrightarrow> unat (head_addr s i) = unat s + 36 * i"
proof (induction i)
  case (Suc i)
  then have "unat (head_addr s i) = unat s + 36 * i" by simp
  then show ?case using unat_plus_36 [of "head_addr s i"] Suc.prems by (simp add: head_addr_Suc)
qed simp

lemma head_addr_inj:
  assumes "unat s + 36 * n < 2 ^ 32" and "i \<le> n" and "j \<le> n"
  shows "head_addr s i = head_addr s j \<longleftrightarrow> i = j"
proof
  assume eq: "head_addr s i = head_addr s j"
  have "unat (head_addr s k) = unat s + 36 * k" if "k \<le> n" for k
    using assms(1) that by (intro unat_head_addr) simp
  from this [OF assms(2)] this [OF assms(3)] have "36 * i = 36 * j" unfolding eq by linarith
  then show "i = j" by simp
qed simp

lemma init_all_other:
  "(\<And>i. i < length ds \<Longrightarrow> p \<noteq> head_addr h i) \<Longrightarrow> heads (init_all h ds b) p = heads b p"
proof (induction ds arbitrary: h b)
  case (Cons d ds)
  have "p \<noteq> h" using Cons.prems [of 0] by simp
  moreover have "p \<noteq> head_addr (h + 36) i" if "i < length ds" for i
    using Cons.prems [of "Suc i"] that by (simp add: head_addr_Suc(2) [symmetric])
  ultimately show ?case using Cons.IH [of "h + 36"] by (simp add: init_head_heads)
qed simp

lemma init_all_head:
  "i < length ds \<Longrightarrow> unat h + 36 * length ds < 2 ^ 32 \<Longrightarrow>
     heads (init_all h ds b) (head_addr h i) =
       fresh_head (head_addr h i) (of_nat (ds ! i)) (heads b (head_addr h i))"
proof (induction ds arbitrary: h b i)
  case (Cons d ds)
  have h: "unat (h + 36) = unat h + 36" using Cons.prems(2) by (intro unat_plus_36) simp
  show ?case
  proof (cases i)
    case 0
    have "h \<noteq> head_addr (h + 36) j" if "j < length ds" for j
      using head_addr_inj [OF Cons.prems(2), of 0 "Suc j"] that by (simp add: head_addr_Suc(2))
    then show ?thesis using 0 init_all_other [of ds h "h + 36"] by (simp add: init_head_heads)
  next
    case (Suc j)
    have "head_addr h i \<noteq> h" using head_addr_inj [OF Cons.prems(2), of i 0] Cons.prems(1) Suc by simp
    then show ?thesis
      using Cons.IH [of j "h + 36" "init_head h (of_nat d) b"] Cons.prems Suc h
      by (simp add: head_addr_Suc(2) init_head_heads)
  qed
qed simp

lemma init_all_frame:
  "start_buffer (init_all h ds b) = start_buffer b" "hash_table (init_all h ds b) = hash_table b"
  "nr_buffers (init_all h ds b) = nr_buffers b + of_nat (length ds)"
  by (induction ds arbitrary: h b) (simp_all add: init_head_def Let_def)

lemma clear_hash_frame:
  "heads (clear_hash n b) = heads b" "free_list (clear_hash n b) = free_list b"
  "start_buffer (clear_hash n b) = start_buffer b" "nr_buffers (clear_hash n b) = nr_buffers b"
  by (induction n arbitrary: b) (simp_all add: set_hash_def)

lemma clear_hash_table:
  "n \<le> NR_HASH \<Longrightarrow> hash_table (clear_hash n b) i = (if NR_HASH - n \<le> i \<and> i < NR_HASH then NULL else hash_table b i)"
  by (induction n arbitrary: b) (auto simp del: NR_HASH_def)

text \<open>\<open>links\<close> by positions.\<close>

lemma links_nth:
  "links n p xs \<longleftrightarrow> (\<forall>i. Suc i < length xs \<longrightarrow> n (xs ! i) = xs ! Suc i \<and> p (xs ! Suc i) = xs ! i)"
proof (induction n p xs rule: links.induct)
  case (1 n p x y zs)
  show ?case unfolding links.simps 1 by (auto simp: nth_Cons split: nat.splits)
qed auto

definition buffer_top :: "u32 \<Rightarrow> nat" where
  "buffer_top e = (if e = 0x100000 then 0xa0000 else unat e)"

definition init_heads :: "u32 \<Rightarrow> u32 \<Rightarrow> ptr list" where
  "init_heads s e = map (head_addr s) [0..<length (data_blocks (unat s) (buffer_top e))]"

definition close_ring :: "ptr \<Rightarrow> bstate \<Rightarrow> bstate" where
  "close_ring h b =
     upd_head h (\<lambda>x. x\<lparr>b_next_free := start_buffer b\<rparr>)
       (upd_head (start_buffer b) (\<lambda>x. x\<lparr>b_prev_free := h\<rparr>) (b\<lparr>free_list := start_buffer b\<rparr>))"

lemma buffer_init_eq:
  assumes "1024 \<le> unat (start_buffer b)" and "unat (start_buffer b) + 1060 \<le> buffer_top e"
  defines "ds \<equiv> data_blocks (unat (start_buffer b)) (buffer_top e)"
  shows "buffer_init e b = Some (clear_hash NR_HASH
    (close_ring (head_addr (start_buffer b) (length ds - 1)) (init_all (start_buffer b) ds b)))" and "ds \<noteq> []"
proof -
  let ?s = "start_buffer b" and ?d = "if e = push_bit 20 1 then 640 * 1024 else e :: u32"
  have d: "unat ?d = buffer_top e" by (simp add: buffer_top_def push_bit_of_1)
  have "buffer_top e < 2 ^ 32" unfolding d [symmetric] using unsigned_less [of ?d, where ?'a = nat] by simp
  then have l: "init_loop ?s ?d b = Some (head_addr ?s (length ds), init_all ?s ds b)"
    using assms(1,2) init_loop_blocks [of ?s ?d b] unfolding d ds_def by simp
  show ne: "ds \<noteq> []" using assms(2) unfolding ds_def by (subst data_blocks.simps) simp
  then obtain m where m: "length ds = Suc m" by (cases ds) auto
  have "head_addr ?s (length ds) - 36 = head_addr ?s (length ds - 1)" unfolding m by (simp add: head_addr_Suc)
  then show "buffer_init e b = Some (clear_hash NR_HASH
    (close_ring (head_addr ?s (length ds - 1)) (init_all ?s ds b)))"
    unfolding buffer_init_def Let_def l by (simp add: close_ring_def init_all_frame)
qed

lemma close_ring_links:
  assumes "start_buffer b = s"
  shows "nf (close_ring h b) = (nf b)(h := s)" "pf (close_ring h b) = (pf b)(s := h)"
    "nx (close_ring h b) = nx b" "pv (close_ring h b) = pv b" "free_list (close_ring h b) = s"
    "payload (heads (close_ring h b) p) = payload (heads b p)"
    "nr_buffers (close_ring h b) = nr_buffers b"
  using assms by (auto simp: close_ring_def fun_eq_iff link_defs payload_def)

lemma head_addr_ring:
  assumes n: "0 < n" "unat s + 36 * n < 2 ^ 32"
    and f: "\<And>i. i < n \<Longrightarrow> f (head_addr s i) = head_addr s i + 36"
    and g: "\<And>i. i < n \<Longrightarrow> g (head_addr s i) = head_addr s i - 36"
  shows "ring (f(head_addr s (n - 1) := s)) (g(s := head_addr s (n - 1))) (map (head_addr s) [0..<n])"
proof -
  let ?a = "head_addr s" and ?xs = "map (head_addr s) [0..<n] @ [head_addr s 0]"
  have inj: "?a i = ?a j \<longleftrightarrow> i = j" if "i \<le> n" "j \<le> n" for i j by (rule head_addr_inj [OF n(2) that])
  have xs: "?xs ! i = (if i < n then ?a i else s)" if "i \<le> n" for i
    using that by (simp add: nth_append)
  have "(f(?a (n - 1) := s)) (?xs ! i) = ?xs ! Suc i \<and> (g(s := ?a (n - 1))) (?xs ! Suc i) = ?xs ! i"
    if "Suc i < length ?xs" for i
  proof (cases "Suc i = n")
    case True
    then have "?xs ! i = ?a (n - 1)" "?xs ! Suc i = s" using xs [of i] xs [of "Suc i"] n(1) by auto
    then show ?thesis by (metis fun_upd_same)
  next
    case False
    then have i: "Suc i < n" using that by simp
    then have "?xs ! i = ?a i" "?xs ! Suc i = ?a (Suc i)" using xs [of i] xs [of "Suc i"] by auto
    moreover have "?a i \<noteq> ?a (n - 1)" "?a (Suc i) \<noteq> s" using inj [of i "n - 1"] inj [of "Suc i" 0] i by auto
    ultimately show ?thesis using f [of i] g [of "Suc i"] i by (simp add: head_addr_Suc)
  qed
  moreover have "hd (map ?a [0..<n]) = s" using n(1) by (simp add: hd_map)
  moreover have "distinct (map ?a [0..<n])" by (auto simp: distinct_map inj_on_def inj)
  ultimately show ?thesis using n(1) unfolding ring_def links_nth by simp
qed

lemma buffer_init_ok:
  assumes s: "1024 \<le> unat (start_buffer b)" and e: "unat (start_buffer b) + 1060 \<le> buffer_top e"
  defines "s \<equiv> start_buffer b"
  defines "ds \<equiv> data_blocks (unat s) (buffer_top e)"
  shows "\<exists>b'. buffer_init e b = Some b' \<and> cache_ok b' (init_heads s e) (\<lambda>_. []) \<and>
    nr_buffers b' = nr_buffers b + of_nat (length ds) \<and>
    (\<forall>i < length ds. \<exists>h. h = heads b' (head_addr s i) \<and> b_data h = of_nat (ds ! i) \<and> b_dev h = 0 \<and>
       b_dirt h = 0 \<and> b_count h = 0 \<and> b_lock h = 0 \<and> b_uptodate h = 0)"
proof -
  let ?n = "length ds"
  let ?b1 = "init_all s ds b"
  let ?b = "clear_hash NR_HASH (close_ring (head_addr s (?n - 1)) ?b1)"
  note eq = buffer_init_eq [OF s e, folded s_def, folded ds_def]
  have n: "0 < ?n" using eq(2) by simp
  have top: "buffer_top e < 2 ^ 32" using unsigned_less [of e, where ?'a = nat] by (simp add: buffer_top_def)
  have "unat s + 36 * ?n \<le> ds ! 0" using data_blocks_above n unfolding ds_def by blast
  moreover have "ds ! 0 + 1024 \<le> buffer_top e" using data_blocks_bounds n unfolding ds_def by blast
  ultimately have sp: "unat s + 36 * ?n < 2 ^ 32" using top by linarith
  note hd = init_all_head [OF _ sp]
  have st: "start_buffer ?b1 = s" by (simp add: init_all_frame s_def)
  note cl = close_ring_links [OF st, of "head_addr s (?n - 1)"]
  have pay: "payload (heads ?b (head_addr s i)) = payload (fresh_head (head_addr s i) (of_nat (ds ! i)) (heads b (head_addr s i)))"
    if "i < ?n" for i
    using cl(6) hd [OF that, of b] by (simp add: clear_hash_frame)
  have li: "nf ?b = (nf ?b1)(head_addr s (?n - 1) := s)" "pf ?b = (pf ?b1)(s := head_addr s (?n - 1))"
    "nx ?b = nx ?b1" "pv ?b = pv ?b1" "free_list ?b = s"
    using cl by (simp_all add: link_defs fun_eq_iff clear_hash_frame)
  have xs: "init_heads s e = map (head_addr s) [0..<?n]" by (simp add: init_heads_def ds_def)
  have "ring (nf ?b) (pf ?b) (init_heads s e)"
    unfolding li xs
    by (rule head_addr_ring [OF n sp]) (simp_all add: nf_def pf_def hd fresh_head_def)
  moreover have "hd (init_heads s e) = free_list ?b" unfolding xs li using n by (simp add: hd_map)
  moreover have "NULL \<notin> set (init_heads s e)"
  proof -
    have "head_addr s i \<noteq> NULL" if "i < ?n" for i
      using unat_head_addr [of s i] that sp s unfolding s_def [symmetric] by auto
    then show ?thesis by (auto simp: xs)
  qed
  moreover have dev: "b_dev (heads ?b p) = 0" "nx ?b p = NULL" "pv ?b p = NULL" if p: "p \<in> set (init_heads s e)" for p
  proof -
    obtain i where i: "i < ?n" "p = head_addr s i" using p xs by auto
    show "b_dev (heads ?b p) = 0" using pay [OF i(1)] i(2) by (simp add: payload_def fresh_head_def)
    show "nx ?b p = NULL" "pv ?b p = NULL" unfolding li(3,4) using hd [OF i(1), of b] i(2)
      by (simp_all add: nx_def pv_def fresh_head_def)
  qed
  ultimately have "cache_ok ?b (init_heads s e) (\<lambda>_. [])"
    by (simp add: cache_ok_def ring_rep_def hash_rep_def keys_unique_def bucket_def clear_hash_table)
  moreover have "nr_buffers ?b = nr_buffers b + of_nat ?n"
    using cl(7) by (simp add: clear_hash_frame init_all_frame)
  ultimately show ?thesis
    using eq(1) pay by (intro exI [of _ ?b]) (simp add: payload_def fresh_head_def)
qed

text \<open>The data addresses of the heads, as numbers.\<close>

definition data_of :: "bstate \<Rightarrow> ptr list \<Rightarrow> nat list" where
  "data_of b xs = map (\<lambda>p. unat (b_data (heads b p))) xs"

lemma buffer_init_lists:
  assumes s: "1024 \<le> unat (start_buffer b)" and e: "unat (start_buffer b) + 1060 \<le> buffer_top e"
  defines "xs \<equiv> init_heads (start_buffer b) e"
  shows "\<exists>b'. buffer_init e b = Some b' \<and> cache_ok b' xs (\<lambda>_. []) \<and>
    nr_buffers b' = nr_buffers b + of_nat (length xs) \<and> list_all (clean b') xs \<and>
    data_of b' xs = data_blocks (unat (start_buffer b)) (buffer_top e)"
proof -
  let ?s = "start_buffer b"
  let ?ds = "data_blocks (unat ?s) (buffer_top e)"
  obtain b' where b': "buffer_init e b = Some b'" "cache_ok b' xs (\<lambda>_. [])"
    "nr_buffers b' = nr_buffers b + of_nat (length ?ds)"
    "\<forall>i < length ?ds. \<exists>h. h = heads b' (head_addr ?s i) \<and> b_data h = of_nat (?ds ! i) \<and> b_dev h = 0 \<and>
       b_dirt h = 0 \<and> b_count h = 0 \<and> b_lock h = 0 \<and> b_uptodate h = 0"
    using buffer_init_ok [OF s e] unfolding xs_def by blast
  have xs: "xs = map (head_addr ?s) [0..<length ?ds]" by (simp add: xs_def init_heads_def)
  have top: "buffer_top e < 2 ^ 32" using unsigned_less [of e, where ?'a = nat] by (simp add: buffer_top_def)
  have "unat (b_data (heads b' (head_addr ?s i))) = ?ds ! i" if "i < length ?ds" for i
  proof -
    have "?ds ! i < 2 ^ 32" using data_blocks_bounds [OF that] top by linarith
    then show ?thesis using b'(4) that by (simp add: unat_of_nat)
  qed
  then have "data_of b' xs = ?ds" unfolding data_of_def xs by (intro nth_equalityI) simp_all
  moreover have "list_all (clean b') xs" using b'(4) by (auto simp: xs list_all_iff clean_def)
  ultimately show ?thesis using b'(1-3) by (intro exI [of _ b']) (simp add: xs)
qed

section \<open>Properties\<close>

text \<open>
  C20: \<^verbatim>\<open>buffer_init\<close> returns and establishes the invariant: the free list is the ring of all heads in
  address order from \<^verbatim>\<open>start_buffer\<close>, all of them clean and unused, every hash queue is empty, and
  \<^verbatim>\<open>NR_BUFFERS\<close> has grown by their number.
\<close>

theorem buffer_init_cache:
  assumes "1024 \<le> unat (start_buffer b)" and "unat (start_buffer b) + 1060 \<le> buffer_top e"
  shows "\<exists>b' xs. buffer_init e b = Some b' \<and> xs = init_heads (start_buffer b) e \<and> xs \<noteq> [] \<and>
    cache_ok b' xs (\<lambda>_. []) \<and> list_all (clean b') xs \<and> nr_buffers b' = nr_buffers b + of_nat (length xs)"
  using buffer_init_lists [OF assms] cache_okD(6) by blast

theorem buffer_init_cache_witness:
  "\<exists>b' xs. buffer_init 0x400000 (pair_cache 0 0) = Some b' \<and> xs = init_heads 0x1000 0x400000 \<and> xs \<noteq> [] \<and>
    cache_ok b' xs (\<lambda>_. []) \<and> list_all (clean b') xs \<and> nr_buffers b' = 2 + of_nat (length xs)"
  using buffer_init_cache [of "pair_cache 0 0" "0x400000"] by (simp add: pair_cache_def buffer_top_def)

text \<open>
  C21: where \<^verbatim>\<open>buffer_init\<close> puts the data blocks of a buffer memory that ends on a block boundary, at or
  below 640 KB or at or above 1 MB: each is 1024 bytes below the one before or lower, all lie above
  the last buffer head and below the end, and none touches the memory between 640 KB and 1 MB.
\<close>

theorem buffer_init_layout:
  assumes "1024 \<le> unat (start_buffer b)" and "unat (start_buffer b) + 1060 \<le> buffer_top e"
    and "1024 dvd unat e" and "unat e \<le> 0xa0000 \<or> 0x100000 \<le> unat e"
  shows "\<exists>b' xs. buffer_init e b = Some b' \<and> xs = init_heads (start_buffer b) e \<and>
    sorted_wrt (\<lambda>x y. y + 1024 \<le> x) (data_of b' xs) \<and>
    list_all (\<lambda>x. unat (start_buffer b) + 36 * length xs \<le> x \<and> x + 1024 \<le> unat e \<and>
                  (x + 1024 \<le> 0xa0000 \<or> 0x100000 \<le> x)) (data_of b' xs)"
proof -
  let ?s = "unat (start_buffer b)" and ?xs = "init_heads (start_buffer b) e"
  let ?ds = "data_blocks ?s (buffer_top e)"
  have len: "length ?xs = length ?ds" by (simp add: init_heads_def)
  have dvd: "1024 dvd buffer_top e" using assms(3) by (simp add: buffer_top_def)
  have top: "buffer_top e \<le> 0xa0000 \<or> 0x100000 < buffer_top e"
    using assms(4) by (auto simp: buffer_top_def word_unat_eq_iff order_le_less)
  have le: "buffer_top e \<le> unat e" by (simp add: buffer_top_def)
  have "?s + 36 * length ?xs \<le> ?ds ! i \<and> ?ds ! i + 1024 \<le> unat e \<and> (?ds ! i + 1024 \<le> 0xa0000 \<or> 0x100000 \<le> ?ds ! i)"
    if "i < length ?ds" for i
    using data_blocks_above [OF that] data_blocks_bounds [OF that] data_blocks_hole [OF that dvd top] le len by simp
  then have "list_all (\<lambda>x. ?s + 36 * length ?xs \<le> x \<and> x + 1024 \<le> unat e \<and>
      (x + 1024 \<le> 0xa0000 \<or> 0x100000 \<le> x)) ?ds"
    unfolding list_all_length by blast
  moreover have "sorted_wrt (\<lambda>x y. y + 1024 \<le> x) ?ds"
    unfolding sorted_wrt_iff_nth_less using data_blocks_apart by blast
  ultimately show ?thesis using buffer_init_lists [OF assms(1,2)] by auto
qed

theorem buffer_init_layout_witness:
  "\<exists>b' xs. buffer_init 0x400000 (pair_cache 0 0) = Some b' \<and> xs = init_heads 0x1000 0x400000 \<and>
    sorted_wrt (\<lambda>x y. y + 1024 \<le> x) (data_of b' xs) \<and>
    list_all (\<lambda>x. 0x1000 + 36 * length xs \<le> x \<and> x + 1024 \<le> 0x400000 \<and>
                  (x + 1024 \<le> 0xa0000 \<or> 0x100000 \<le> x)) (data_of b' xs)"
  using buffer_init_layout [of "pair_cache 0 0" "0x400000"] by (simp add: pair_cache_def buffer_top_def)

end
