(* ===== verification/Strings.thy ===== *)
theory Strings
  imports Prelude
begin

text \<open>
  The string functions of \<^verbatim>\<open>include/string.h\<close>.

  Each of them is one block of inline assembly.  A block is modelled over the registers it uses and a
  memory of bytes: the string instructions with a repeat prefix are functions of the count register,
  a loop through a label is a function of the registers that are live at the label, and a loop that
  only a byte of the memory ends is a partial function, with \<^const>\<open>None\<close> for a loop that does not end.
  Pointers and counters wrap around at 32 bits.  The flags are parameters where an instruction reads
  them and the instruction before it may leave them as they were.
\<close>

type_synonym bmem = "u32 \<Rightarrow> u8"

section \<open>String instructions\<close>

text \<open>\<open>repne scasb\<close>, \<open>repe cmpsb\<close>, \<open>rep movsb\<close>, \<open>rep stosb\<close>; with a count of zero the flags stay as they were.\<close>

function repne_scasb :: "u8 \<Rightarrow> bmem \<Rightarrow> u32 \<Rightarrow> u32 \<Rightarrow> bool \<Rightarrow> u32 \<times> u32 \<times> bool" where
  "repne_scasb al m ecx edi zf =
     (if ecx = 0 then (ecx, edi, zf)
      else if al = m edi then (ecx - 1, edi + 1, True)
      else repne_scasb al m (ecx - 1) (edi + 1) False)"
  by pat_completeness auto
termination
  by (relation "measure (\<lambda>(al, m, ecx, edi, zf). unat ecx)") (auto simp: unat_gt_0 unat_minus_one)

text \<open>The flags of a comparison: equal, and less as signed bytes.\<close>

function repe_cmpsb :: "bmem \<Rightarrow> u32 \<Rightarrow> u32 \<Rightarrow> u32 \<Rightarrow> bool \<times> bool \<Rightarrow> u32 \<times> (bool \<times> bool)" where
  "repe_cmpsb m ecx esi edi fl =
     (if ecx = 0 then (esi, fl)
      else if m esi = m edi then repe_cmpsb m (ecx - 1) (esi + 1) (edi + 1) (True, False)
      else (esi + 1, (False, sint (m esi) < sint (m edi))))"
  by pat_completeness auto
termination
  by (relation "measure (\<lambda>(m, ecx, esi, edi, fl). unat ecx)") (auto simp: unat_gt_0 unat_minus_one)

function rep_movsb :: "bool \<Rightarrow> u32 \<Rightarrow> u32 \<Rightarrow> u32 \<Rightarrow> bmem \<Rightarrow> bmem" where
  "rep_movsb df ecx esi edi m =
     (if ecx = 0 then m
      else let d = (if df then - 1 else 1)
           in rep_movsb df (ecx - 1) (esi + d) (edi + d) (m(edi := m esi)))"
  by pat_completeness auto
termination
  by (relation "measure (\<lambda>(df, ecx, esi, edi, m). unat ecx)") (auto simp: unat_gt_0 unat_minus_one)

function rep_stosb :: "u8 \<Rightarrow> u32 \<Rightarrow> u32 \<Rightarrow> bmem \<Rightarrow> bmem" where
  "rep_stosb al ecx edi m =
     (if ecx = 0 then m else rep_stosb al (ecx - 1) (edi + 1) (m(edi := al)))"
  by pat_completeness auto
termination
  by (relation "measure (\<lambda>(al, ecx, edi, m). unat ecx)") (auto simp: unat_gt_0 unat_minus_one)

declare repne_scasb.simps [simp del] repe_cmpsb.simps [simp del]
  rep_movsb.simps [simp del] rep_stosb.simps [simp del]

text \<open>The counter after \<open>notl; decl\<close>, for a scan that began with \<^verbatim>\<open>0xffffffff\<close>.\<close>

definition scan_len :: "u32 \<Rightarrow> bmem \<Rightarrow> u32" where
  "scan_len p m = (let (ecx, _, _) = repne_scasb 0 m 0xffffffff p False in NOT ecx - 1)"

section \<open>Copying\<close>

partial_function (option) copy_string :: "u32 \<Rightarrow> u32 \<Rightarrow> bmem \<Rightarrow> bmem option" where
  "copy_string esi edi m =
     (let al = m esi;
          m = m(edi := al)
      in if al \<noteq> 0 then copy_string (esi + 1) (edi + 1) m else Some m)"

definition strcpy :: "u32 \<Rightarrow> u32 \<Rightarrow> bmem \<Rightarrow> (u32 \<times> bmem) option" where
  "strcpy dest src m = map_option (\<lambda>m. (dest, m)) (copy_string src dest m)"

function strncpy_loop :: "u32 \<Rightarrow> u32 \<Rightarrow> u32 \<Rightarrow> bmem \<Rightarrow> bmem" where
  "strncpy_loop ecx esi edi m =
     (let ecx' = ecx - 1
      in if sint ecx' < 0 then m
         else
           let al = m esi
           in if al \<noteq> 0 then strncpy_loop ecx' (esi + 1) (edi + 1) (m(edi := al))
              else rep_stosb al ecx' (edi + 1) (m(edi := al)))"
  by pat_completeness auto
termination
proof (relation "measure (\<lambda>(ecx, esi, edi, m). unat ecx)", simp, goal_cases)
  case (1 ecx esi edi m x xa)
  then have "ecx \<noteq> 0" by auto
  then show ?case using 1(1) by (simp add: unat_gt_0 unat_minus_one)
qed

definition strncpy :: "u32 \<Rightarrow> u32 \<Rightarrow> u32 \<Rightarrow> bmem \<Rightarrow> u32 \<times> bmem" where
  "strncpy dest src count m = (dest, strncpy_loop count src dest m)"

text \<open>\<^verbatim>\<open>strcat\<close> and \<^verbatim>\<open>strncat\<close> find the end of \<^verbatim>\<open>dest\<close> first.\<close>

definition scan_end :: "u32 \<Rightarrow> bmem \<Rightarrow> u32" where
  "scan_end p m = (let (_, edi, _) = repne_scasb 0 m 0xffffffff p False in edi - 1)"

definition strcat :: "u32 \<Rightarrow> u32 \<Rightarrow> bmem \<Rightarrow> (u32 \<times> bmem) option" where
  "strcat dest src m = map_option (\<lambda>m. (dest, m)) (copy_string src (scan_end dest m) m)"

function strncat_loop :: "u32 \<Rightarrow> u32 \<Rightarrow> u32 \<Rightarrow> bmem \<Rightarrow> u32 \<times> bmem" where
  "strncat_loop ecx esi edi m =
     (let ecx' = ecx - 1
      in if sint ecx' < 0 then (edi, m)
         else
           let al = m esi
           in if al \<noteq> 0 then strncat_loop ecx' (esi + 1) (edi + 1) (m(edi := al))
              else (edi + 1, m(edi := al)))"
  by pat_completeness auto
termination
proof (relation "measure (\<lambda>(ecx, esi, edi, m). unat ecx)", simp, goal_cases)
  case (1 ecx esi edi m x xa)
  then have "ecx \<noteq> 0" by auto
  then show ?case using 1(1) by (simp add: unat_gt_0 unat_minus_one)
qed

definition strncat :: "u32 \<Rightarrow> u32 \<Rightarrow> u32 \<Rightarrow> bmem \<Rightarrow> u32 \<times> bmem" where
  "strncat dest src count m =
     (let (edi, m) = strncat_loop count src (scan_end dest m) m
      in (dest, m(edi := 0)))"

declare strncpy_loop.simps [simp del] strncat_loop.simps [simp del]

section \<open>Comparing\<close>

partial_function (option) strcmp_loop :: "bmem \<Rightarrow> u32 \<Rightarrow> u32 \<Rightarrow> u32 option" where
  "strcmp_loop m esi edi =
     (let al = m esi
      in if al \<noteq> m edi then Some (if sint al < sint (m edi) then 1 else - 1)
         else if al \<noteq> 0 then strcmp_loop m (esi + 1) (edi + 1)
         else Some 0)"

definition strcmp :: "u32 \<Rightarrow> u32 \<Rightarrow> bmem \<Rightarrow> u32 option" where
  "strcmp cs ct m = strcmp_loop m ct cs"

function strncmp_loop :: "bmem \<Rightarrow> u32 \<Rightarrow> u32 \<Rightarrow> u32 \<Rightarrow> u32" where
  "strncmp_loop m ecx esi edi =
     (let ecx' = ecx - 1
      in if sint ecx' < 0 then 0
         else
           let al = m esi
           in if al \<noteq> m edi then if sint al < sint (m edi) then 1 else - 1
              else if al \<noteq> 0 then strncmp_loop m ecx' (esi + 1) (edi + 1)
              else 0)"
  by pat_completeness auto
termination
proof (relation "measure (\<lambda>(m, ecx, esi, edi). unat ecx)", simp, goal_cases)
  case (1 m ecx esi edi x xa)
  then have "ecx \<noteq> 0" by auto
  then show ?case using 1(1) by (simp add: unat_gt_0 unat_minus_one)
qed

definition strncmp :: "u32 \<Rightarrow> u32 \<Rightarrow> u32 \<Rightarrow> bmem \<Rightarrow> u32" where
  "strncmp cs ct count m = strncmp_loop m count ct cs"

declare strncmp_loop.simps [simp del]

section \<open>Searching\<close>

definition strlen :: "u32 \<Rightarrow> bmem \<Rightarrow> u32" where
  "strlen s m = scan_len s m"

partial_function (option) strchr_loop :: "bmem \<Rightarrow> u8 \<Rightarrow> u32 \<Rightarrow> u32 option" where
  "strchr_loop m ah esi =
     (let al = m esi;
          esi = esi + 1
      in if al = ah then Some (esi - 1)
         else if al \<noteq> 0 then strchr_loop m ah esi
         else Some (1 - 1))"

definition strchr :: "u32 \<Rightarrow> u8 \<Rightarrow> bmem \<Rightarrow> u32 option" where
  "strchr s c m = strchr_loop m c s"

partial_function (option) strrchr_loop :: "bmem \<Rightarrow> u8 \<Rightarrow> u32 \<Rightarrow> u32 \<Rightarrow> u32 option" where
  "strrchr_loop m ah esi edx =
     (let al = m esi;
          esi = esi + 1;
          edx = (if al = ah then esi - 1 else edx)
      in if al \<noteq> 0 then strrchr_loop m ah esi edx else Some edx)"

definition strrchr :: "u32 \<Rightarrow> u8 \<Rightarrow> bmem \<Rightarrow> u32 option" where
  "strrchr s c m = strrchr_loop m c s 0"

text \<open>
  \<open>in_set\<close> is the test of a byte against the set \<^verbatim>\<open>ct\<close> of length \<open>edx\<close>: \<^verbatim>\<open>repne scasb\<close> after a
  \<^verbatim>\<open>testb\<close> of a byte that is not zero.  The loops of \<^verbatim>\<open>strspn\<close>, \<^verbatim>\<open>strcspn\<close> and \<^verbatim>\<open>strpbrk\<close> return
  the register \<^verbatim>\<open>esi\<close> at the label \<^verbatim>\<open>2\<close>; that of \<^verbatim>\<open>strpbrk\<close> returns to the caller.
\<close>

definition in_set :: "bmem \<Rightarrow> u32 \<Rightarrow> u32 \<Rightarrow> u8 \<Rightarrow> bool" where
  "in_set m ct edx al = snd (snd (repne_scasb al m edx ct False))"

partial_function (option) strspn_loop :: "bmem \<Rightarrow> u32 \<Rightarrow> u32 \<Rightarrow> u32 \<Rightarrow> u32 option" where
  "strspn_loop m ct edx esi =
     (let al = m esi;
          esi = esi + 1
      in if al = 0 then Some esi
         else if in_set m ct edx al then strspn_loop m ct edx esi
         else Some esi)"

definition strspn :: "u32 \<Rightarrow> u32 \<Rightarrow> bmem \<Rightarrow> u32 option" where
  "strspn cs ct m = map_option (\<lambda>esi. esi - 1 - cs) (strspn_loop m ct (scan_len ct m) cs)"

partial_function (option) strcspn_loop :: "bmem \<Rightarrow> u32 \<Rightarrow> u32 \<Rightarrow> u32 \<Rightarrow> u32 option" where
  "strcspn_loop m ct edx esi =
     (let al = m esi;
          esi = esi + 1
      in if al = 0 then Some esi
         else if \<not> in_set m ct edx al then strcspn_loop m ct edx esi
         else Some esi)"

definition strcspn :: "u32 \<Rightarrow> u32 \<Rightarrow> bmem \<Rightarrow> u32 option" where
  "strcspn cs ct m = map_option (\<lambda>esi. esi - 1 - cs) (strcspn_loop m ct (scan_len ct m) cs)"

partial_function (option) strpbrk_loop :: "bmem \<Rightarrow> u32 \<Rightarrow> u32 \<Rightarrow> u32 \<Rightarrow> u32 option" where
  "strpbrk_loop m ct edx esi =
     (let al = m esi;
          esi = esi + 1
      in if al = 0 then Some 0
         else if \<not> in_set m ct edx al then strpbrk_loop m ct edx esi
         else Some (esi - 1))"

definition strpbrk :: "u32 \<Rightarrow> u32 \<Rightarrow> bmem \<Rightarrow> u32 option" where
  "strpbrk cs ct m = strpbrk_loop m ct (scan_len ct m) cs"

text \<open>
  \<^verbatim>\<open>strstr\<close>: the flag \<open>zf\<close> at the label \<^verbatim>\<open>1\<close> is set by \<^verbatim>\<open>decl %ecx\<close> the first time and by
  \<^verbatim>\<open>cmpb $0,-1(%eax)\<close> after that.
\<close>

partial_function (option) strstr_loop :: "bmem \<Rightarrow> u32 \<Rightarrow> u32 \<Rightarrow> bool \<Rightarrow> u32 \<Rightarrow> u32 option" where
  "strstr_loop m ct edx zf esi =
     (let (e, (zf', _)) = repe_cmpsb m edx esi ct (zf, False)
      in if zf' then Some esi
         else if m (e - 1) \<noteq> 0 then strstr_loop m ct edx False (esi + 1)
         else Some 0)"

definition strstr :: "u32 \<Rightarrow> u32 \<Rightarrow> bmem \<Rightarrow> u32 option" where
  "strstr cs ct m = (let n = scan_len ct m in strstr_loop m ct n (n = 0) cs)"

section \<open>\<^verbatim>\<open>strtok\<close>\<close>

text \<open>
  \<^verbatim>\<open>esi\<close> and \<^verbatim>\<open>ebx\<close> are the operands \<^verbatim>\<open>%1\<close> and \<^verbatim>\<open>%0\<close>.  The loops at the labels \<^verbatim>\<open>2\<close> and \<^verbatim>\<open>3\<close> return
  \<open>Inl esi\<close> when they meet the end of the string and \<open>Inr esi\<close> when they meet the byte they look for.
\<close>

partial_function (option) strtok_skip :: "bmem \<Rightarrow> u32 \<Rightarrow> u32 \<Rightarrow> u32 \<Rightarrow> (u32 + u32) option" where
  "strtok_skip m ct edx esi =
     (let al = m esi;
          esi = esi + 1
      in if al = 0 then Some (Inl esi)
         else if in_set m ct edx al then strtok_skip m ct edx esi
         else Some (Inr esi))"

partial_function (option) strtok_scan :: "bmem \<Rightarrow> u32 \<Rightarrow> u32 \<Rightarrow> u32 \<Rightarrow> (u32 + u32) option" where
  "strtok_scan m ct edx esi =
     (let al = m esi;
          esi = esi + 1
      in if al = 0 then Some (Inl esi)
         else if \<not> in_set m ct edx al then strtok_scan m ct edx esi
         else Some (Inr esi))"

text \<open>From the labels \<^verbatim>\<open>7\<close>, \<^verbatim>\<open>6\<close>, \<^verbatim>\<open>3\<close> and \<^verbatim>\<open>1\<close> to the end; the result is \<^verbatim>\<open>__res\<close>, \<^verbatim>\<open>___strtok\<close> and the memory.\<close>

definition strtok_7 :: "u32 \<Rightarrow> u32 \<Rightarrow> bmem \<Rightarrow> u32 \<times> u32 \<times> bmem" where
  "strtok_7 ebx esi m = (let esi = (if ebx \<noteq> 0 then esi else ebx) in (ebx, esi, m))"

definition strtok_6 :: "u32 \<Rightarrow> u32 \<Rightarrow> bmem \<Rightarrow> u32 \<times> u32 \<times> bmem" where
  "strtok_6 ebx esi m = strtok_7 (if m ebx \<noteq> 0 then ebx else 0) esi m"

definition strtok_3 :: "u32 \<Rightarrow> u32 \<Rightarrow> u32 \<Rightarrow> bmem \<Rightarrow> (u32 \<times> u32 \<times> bmem) option" where
  "strtok_3 ebx ct edx m =
     (case strtok_scan m ct edx ebx of
        None \<Rightarrow> None
      | Some (Inl esi) \<Rightarrow> Some (strtok_6 ebx 0 m)
      | Some (Inr esi) \<Rightarrow>
          if m (esi - 1) = 0 then Some (strtok_6 ebx 0 m)
          else Some (strtok_6 ebx (esi - 1 + 1) (m(esi - 1 := 0))))"

definition strtok_1 :: "u32 \<Rightarrow> u32 \<Rightarrow> bmem \<Rightarrow> (u32 \<times> u32 \<times> bmem) option" where
  "strtok_1 esi ct m =
     (let edx = scan_len ct m
      in if edx = 0 then Some (strtok_7 0 esi m)
         else
           (case strtok_skip m ct edx esi of
              None \<Rightarrow> None
            | Some (Inl esi) \<Rightarrow> Some (strtok_7 0 esi m)
            | Some (Inr esi) \<Rightarrow>
                if m (esi - 1) = 0 then Some (strtok_7 0 (esi - 1) m)
                else strtok_3 (esi - 1) ct edx m))"

definition strtok :: "u32 \<Rightarrow> u32 \<Rightarrow> u32 \<Rightarrow> bmem \<Rightarrow> (u32 \<times> u32 \<times> bmem) option" where
  "strtok s ct saved m =
     (if s \<noteq> 0 then strtok_1 s ct m
      else if saved = 0 then Some (saved, s, m)
      else strtok_1 saved ct m)"

section \<open>Blocks of memory\<close>

definition memcpy :: "u32 \<Rightarrow> u32 \<Rightarrow> u32 \<Rightarrow> bmem \<Rightarrow> u32 \<times> bmem" where
  "memcpy dest src n m = (dest, rep_movsb False n src dest m)"

text \<open>\<^verbatim>\<open>memmove\<close> with the direction flag it leaves.\<close>

definition memmove :: "u32 \<Rightarrow> u32 \<Rightarrow> u32 \<Rightarrow> bmem \<Rightarrow> u32 \<times> bmem \<times> bool" where
  "memmove dest src n m =
     (if dest < src then (dest, rep_movsb False n src dest m, False)
      else (dest, rep_movsb True n (src + n - 1) (dest + n - 1) m, True))"

text \<open>With a count of zero, \<^verbatim>\<open>memcmp\<close> branches on flags it has not set: they are a parameter.\<close>

definition memcmp :: "bool \<times> bool \<Rightarrow> u32 \<Rightarrow> u32 \<Rightarrow> u32 \<Rightarrow> bmem \<Rightarrow> u32" where
  "memcmp fl cs ct count m =
     (let (_, (zf, lt)) = repe_cmpsb m count ct cs fl
      in if zf then 0 else if lt then 1 else - 1)"

definition memchr :: "u32 \<Rightarrow> u8 \<Rightarrow> u32 \<Rightarrow> bmem \<Rightarrow> u32" where
  "memchr cs c count m =
     (if count = 0 then 0
      else
        let (_, edi, zf) = repne_scasb c m count cs False
        in (if zf then edi else 1) - 1)"

definition memset :: "u32 \<Rightarrow> u8 \<Rightarrow> u32 \<Rightarrow> bmem \<Rightarrow> u32 \<times> bmem" where
  "memset s c count m = (s, rep_stosb c count s m)"

end
