(* ===== verification/HardDisk.thy ===== *)
theory HardDisk
  imports Buffer Strings
begin

text \<open>
  The hard disk: the driver \<^verbatim>\<open>kernel/blk_drv/hd.c\<close>, the block device structures of \<^verbatim>\<open>kernel/blk_drv/blk.h\<close>
  and \<^verbatim>\<open>ll_rw_blk.c\<close>, the controller registers of \<^verbatim>\<open>include/linux/hdreg.h\<close> and the interrupt entry
  \<^verbatim>\<open>hd_interrupt\<close> of \<^verbatim>\<open>kernel/idt.asm\<close>.

  Requests live in a store indexed by their address.  What a port returns is hardware: the byte read
  from a port is a function \<open>inb\<close>, and the words that a port returns one after the other are a function \<open>inw\<close>
  of the port and their number, arguments of the interrupt that reads them.  The function pointer \<^verbatim>\<open>do_hd\<close> names a function of the driver.
\<close>

section \<open>Controller registers\<close>

definition HD_DATA :: u16 where [simp, kconsts]: "HD_DATA = 0x1f0"
definition HD_ERROR :: u16 where [simp, kconsts]: "HD_ERROR = 0x1f1"
definition HD_STATUS :: u16 where [simp, kconsts]: "HD_STATUS = 0x1f7"
definition ERR_STAT :: u8 where [simp, kconsts]: "ERR_STAT = 0x01"
definition SEEK_STAT :: u8 where [simp, kconsts]: "SEEK_STAT = 0x10"
definition WRERR_STAT :: u8 where [simp, kconsts]: "WRERR_STAT = 0x20"
definition READY_STAT :: u8 where [simp, kconsts]: "READY_STAT = 0x40"
definition BUSY_STAT :: u8 where [simp, kconsts]: "BUSY_STAT = 0x80"

section \<open>Devices and requests\<close>

definition MAJOR :: "u32 \<Rightarrow> u32" where
  "MAJOR a = drop_bit 8 a"

definition MINOR :: "u32 \<Rightarrow> u32" where
  "MINOR a = a AND 0xff"

definition MAJOR_NR :: nat where [simp, kconsts]: "MAJOR_NR = 3"
definition NR_BLK_DEV :: nat where [simp, kconsts]: "NR_BLK_DEV = 7"
definition NR_REQUEST :: nat where [simp, kconsts]: "NR_REQUEST = 32"
definition READ :: u32 where [simp, kconsts]: "READ = 0"
definition WRITE :: u32 where [simp, kconsts]: "WRITE = 1"

definition DEVICE_NR :: "u32 \<Rightarrow> u32" where
  "DEVICE_NR device = c_div (MINOR device) 5"

record request =
  rq_dev :: u32
  rq_cmd :: u32
  rq_errors :: u32
  rq_sector :: u32
  rq_nr_sectors :: u32
  rq_buffer :: ptr
  rq_waiting :: ptr
  rq_bh :: ptr
  rq_next :: ptr

definition sizeof_request :: u32 where [simp, kconsts]: "sizeof_request = 36"

definition IN_ORDER :: "request \<Rightarrow> request \<Rightarrow> bool" where
  "IN_ORDER s1 s2 \<longleftrightarrow>
     sint (rq_cmd s1) < sint (rq_cmd s2) \<or> rq_cmd s1 = rq_cmd s2 \<and>
     (sint (rq_dev s1) < sint (rq_dev s2) \<or> rq_dev s1 = rq_dev s2 \<and>
      rq_sector s1 < rq_sector s2)"

datatype hd_fn = Hd_null | Hd_read_intr

record blk_dev_struct =
  request_fn :: ptr
  current_request :: ptr

record hdstate =
  reqs :: "ptr \<Rightarrow> request"
  request_array :: ptr
  blk_dev :: "nat \<Rightarrow> blk_dev_struct"
  do_hd :: hd_fn
  hd_timeout :: u32
  hd_mem :: bmem
  hd_cpu :: cpu
  hd_log :: "string list"

text \<open>\<^verbatim>\<open>blk_dev\<close> before any driver is initialised.\<close>

definition blk_dev_init :: "nat \<Rightarrow> blk_dev_struct" where
  "blk_dev_init i = \<lparr>request_fn = NULL, current_request = NULL\<rparr>"

definition CURRENT :: "hdstate \<Rightarrow> ptr" where
  "CURRENT st = current_request (blk_dev st MAJOR_NR)"

definition CURRENT_DEV :: "hdstate \<Rightarrow> u32" where
  "CURRENT_DEV st = DEVICE_NR (rq_dev (reqs st (CURRENT st)))"

definition SET_INTR :: "hd_fn \<Rightarrow> hdstate \<Rightarrow> hdstate" where
  "SET_INTR x st = st\<lparr>do_hd := x, hd_timeout := 200\<rparr>"

definition upd_req :: "ptr \<Rightarrow> (request \<Rightarrow> request) \<Rightarrow> hdstate \<Rightarrow> hdstate" where
  "upd_req r f st = st\<lparr>reqs := (reqs st)(r := f (reqs st r))\<rparr>"

definition hd_print :: "string \<Rightarrow> hdstate \<Rightarrow> hdstate" where
  "hd_print s st = st\<lparr>hd_log := hd_log st @ [s]\<rparr>"

definition hd_out :: "u8 \<Rightarrow> u16 \<Rightarrow> hdstate \<Rightarrow> hdstate" where
  "hd_out v port st = st\<lparr>hd_cpu := outb v port (hd_cpu st)\<rparr>"

definition hd_out_p :: "u8 \<Rightarrow> u16 \<Rightarrow> hdstate \<Rightarrow> hdstate" where
  "hd_out_p v port st = st\<lparr>hd_cpu := outb_p v port (hd_cpu st)\<rparr>"

text \<open>\<^verbatim>\<open>unlock_buffer\<close> works on the heads of the buffer cache.\<close>

definition unlock_buffer :: "ptr \<Rightarrow> bstate \<Rightarrow> bstate" where
  "unlock_buffer bh b =
     (let b = (if b_lock (heads b bh) = 0
               then b\<lparr>bsched := printk (''harddisk: free buffer being unlocked'' @ [CHR 0x0A]) (bsched b)\<rparr> else b);
          b = upd_head bh (\<lambda>h. h\<lparr>b_lock := 0\<rparr>) b
      in b\<lparr>bsched := wake_up (WQ_buffer bh) (bsched b)\<rparr>)"

text \<open>\<^verbatim>\<open>INIT_REQUEST\<close>: \<open>False\<close> where the request function is to return.\<close>

definition INIT_REQUEST :: "(ptr \<Rightarrow> buffer_head) \<Rightarrow> hdstate \<Rightarrow> (bool \<times> hdstate) kres" where
  "INIT_REQUEST bhs st =
     (if CURRENT st = NULL then Inr (False, st\<lparr>do_hd := Hd_null, hd_timeout := 0\<rparr>)
      else
        let r = reqs st (CURRENT st)
        in if MAJOR (rq_dev r) \<noteq> of_nat MAJOR_NR then Inl (Panic ''harddisk: request list destroyed'')
           else if rq_bh r \<noteq> NULL \<and> b_lock (bhs (rq_bh r)) = 0 then Inl (Panic ''harddisk: block not locked'')
           else Inr (True, st))"

section \<open>The driver\<close>

text \<open>A word is stored with its low byte first.\<close>

primrec put_bytes :: "u32 \<Rightarrow> u8 list \<Rightarrow> bmem \<Rightarrow> bmem" where
  "put_bytes p [] m = m"
| "put_bytes p (b # bs) m = put_bytes (p + 1) bs (m(p := b))"

definition word_bytes :: "u16 \<Rightarrow> u8 list" where
  "word_bytes w = [ucast w, ucast (drop_bit 8 w)]"

text \<open>\<^verbatim>\<open>cld;rep;insw\<close> stores \<open>nr\<close> words from the port.\<close>

definition port_read :: "(u16 \<Rightarrow> nat \<Rightarrow> u16) \<Rightarrow> u16 \<Rightarrow> u32 \<Rightarrow> nat \<Rightarrow> bmem \<Rightarrow> bmem" where
  "port_read inw port buf nr m = put_bytes buf (concat (map (\<lambda>i. word_bytes (inw port i)) [0..<nr])) m"

definition win_result :: "(u16 \<Rightarrow> u8) \<Rightarrow> bool" where
  "win_result inb =
     (let i = inb HD_STATUS
      in if i AND (BUSY_STAT OR READY_STAT OR WRERR_STAT OR SEEK_STAT OR ERR_STAT) = READY_STAT OR SEEK_STAT
         then False
         else let i = (if i AND 1 \<noteq> 0 then inb HD_ERROR else i) in True)"

definition read_intr :: "(u16 \<Rightarrow> u8) \<Rightarrow> (u16 \<Rightarrow> nat \<Rightarrow> u16) \<Rightarrow> hdstate \<Rightarrow> hdstate kres" where
  "read_intr inb inw st =
     (if win_result inb then Inr (hd_print (''bad rw intr'' @ [CHR 0x0A]) st)
      else if CURRENT st = NULL then Inl (Out_of_bounds ''CURRENT'')
      else
        let r = CURRENT st;
            st = st\<lparr>hd_mem := port_read inw HD_DATA (rq_buffer (reqs st r)) 256 (hd_mem st)\<rparr>;
            st = hd_print (''read into buffer success'' @ [CHR 0x0A]) st;
            st = upd_req r (\<lambda>q. q\<lparr>rq_errors := 0, rq_buffer := rq_buffer q + 512, rq_sector := rq_sector q + 1,
                                 rq_nr_sectors := rq_nr_sectors q - 1\<rparr>) st
        in Inr (if rq_nr_sectors (reqs st r) \<noteq> 0 then SET_INTR Hd_read_intr st else st))"

text \<open>\<^verbatim>\<open>unexpected_hd_int\<close> prints and halts the processor.\<close>

definition unexpected_hd_int :: "hdstate \<Rightarrow> hdstate kres" where
  "unexpected_hd_int st = Inl (Panic ''unexpected int'')"

definition hd_interrupt :: "(u16 \<Rightarrow> u8) \<Rightarrow> (u16 \<Rightarrow> nat \<Rightarrow> u16) \<Rightarrow> hdstate \<Rightarrow> hdstate kres" where
  "hd_interrupt inb inw st =
     (let st = hd_out 0x20 0xa0 st;
          f = do_hd st;
          st = st\<lparr>hd_timeout := 0, do_hd := Hd_null\<rparr>;
          st = hd_out 0x20 0x20 st
      in case f of
           Hd_null \<Rightarrow> unexpected_hd_int st
         | Hd_read_intr \<Rightarrow> read_intr inb inw st)"

definition hd_init :: "u32 \<Rightarrow> (u16 \<Rightarrow> u8) \<Rightarrow> cpu \<Rightarrow> cpu" where
  "hd_init hd_intr inb_p c =
     (let c = c\<lparr>idt := set_intr_gate (idt c) 0x2E hd_intr\<rparr>;
          c = outb_p (inb_p 0x21 AND 0xfb) 0x21 c
      in outb (inb_p 0xA1 AND 0xbf) 0xA1 c)"

definition mock_hd_out :: "hdstate \<Rightarrow> hdstate" where
  "mock_hd_out st =
     (let st = SET_INTR Hd_read_intr st;
          st = hd_out_p 0xc8 0x3f6 st;
          st = hd_out_p 0xff 0x1f1 st;
          st = hd_out_p 0x02 0x1f2 st;
          st = hd_out_p 0x01 0x1f3 st;
          st = hd_out_p 0 0x1f4 st;
          st = hd_out_p 0 0x1f5 st;
          st = hd_out_p 0xa0 0x1f6 st
      in hd_out 0x20 0x1f7 st)"

text \<open>The static \<^verbatim>\<open>sys_kdebug\<close> of the driver; \<open>bh\<close> is the address of \<^verbatim>\<open>test_bh\<close>, \<open>h\<close> its contents.\<close>

definition test_bh :: "ptr \<Rightarrow> buffer_head" where
  "test_bh hd_test_buf =
     \<lparr>b_data = hd_test_buf, b_blocknr = 0, b_dev = 0x300, b_uptodate = 0, b_dirt = 0, b_count = 1, b_lock = 0,
      b_prev = NULL, b_next = NULL, b_prev_free = NULL, b_next_free = NULL\<rparr>"

definition hd_kdebug :: "ptr \<Rightarrow> buffer_head \<Rightarrow> hdstate \<Rightarrow> u32 \<times> hdstate" where
  "hd_kdebug bh h st =
     (let req = request_array st + 31 * sizeof_request;
          st = upd_req req (\<lambda>q. q\<lparr>rq_dev := ucast (b_dev h), rq_cmd := READ, rq_errors := 0,
                 rq_sector := push_bit 1 (b_blocknr h), rq_nr_sectors := 2, rq_buffer := b_data h,
                 rq_bh := bh, rq_next := NULL\<rparr>) st;
          st = st\<lparr>blk_dev := (blk_dev st)(3 := (blk_dev st 3)\<lparr>current_request := req\<rparr>)\<rparr>
      in (0, mock_hd_out st))"

section \<open>Memory\<close>

lemma put_bytes_append: "put_bytes p (bs @ cs) m = put_bytes (p + of_nat (length bs)) cs (put_bytes p bs m)"
  by (induction bs arbitrary: p m) (auto simp: algebra_simps)

lemma put_bytes_other: "(\<And>i. i < length bs \<Longrightarrow> a \<noteq> p + of_nat i) \<Longrightarrow> put_bytes p bs m a = m a"
proof (induction bs arbitrary: p m)
  case (Cons b bs)
  have "a \<noteq> p" using Cons.prems [of 0] by simp
  moreover have "a \<noteq> p + 1 + of_nat i" if "i < length bs" for i
    using Cons.prems [of "Suc i"] that by (simp add: algebra_simps)
  ultimately show ?case using Cons.IH [of "p + 1" "m(p := b)"] by (simp add: fun_upd_def)
qed simp

lemma put_bytes_nth:
  "length bs \<le> 2 ^ 32 \<Longrightarrow> i < length bs \<Longrightarrow> put_bytes p bs m (p + of_nat i) = bs ! i"
proof (induction bs arbitrary: p m i)
  case (Cons b bs)
  have sep: "p \<noteq> p + 1 + of_nat j" if "j < length bs" for j
  proof
    assume "p = p + 1 + of_nat j"
    then have "(of_nat (Suc j) :: u32) = 0" by (simp add: algebra_simps)
    then have "2 ^ 32 dvd Suc j" by (simp only: word_of_nat_eq_0_iff) simp
    then show False using Cons.prems(1) that dvd_imp_le [of "2 ^ 32" "Suc j"] by simp
  qed
  show ?case
  proof (cases i)
    case 0
    then show ?thesis using put_bytes_other [of bs p "p + 1" "m(p := b)"] sep by simp
  next
    case (Suc j)
    have "put_bytes (p + 1) bs (m(p := b)) (p + 1 + of_nat j) = bs ! j"
      using Cons.IH [of j "p + 1" "m(p := b)"] Cons.prems Suc by (simp add: fun_upd_def)
    then show ?thesis using Suc by (simp add: algebra_simps)
  qed
qed simp

lemma length_words [simp]: "length (concat (map (\<lambda>i. word_bytes (f i)) is)) = 2 * length is"
  by (induction "is") (simp_all add: word_bytes_def)

section \<open>Interrupts\<close>

text \<open>A run of interrupts; each has what the ports return to it, bytes and words.\<close>

type_synonym irq = "(u16 \<Rightarrow> u8) \<times> (u16 \<Rightarrow> nat \<Rightarrow> u16)"

fun hd_run :: "irq list \<Rightarrow> hdstate \<Rightarrow> hdstate kres" where
  "hd_run [] st = Inr st"
| "hd_run ((inb, inw) # irqs) st =
     (case hd_interrupt inb inw st of Inl e \<Rightarrow> Inl e | Inr st \<Rightarrow> hd_run irqs st)"

lemmas hd_defs = hd_interrupt_def read_intr_def unexpected_hd_int_def hd_out_def hd_print_def upd_req_def
  SET_INTR_def CURRENT_def Let_def

lemma hd_interrupt_idle: "do_hd st = Hd_null \<Longrightarrow> hd_interrupt inb inw st = Inl (Panic ''unexpected int'')"
  by (simp add: hd_defs)

text \<open>One good interrupt of a read.\<close>

definition sector_read :: "(u16 \<Rightarrow> nat \<Rightarrow> u16) \<Rightarrow> ptr \<Rightarrow> hdstate \<Rightarrow> hdstate \<Rightarrow> bool" where
  "sector_read inw r st st' \<longleftrightarrow>
     hd_mem st' = port_read inw HD_DATA (rq_buffer (reqs st r)) 256 (hd_mem st) \<and>
     reqs st' = (reqs st)(r := (reqs st r)\<lparr>rq_errors := 0, rq_buffer := rq_buffer (reqs st r) + 512,
        rq_sector := rq_sector (reqs st r) + 1, rq_nr_sectors := rq_nr_sectors (reqs st r) - 1\<rparr>) \<and>
     blk_dev st' = blk_dev st \<and>
     (do_hd st', hd_timeout st') =
       (if rq_nr_sectors (reqs st r) = 1 then (Hd_null, 0) else (Hd_read_intr, 200))"

lemma hd_interrupt_good:
  assumes "do_hd st = Hd_read_intr" "CURRENT st = r" "r \<noteq> NULL" "\<not> win_result inb"
  shows "\<exists>st'. hd_interrupt inb inw st = Inr st' \<and> sector_read inw r st st'"
  using assms by (auto simp: hd_defs sector_read_def)

text \<open>The 256 words of each sector, low byte first.\<close>

definition sector_bytes :: "irq list \<Rightarrow> u8 list" where
  "sector_bytes irqs = concat (map (\<lambda>(inb, inw). concat (map (\<lambda>i. word_bytes (inw 0x1f0 i)) [0..<256])) irqs)"

definition good_sector :: "irq \<Rightarrow> bool" where
  "good_sector = (\<lambda>(inb, inw). \<not> win_result inb)"

lemma hd_run_good:
  assumes "do_hd st = Hd_read_intr" "CURRENT st = r" "r \<noteq> NULL" "list_all good_sector irqs" "irqs \<noteq> []"
    and "length irqs < 2 ^ 32" "rq_nr_sectors (reqs st r) = of_nat (length irqs)"
  shows "\<exists>st'. hd_run irqs st = Inr st' \<and>
    hd_mem st' = put_bytes (rq_buffer (reqs st r)) (sector_bytes irqs) (hd_mem st) \<and>
    reqs st' = (reqs st)(r := (reqs st r)\<lparr>rq_errors := 0, rq_buffer := rq_buffer (reqs st r) + 512 * of_nat (length irqs),
        rq_sector := rq_sector (reqs st r) + of_nat (length irqs), rq_nr_sectors := 0\<rparr>) \<and>
    blk_dev st' = blk_dev st \<and> do_hd st' = Hd_null \<and> hd_timeout st' = 0"
  using assms
proof (induction irqs arbitrary: st)
  case (Cons irq irqs)
  obtain inb inw where irq: "irq = (inb, inw)" by fastforce
  have good: "\<not> win_result inb" using Cons.prems(4) irq by (auto simp: good_sector_def)
  obtain st1 where st1: "hd_interrupt inb inw st = Inr st1" "sector_read inw r st st1"
    using hd_interrupt_good [OF Cons.prems(1-3) good, of inw] by auto
  note s = st1(2) [unfolded sector_read_def]
  have nr: "rq_nr_sectors (reqs st r) = of_nat (length irqs) + 1" using Cons.prems(7) by simp
  show ?case
  proof (cases "irqs = []")
    case True
    then show ?thesis using s st1(1) nr irq by (simp add: sector_bytes_def port_read_def fun_upd_def)
  next
    case False
    have "(of_nat (length irqs) :: u32) \<noteq> 0"
      using False Cons.prems(6) dvd_imp_le [of "2 ^ 32" "length irqs"] by (auto simp: word_of_nat_eq_0_iff)
    then have live: "do_hd st1 = Hd_read_intr" using s nr by simp
    have cur: "CURRENT st1 = r" using s Cons.prems(2) by (simp add: CURRENT_def)
    have "list_all good_sector irqs" "length irqs < 2 ^ 32" "rq_nr_sectors (reqs st1 r) = of_nat (length irqs)"
      using Cons.prems(4,6) s nr by simp_all
    then obtain st' where "hd_run irqs st1 = Inr st'"
      and st': "hd_mem st' = put_bytes (rq_buffer (reqs st1 r)) (sector_bytes irqs) (hd_mem st1)"
        "reqs st' = (reqs st1)(r := (reqs st1 r)\<lparr>rq_errors := 0, rq_buffer := rq_buffer (reqs st1 r) + 512 * of_nat (length irqs),
          rq_sector := rq_sector (reqs st1 r) + of_nat (length irqs), rq_nr_sectors := 0\<rparr>)"
        "blk_dev st' = blk_dev st1" "do_hd st' = Hd_null" "hd_timeout st' = 0"
      using Cons.IH [OF live cur Cons.prems(3) _ False] by (auto simp: fun_upd_def)
    moreover have "hd_mem st' = put_bytes (rq_buffer (reqs st r)) (sector_bytes (irq # irqs)) (hd_mem st)"
      using st'(1) s irq by (simp add: sector_bytes_def port_read_def put_bytes_append)
    moreover have "reqs st' = (reqs st)(r := (reqs st r)\<lparr>rq_errors := 0, rq_buffer := rq_buffer (reqs st r) + 512 * of_nat (length (irq # irqs)),
        rq_sector := rq_sector (reqs st r) + of_nat (length (irq # irqs)), rq_nr_sectors := 0\<rparr>)"
      using st'(2) s by (simp add: algebra_simps)
    ultimately show ?thesis using s st1(1) irq by (simp add: fun_upd_def)
  qed
qed simp

lemma length_sector_bytes: "list_all good_sector irqs \<Longrightarrow> length (sector_bytes irqs) = 512 * length irqs"
  by (induction irqs) (auto simp: sector_bytes_def good_sector_def)

text \<open>
  C36: \<open>n\<close> interrupts with a good status for a request of \<open>n\<close> sectors.  The first 256 words that the data port returns in each
  of them lie one after the other in the buffer of the request and no other byte of memory has changed; the
  request has no sector left and its position has advanced by \<open>n\<close>.  It is not taken off the device, whose
  current request it still is; no handler is armed, so that an interrupt more halts the processor.
\<close>

theorem hd_read_sectors:
  assumes "do_hd st = Hd_read_intr" and "CURRENT st = r" and "r \<noteq> NULL"
    and "list_all good_sector irqs" and "0 < length irqs" and "512 * length irqs \<le> 2 ^ 32"
    and "reqs st r = q" and "rq_nr_sectors q = of_nat (length irqs)"
  shows "\<exists>st'. hd_run irqs st = Inr st' \<and>
    (\<forall>i < 512 * length irqs. hd_mem st' (rq_buffer q + of_nat i) = sector_bytes irqs ! i) \<and>
    (\<forall>a. (\<forall>i < 512 * length irqs. a \<noteq> rq_buffer q + of_nat i) \<longrightarrow> hd_mem st' a = hd_mem st a) \<and>
    reqs st' = (reqs st)(r := q\<lparr>rq_errors := 0, rq_buffer := rq_buffer q + 512 * of_nat (length irqs),
        rq_sector := rq_sector q + of_nat (length irqs), rq_nr_sectors := 0\<rparr>) \<and>
    CURRENT st' = r \<and> hd_timeout st' = 0 \<and>
    (\<forall>inb inw. hd_interrupt inb inw st' = Inl (Panic ''unexpected int''))"
proof -
  obtain st' where st': "hd_run irqs st = Inr st'"
    "hd_mem st' = put_bytes (rq_buffer q) (sector_bytes irqs) (hd_mem st)"
    "reqs st' = (reqs st)(r := q\<lparr>rq_errors := 0, rq_buffer := rq_buffer q + 512 * of_nat (length irqs),
        rq_sector := rq_sector q + of_nat (length irqs), rq_nr_sectors := 0\<rparr>)"
    "blk_dev st' = blk_dev st" "do_hd st' = Hd_null" "hd_timeout st' = 0"
    using hd_run_good [OF assms(1-4)] assms(5-8) by auto
  have "CURRENT st' = r" using st'(4) assms(2) by (simp add: CURRENT_def)
  then show ?thesis
    using st' length_sector_bytes [OF assms(4)] assms(6) hd_interrupt_idle [OF st'(5)]
    by (simp add: put_bytes_nth put_bytes_other)
qed

text \<open>A state with the request of \<^verbatim>\<open>sys_kdebug\<close> issued, and two sectors.\<close>

definition hd_example :: hdstate where
  "hd_example =
     snd (hd_kdebug 0x8000 (test_bh 0x9000)
       \<lparr>reqs = (\<lambda>r. \<lparr>rq_dev = 0, rq_cmd = 0, rq_errors = 0, rq_sector = 0, rq_nr_sectors = 0, rq_buffer = 0,
                     rq_waiting = 0, rq_bh = 0, rq_next = 0\<rparr>),
        request_array = 0x7000, blk_dev = blk_dev_init, do_hd = Hd_null, hd_timeout = 0, hd_mem = (\<lambda>a. 0),
        hd_cpu = \<lparr>gdt = (\<lambda>i. \<lparr>d_a = 0, d_b = 0\<rparr>), idt = (\<lambda>i. \<lparr>d_a = 0, d_b = 0\<rparr>), ldtr = 0, eflags_nt = False, io_out = []\<rparr>, hd_log = []\<rparr>)"

definition hd_irqs :: "irq list" where
  "hd_irqs = [(\<lambda>p. 0x50, \<lambda>p i. 0x1234), (\<lambda>p. 0x50, \<lambda>p i. 0xAA55)]"

theorem hd_read_sectors_witness:
  "\<exists>st'. hd_run hd_irqs hd_example = Inr st' \<and> hd_mem st' (0x9000 + of_nat 3) = sector_bytes hd_irqs ! 3 \<and>
    rq_sector (reqs st' 0x745C) = 2 \<and>
    (\<forall>inb inw. hd_interrupt inb inw st' = Inl (Panic ''unexpected int''))"
proof -
  note d = hd_example_def hd_kdebug_def mock_hd_out_def hd_out_p_def hd_out_def SET_INTR_def upd_req_def
    test_bh_def CURRENT_def Let_def
  have good: "list_all good_sector hd_irqs" "length hd_irqs = 2"
    by (simp_all add: hd_irqs_def good_sector_def win_result_def)
  have st: "do_hd hd_example = Hd_read_intr" "CURRENT hd_example = 0x745C" by (simp_all add: d)
  have q: "rq_nr_sectors (reqs hd_example 0x745C) = of_nat (length hd_irqs)"
    "rq_buffer (reqs hd_example 0x745C) = 0x9000" "rq_sector (reqs hd_example 0x745C) = 0"
    using good(2) by (simp_all add: d)
  have len: "0 < length hd_irqs" "512 * length hd_irqs \<le> 2 ^ 32" "(0x745C :: ptr) \<noteq> NULL" using good(2) by simp_all
  obtain st' where st': "hd_run hd_irqs hd_example = Inr st'"
    "\<forall>i < 512 * length hd_irqs. hd_mem st' (0x9000 + of_nat i) = sector_bytes hd_irqs ! i"
    "rq_sector (reqs st' 0x745C) = 2"
    "\<forall>inb inw. hd_interrupt inb inw st' = Inl (Panic ''unexpected int'')"
    using hd_read_sectors [OF st len(3) good(1) len(1,2) refl q(1)] q(2,3) good(2) by auto
  have "hd_mem st' (0x9000 + of_nat 3) = sector_bytes hd_irqs ! 3" using st'(2) good(2) by (simp del: of_nat_numeral)
  then show ?thesis using st' by blast
qed

text \<open>
  C37: an interrupt with a bad status, whatever the error: the request is left as it is, nothing is read
  or tried again, and no handler is armed, so that the next interrupt of the disk halts the processor.
\<close>

theorem hd_error_stuck:
  assumes "do_hd st = Hd_read_intr"
    and "inb HD_STATUS AND 0xF1 \<noteq> 0x50"
  shows "\<exists>st'. hd_interrupt inb inw st = Inr st' \<and> reqs st' = reqs st \<and> blk_dev st' = blk_dev st \<and>
    hd_mem st' = hd_mem st \<and> hd_log st' = hd_log st @ [''bad rw intr'' @ [CHR 0x0A]] \<and> hd_timeout st' = 0 \<and>
    (\<forall>inb inw. hd_interrupt inb inw st' = Inl (Panic ''unexpected int''))"
proof -
  have "win_result inb" using assms(2) by (simp add: win_result_def)
  then show ?thesis using assms(1) by (simp add: hd_defs)
qed

theorem hd_error_stuck_witness:
  "\<exists>st'. hd_interrupt (\<lambda>p. 0x51) (\<lambda>p i. 0) hd_example = Inr st' \<and> reqs st' = reqs hd_example \<and> hd_mem st' = hd_mem hd_example"
proof -
  have "do_hd hd_example = Hd_read_intr"
    by (simp add: hd_example_def hd_kdebug_def mock_hd_out_def hd_out_p_def hd_out_def SET_INTR_def Let_def)
  moreover have "(\<lambda>p. 0x51 :: u8) HD_STATUS AND 0xF1 \<noteq> 0x50" by simp
  ultimately show ?thesis using hd_error_stuck [of hd_example "\<lambda>p. 0x51" "\<lambda>p i. 0"] by blast
qed

text \<open>
  \<^verbatim>\<open>IN_ORDER\<close> is a strict order on requests, and two requests that it does not order ask for the same
  sector of the same device with the same command; a read goes before a write.
\<close>

lemma IN_ORDER_strict:
  "\<not> IN_ORDER a a \<and> (IN_ORDER a b \<and> IN_ORDER b c \<longrightarrow> IN_ORDER a c) \<and>
   (\<not> IN_ORDER a b \<and> \<not> IN_ORDER b a \<longleftrightarrow>
      rq_cmd a = rq_cmd b \<and> rq_dev a = rq_dev b \<and> rq_sector a = rq_sector b) \<and>
   (rq_cmd a = READ \<and> rq_cmd b = WRITE \<longrightarrow> IN_ORDER a b)"
proof (intro conjI)
  show "\<not> IN_ORDER a a" by (simp add: IN_ORDER_def)
  show "IN_ORDER a b \<and> IN_ORDER b c \<longrightarrow> IN_ORDER a c" by (auto simp: IN_ORDER_def)
  show "\<not> IN_ORDER a b \<and> \<not> IN_ORDER b a \<longleftrightarrow>
      rq_cmd a = rq_cmd b \<and> rq_dev a = rq_dev b \<and> rq_sector a = rq_sector b"
    by (auto simp: IN_ORDER_def not_less) (metis signed_word_eqI)+
  show "rq_cmd a = READ \<and> rq_cmd b = WRITE \<longrightarrow> IN_ORDER a b" by (simp add: IN_ORDER_def)
qed

text \<open>Three requests: a read, a read behind it on the same disk, a write.\<close>

definition rq_example :: "u32 \<Rightarrow> u32 \<Rightarrow> request" where
  "rq_example cmd sec =
     \<lparr>rq_dev = 0x300, rq_cmd = cmd, rq_errors = 0, rq_sector = sec, rq_nr_sectors = 2, rq_buffer = 0,
      rq_waiting = 0, rq_bh = 0, rq_next = 0\<rparr>"

lemma IN_ORDER_strict_example:
  "IN_ORDER (rq_example READ 8) (rq_example WRITE 4) \<and> \<not> IN_ORDER (rq_example READ 8) (rq_example READ 8)"
  using IN_ORDER_strict [of "rq_example READ 8" "rq_example READ 9" "rq_example WRITE 4"]
    IN_ORDER_strict [of "rq_example READ 8" "rq_example WRITE 4" "rq_example WRITE 4"]
  by (simp add: rq_example_def)

end
