(* ===== verification/Boot.thy ===== *)
theory Boot
  imports Paging Descriptors
begin

text \<open>
  The start-up code of \<^verbatim>\<open>boot/head.s\<close>: the interrupt gates of \<^verbatim>\<open>setup_idt\<close>, the descriptors of \<^verbatim>\<open>gdt\<close>, the tests of
  the A20 line and of the coprocessor, and the page directory and page tables of \<^verbatim>\<open>setup_paging\<close>.
\<close>

section \<open>Descriptor tables\<close>

primrec rp_sidt :: "nat \<Rightarrow> nat \<Rightarrow> desc_struct \<Rightarrow> desc_table \<Rightarrow> desc_table" where
  "rp_sidt 0 i d t = t"
| "rp_sidt (Suc n) i d t = rp_sidt n (Suc i) d (t(i := d))"

definition setup_idt :: "u32 \<Rightarrow> desc_table \<Rightarrow> desc_table" where
  "setup_idt ignore_int t =
     (let edx = ignore_int;
          eax = 0x00080000 OR (edx AND 0xffff);
          edx = (edx AND 0xffff0000) OR 0x8E00
      in rp_sidt 256 0 \<lparr>d_a = eax, d_b = edx\<rparr> t)"

definition boot_gdt :: desc_table where
  "boot_gdt i =
     (if i = 1 then \<lparr>d_a = 0x00000fff, d_b = 0x00c09a00\<rparr>
      else if i = 2 then \<lparr>d_a = 0x00000fff, d_b = 0x00c09200\<rparr>
      else if i = 3 then \<lparr>d_a = 0x0000ffff, d_b = 0x00cff200\<rparr>
      else \<lparr>d_a = 0, d_b = 0\<rparr>)"

section \<open>Tests of the hardware\<close>

text \<open>
  While the A20 line is closed, an access at 1 MB reaches address 0; the loop then finds what it
  has just written and does not end.
\<close>

partial_function (option) check_a20 :: "bool \<Rightarrow> u32 \<Rightarrow> (u32 \<Rightarrow> u32) \<Rightarrow> (u32 \<Rightarrow> u32) option" where
  "check_a20 a20 eax m =
     (let eax = eax + 1;
          m = m(0 := eax)
      in if eax = m (if a20 then 0x100000 else 0) then check_a20 a20 eax m else Some m)"

text \<open>The bits of \<^verbatim>\<open>cr0\<close>, from the status word of the coprocessor behind \<^verbatim>\<open>fninit\<close>.\<close>

definition check_x87 :: "u16 \<Rightarrow> u32 \<Rightarrow> u32" where
  "check_x87 status cr0 =
     (let eax = cr0 AND 0x80000011;
          cr0 = eax OR 2
      in if status AND 0xff = 0 then cr0 else cr0 XOR 6)"

lemma check_a20_open: "\<exists>v. check_a20 True 0 m = Some (m(0 := v))"
proof (cases "m 0x100000 = 1")
  case True
  then have "check_a20 True 0 m = check_a20 True 1 (m(0 := 1))"
    by (subst check_a20.simps) (simp add: Let_def)
  also have "\<dots> = Some (m(0 := 2))" using True by (subst check_a20.simps) (simp add: Let_def)
  finally show ?thesis by blast
next
  case False
  then have "check_a20 True 0 m = Some (m(0 := 1))" by (subst check_a20.simps) (simp add: Let_def)
  then show ?thesis by blast
qed

lemma check_a20_returns:
  assumes "check_a20 a20 eax m = Some r"
  shows a20
proof (rule check_a20.raw_induct [where P = "\<lambda>a20 eax m r. a20", OF _ assms], goal_cases)
  case (1 f a20 eax m r)
  show ?case
  proof (rule ccontr)
    assume "\<not> a20"
    then have "f a20 (eax + 1) (m(0 := eax + 1)) = Some r" using 1(2) by (simp add: Let_def)
    then show False using 1(1) \<open>\<not> a20\<close> by blast
  qed
qed

lemma check_a20_closed: "check_a20 False eax m = None"
  using check_a20_returns [of False eax m] by (cases "check_a20 False eax m") auto

text \<open>Monitoring (\<^verbatim>\<open>MP\<close>) with a coprocessor, emulation (\<^verbatim>\<open>EM\<close>) without one; the bits \<^verbatim>\<open>PE\<close>, \<^verbatim>\<open>ET\<close> and \<^verbatim>\<open>PG\<close> are kept.\<close>

lemma check_x87_bits:
  "bit (check_x87 status cr0) 1 \<longleftrightarrow> status AND 0xff = 0" "bit (check_x87 status cr0) 2 \<longleftrightarrow> status AND 0xff \<noteq> 0"
  "n \<in> {0, 4, 31} \<Longrightarrow> bit (check_x87 status cr0) n = bit cr0 n"
  by (auto simp: check_x87_def Let_def bit_simps)

section \<open>Paging\<close>

text \<open>\<^verbatim>\<open>cld; rep; stosl\<close>.\<close>

primrec rep_stosl :: "nat \<Rightarrow> u32 \<Rightarrow> u32 \<Rightarrow> (u32 \<Rightarrow> u32) \<Rightarrow> (u32 \<Rightarrow> u32)" where
  "rep_stosl 0 edi eax m = m"
| "rep_stosl (Suc ecx) edi eax m = rep_stosl ecx (edi + 4) eax (m(edi := eax))"

text \<open>
  The loop with the direction flag set: \<^verbatim>\<open>stosl\<close>, then \<^verbatim>\<open>subl\<close> and a jump back while the result is not
  negative as a signed difference.
\<close>

function fill_tables :: "u32 \<Rightarrow> u32 \<Rightarrow> (u32 \<Rightarrow> u32) \<Rightarrow> (u32 \<Rightarrow> u32)" where
  "fill_tables edi eax m =
     (let m = m(edi := eax)
      in if 0x1000 \<le> sint eax then fill_tables (edi - 4) (eax - 0x1000) m else m)"
  by pat_completeness auto
termination
proof (relation "measure (\<lambda>(edi, eax, m). nat (sint eax))", simp, goal_cases)
  case (1 edi eax m m')
  have "sint (eax + (- 0x1000)) = sint eax + sint (- 0x1000 :: u32)"
    using 1(2) sint_lt [of eax] by (intro sint_plus) simp_all
  then show ?case using 1(2) by simp
qed

declare fill_tables.simps [simp del]

definition setup_paging :: "mm \<Rightarrow> mm" where
  "setup_paging s =
     (let m = rep_stosl (1024 * 5) 0 0 (pmem s);
          m = m(0 := 0x1000 + 7);
          m = m(4 := 0x2000 + 7);
          m = m(8 := 0x3000 + 7);
          m = m(12 := 0x4000 + 7);
          m = fill_tables (0x4000 + 4092) 0xfff007 m
      in s\<lparr>pmem := m, cr3_loads := Suc (cr3_loads s)\<rparr>)"

section \<open>The identity map\<close>

lemma rep_stosl_at:
  "rep_stosl n edi v m a = (if \<exists>i < n. a = edi + 4 * of_nat i then v else m a)"
proof (induction n arbitrary: edi m)
  case (Suc n)
  have "(\<exists>i < Suc n. a = edi + 4 * of_nat i) \<longleftrightarrow> a = edi \<or> (\<exists>i < n. a = edi + 4 + 4 * of_nat i)"
    by (auto simp: Ex_less_Suc2 algebra_simps)
  then show ?case using Suc.IH by (auto simp del: ex_simps)
qed simp

text \<open>The word that the test of the A20 line writes is overwritten.\<close>

lemma setup_paging_word0: "setup_paging (s\<lparr>pmem := (pmem s)(0 := v)\<rparr>) = setup_paging s"
proof -
  have "rep_stosl (1024 * 5) 0 0 ((pmem s)(0 := v)) = rep_stosl (1024 * 5) 0 0 (pmem s)"
  proof
    fix a
    have "\<exists>i < 1024 * 5. (0 :: u32) = 0 + 4 * of_nat i" by (intro exI [of _ 0]) simp
    then show "rep_stosl (1024 * 5) 0 0 ((pmem s)(0 := v)) a = rep_stosl (1024 * 5) 0 0 (pmem s) a"
      unfolding rep_stosl_at by (cases "a = 0") auto
  qed
  then show ?thesis by (simp add: setup_paging_def Let_def)
qed

lemma fill_tables_at:
  assumes "k < 4096"
  shows "fill_tables (0x1000 + 4 * of_nat k) (0x1000 * of_nat k + 7) m a =
    (if \<exists>j \<le> k. a = 0x1000 + 4 * of_nat j then (a - 0x1000) * 0x400 + 7 else m a)"
  using assms
proof (induction k arbitrary: m)
  case 0
  then show ?case by (simp add: fill_tables.simps [of "0x1000" 7])
next
  case (Suc k)
  have "sint (of_nat (0x1000 * Suc k + 7) :: u32) = int (0x1000 * Suc k + 7)"
    using Suc.prems by (intro sint_of_nat_small) simp
  then have s: "0x1000 \<le> sint (0x1000 * of_nat (Suc k) + 7 :: u32)" by simp
  have e: "(0x1000 + 4 * of_nat (Suc k) :: u32) - 4 = 0x1000 + 4 * of_nat k"
    "(0x1000 * of_nat (Suc k) + 7 :: u32) - 0x1000 = 0x1000 * of_nat k + 7" by simp_all
  have step: "fill_tables (0x1000 + 4 * of_nat (Suc k)) (0x1000 * of_nat (Suc k) + 7) m =
      fill_tables (0x1000 + 4 * of_nat k) (0x1000 * of_nat k + 7)
        (m(0x1000 + 4 * of_nat (Suc k) := 0x1000 * of_nat (Suc k) + 7))"
    unfolding fill_tables.simps [of "0x1000 + 4 * of_nat (Suc k)"] Let_def e using s by (simp only: if_True)
  have k: "k < 4096" using Suc.prems by simp
  show ?case unfolding step Suc.IH [OF k] by (auto simp: le_Suc_eq algebra_simps)
qed

lemma word_eq_of_nat: "m < 2 ^ 32 \<Longrightarrow> n < 2 ^ 32 \<Longrightarrow> (of_nat m :: u32) = of_nat n \<longleftrightarrow> m = n"
  by (auto simp: word_of_nat_eq_iff take_bit_nat_eq_self)

text \<open>The memory that \<^verbatim>\<open>setup_paging\<close> leaves, by the number of a word.\<close>

lemma setup_paging_words:
  assumes "n < 2 ^ 30"
  shows "pmem (setup_paging s) (of_nat (4 * n)) =
    (if n < 4 then of_nat (0x1000 * n + 0x1007)
     else if n < 1024 then 0
     else if n < 5120 then of_nat (0x1000 * (n - 1024) + 7) else pmem s (of_nat (4 * n)))"
proof -
  let ?a = "of_nat (4 * n) :: u32"
  define m where "m = (rep_stosl (1024 * 5) 0 0 (pmem s))(0 := 0x1007, 4 := 0x2007, 8 := 0x3007, 12 := 0x4007)"
  have f: "pmem (setup_paging s) = fill_tables (0x1000 + 4 * of_nat 4095) (0x1000 * of_nat 4095 + 7) m"
    by (simp add: setup_paging_def Let_def m_def)
  have t: "(\<exists>j \<le> 4095. ?a = 0x1000 + 4 * of_nat j) \<longleftrightarrow> 1024 \<le> n \<and> n < 5120"
  proof -
    have "?a = 0x1000 + 4 * of_nat j \<longleftrightarrow> n = 1024 + j" if "j \<le> 4095" for j
      using word_eq_of_nat [of "4 * n" "4 * (1024 + j)"] assms that by simp linarith
    then have "(\<exists>j \<le> 4095. ?a = 0x1000 + 4 * of_nat j) \<longleftrightarrow> (\<exists>j \<le> 4095. n = 1024 + j)" by blast
    also have "\<dots> \<longleftrightarrow> 1024 \<le> n \<and> n < 5120" by (auto intro: exI [of _ "n - 1024"])
    finally show ?thesis .
  qed
  have z: "(\<exists>i < 5120. ?a = 0 + 4 * of_nat i) \<longleftrightarrow> n < 5120"
  proof -
    have "?a = 0 + 4 * of_nat i \<longleftrightarrow> n = i" if "i < 5120" for i
      using word_eq_of_nat [of "4 * n" "4 * i"] assms that by simp
    then show ?thesis by blast
  qed
  have c: "?a = of_nat (4 * k) \<longleftrightarrow> n = k" if "k < 4" for k
    using word_eq_of_nat [of "4 * n" "4 * k"] assms that by simp
  have "m ?a = (if n < 4 then of_nat (0x1000 * n + 0x1007) else if n < 5120 then 0 else pmem s ?a)"
  proof -
    consider "n = 0" | "n = 1" | "n = 2" | "n = 3" | "4 \<le> n" by linarith
    then show ?thesis
    proof cases
      case 5
      then have "?a \<noteq> 0" "?a \<noteq> 4" "?a \<noteq> 8" "?a \<noteq> 12" using c [of 0] c [of 1] c [of 2] c [of 3] by simp_all
      then show ?thesis unfolding m_def using 5 z by (simp add: rep_stosl_at del: of_nat_mult)
    qed (simp_all add: m_def)
  qed
  moreover have "pmem (setup_paging s) ?a = (if 1024 \<le> n \<and> n < 5120 then (?a - 0x1000) * 0x400 + 7 else m ?a)"
    unfolding f t [symmetric] by (rule fill_tables_at) simp
  moreover have "(?a - 0x1000) * 0x400 + 7 = of_nat (0x1000 * (n - 1024) + 7)" if "1024 \<le> n"
    using that by (simp add: of_nat_diff algebra_simps)
  ultimately show ?thesis by (auto simp del: of_nat_mult of_nat_add)
qed

lemma frame_word:
  fixes a :: u32
  obtains p where "p = unat a div 4096" "p < 2 ^ 20" "drop_bit 12 a = of_nat p" "page_of a = of_nat (4096 * p)"
    "dir_index a = of_nat (4 * (p div 1024))" "table_index a = p mod 1024"
proof -
  define p where "p = unat a div 4096"
  have "unat a < 2 ^ 32" using unsigned_less [of a, where ?'a = nat] by simp
  then have p: "p < 2 ^ 20" by (simp add: p_def)
  have "unat (drop_bit 12 a) = p" unfolding p_def by (simp add: drop_bit_eq_div unat_div)
  then have d: "drop_bit 12 a = of_nat p" by auto
  have "page_of a = push_bit 12 (drop_bit 12 a)" unfolding page_of_def u32_bitwise by (simp add: bit_simps)
  then have pg: "page_of a = of_nat (4096 * p)" by (simp add: d push_bit_eq_mult)
  have pu: "unat (of_nat p :: u32) = p" using p by (simp add: unat_of_nat)
  have "unat (drop_bit 10 (of_nat p :: u32)) = p div 1024" by (simp add: drop_bit_eq_div unat_div pu)
  then have "drop_bit 10 (of_nat p :: u32) = of_nat (p div 1024)" by (metis of_nat_unat ucast_id)
  moreover have "dir_index a = push_bit 2 (drop_bit 10 (drop_bit 12 a))"
    unfolding dir_index_def u32_bitwise by (simp add: bit_simps)
  ultimately have dir: "dir_index a = of_nat (4 * (p div 1024))" by (simp add: d push_bit_eq_mult)
  have "(of_nat p :: u32) AND 0x3ff = take_bit 10 (of_nat p)" by (simp add: take_bit_eq_mask mask_eq_exp_minus_1)
  then have tab: "table_index a = p mod 1024"
    unfolding table_index_def d by (simp add: take_bit_eq_mod unat_mod pu)
  from that [OF p_def p d pg dir tab] show thesis .
qed


text \<open>
  The page tables of \<^verbatim>\<open>setup_paging\<close> map each of the first 16 MB onto itself, present, writable and for
  the user; the directory has no entry for the addresses above, and the memory behind the five pages is
  as it was.
\<close>

lemma setup_paging_identity:
  "(\<forall>a < 0x1000000. pte_of a (setup_paging s) = page_of a OR 7) \<and>
   (\<forall>a \<ge> 0x1000000. pmem (setup_paging s) (dir_index a) = 0) \<and>
   (\<forall>n < 2 ^ 30. 5120 \<le> n \<longrightarrow> pmem (setup_paging s) (of_nat (4 * n)) = pmem s (of_nat (4 * n)))"
proof (intro conjI allI impI)
  fix a :: u32 assume a: "a < 0x1000000"
  obtain p where p: "p = unat a div 4096" "page_of a = of_nat (4096 * p)"
    "dir_index a = of_nat (4 * (p div 1024))" "table_index a = p mod 1024" by (rule frame_word)
  have p4: "p < 4096" using a p(1) by (simp add: word_less_nat_alt)
  have "pmem (setup_paging s) (dir_index a) = of_nat (0x1000 * (p div 1024) + 0x1007)"
    unfolding p(3) using p4 by (subst setup_paging_words) auto
  moreover have "page_of (of_nat (0x1000 * q + 0x1007)) = of_nat (4 * (1024 * (q + 1)))" if q: "q < 4" for q
  proof -
    consider "q = 0" | "q = 1" | "q = 2" | "q = 3" using q by linarith
    then show ?thesis by cases (simp_all add: page_of_def)
  qed
  ultimately have "pte_of a (setup_paging s) =
      pmem (setup_paging s) (of_nat (4 * (1024 * (p div 1024 + 1))) + 4 * of_nat (p mod 1024))"
    unfolding pte_of_pte_at pte_at_def p(4) using p4 by (simp del: of_nat_mult of_nat_add)
  also have "of_nat (4 * (1024 * (p div 1024 + 1))) + 4 * of_nat (p mod 1024) = (of_nat (4 * (1024 + p)) :: u32)"
  proof -
    have "4 * (1024 * (x + 1)) + 4 * y = 4 * (1024 + (1024 * x + y))" for x y :: nat by simp
    from this [of "p div 1024" "p mod 1024"] have "4 * (1024 * (p div 1024 + 1)) + 4 * (p mod 1024) = 4 * (1024 + p)"
      by (simp only: mult_div_mod_eq)
    then have "(of_nat (4 * (1024 * (p div 1024 + 1)) + 4 * (p mod 1024)) :: u32) = of_nat (4 * (1024 + p))" by (simp only:)
    then show ?thesis by simp
  qed
  also have "pmem (setup_paging s) (of_nat (4 * (1024 + p))) = of_nat (4096 * p) + 7"
    using p4 by (subst setup_paging_words) auto
  also have "\<dots> = page_of a OR 7"
  proof -
    have "page_of a AND 7 = 0" unfolding page_of_def u32_bitwise by (simp add: bit_simps)
    then show ?thesis unfolding p(2) [symmetric] by (simp add: disjunctive_add_eq_or)
  qed
  finally show "pte_of a (setup_paging s) = page_of a OR 7" .
next
  fix a :: u32 assume a: "0x1000000 \<le> a"
  obtain p where p: "p = unat a div 4096" "p < 2 ^ 20" "dir_index a = of_nat (4 * (p div 1024))" by (rule frame_word)
  have "4096 \<le> p" using a p(1) by (simp add: word_le_nat_alt)
  then show "pmem (setup_paging s) (dir_index a) = 0" unfolding p(3) using p(2) by (subst setup_paging_words) auto
next
  fix n :: nat assume "n < 2 ^ 30" "5120 \<le> n"
  then show "pmem (setup_paging s) (of_nat (4 * n)) = pmem s (of_nat (4 * n))" by (subst setup_paging_words) auto
qed

section \<open>Gates\<close>

lemma rp_sidt_at: "rp_sidt n i d t k = (if i \<le> k \<and> k < i + n then d else t k)"
  by (induction n arbitrary: i t) auto

lemma setup_idt_gate:
  assumes "i < 256"
  shows "setup_idt ig t i = set_gate 14 0 ig"
proof -
  have "(0x00080000 :: u32) OR (ig AND 0xffff) = (0x00080000 AND 0xffff0000) OR (ig AND 0xffff)" by simp
  then show ?thesis using assms by (simp add: setup_idt_def rp_sidt_at set_gate_def Let_def)
qed

end
