(* ===== verification/Kernel_Init.thy ===== *)
theory Kernel_Init
  imports Fork Cache_Init HardDisk Boot
begin

text \<open>
  The start of the kernel: the tables of \<^verbatim>\<open>boot/head.s\<close>, the calls of \<^verbatim>\<open>main\<close> (\<^verbatim>\<open>init/main.c\<close>) up to \<^verbatim>\<open>sti\<close>,
  and \<^verbatim>\<open>init_serial\<close> of \<^verbatim>\<open>kernel/printk.c\<close>.

  The machine puts together the kernel state and the buffer cache; the scheduler of the machine is
  the one of the kernel state, and it is passed to the cache and back.  What a port returns is a function
  \<open>inb\<close> of the bytes written to the ports so far, as they stand when the initialiser that reads it
  is called.  The call of \<^verbatim>\<open>printm\<close> puts a line into the log, which is not part of this state.
\<close>

section \<open>Definitions\<close>

type_synonym ports = "(u16 \<times> u8) list \<Rightarrow> u16 \<Rightarrow> u8"

definition COM1_PORT :: u16 where [simp, kconsts]: "COM1_PORT = 0x3f8"
definition MAIN_MEM_START :: u32 where [simp, kconsts]: "MAIN_MEM_START = push_bit 20 4"
definition MAIN_MEM_END :: u32 where [simp, kconsts]: "MAIN_MEM_END = push_bit 20 16"
definition BUF_MEM_END :: u32 where [simp, kconsts]: "BUF_MEM_END = 4 * 1024 * 1024"

definition init_serial :: "ports \<Rightarrow> cpu \<Rightarrow> u32 \<times> cpu" where
  "init_serial inb c =
     (let c = outb 0x00 (COM1_PORT + 1) c;
          c = outb 0x80 (COM1_PORT + 3) c;
          c = outb 0x03 (COM1_PORT + 0) c;
          c = outb 0x00 (COM1_PORT + 1) c;
          c = outb 0x03 (COM1_PORT + 3) c;
          c = outb 0xC7 (COM1_PORT + 2) c;
          c = outb 0x0B (COM1_PORT + 4) c;
          c = outb 0x1E (COM1_PORT + 4) c;
          c = outb 0xAE (COM1_PORT + 0) c
      in if inb (io_out c) (COM1_PORT + 0) \<noteq> 0xAE then (1, c)
         else (0, outb 0x0F (COM1_PORT + 4) c))"

text \<open>The addresses of the handlers.\<close>

record entries =
  e_ignore_int :: u32
  e_idt_ptrs :: "nat \<Rightarrow> u32"
  e_page_fault :: u32
  e_timer_interrupt :: u32
  e_system_call :: u32
  e_hd_interrupt :: u32

record machine =
  mk :: kernel
  mcache :: bstate

definition main_init :: "ports \<Rightarrow> entries \<Rightarrow> machine \<Rightarrow> machine option" where
  "main_init inb e m =
     (let k = mk m;
          k = k\<lparr>kcpu := snd (init_serial inb (kcpu k))\<rparr>;
          k = k\<lparr>kmm := mem_init MAIN_MEM_START MAIN_MEM_END (kmm k)\<rparr>
      in case buffer_init BUF_MEM_END ((mcache m)\<lparr>bsched := ksched k\<rparr>) of
           None \<Rightarrow> None
         | Some b \<Rightarrow>
             let c = kcpu k;
                 c = c\<lparr>idt := trap_init (e_idt_ptrs e) (e_page_fault e) (idt c)\<rparr>;
                 (s, c) = sched_init (e_timer_interrupt e) (e_system_call e) (inb (io_out c)) (bsched b, c);
                 c = hd_init (e_hd_interrupt e) (inb (io_out c)) c
             in Some (m\<lparr>mk := k\<lparr>ksched := s, kcpu := c\<rparr>, mcache := b\<lparr>bsched := s\<rparr>\<rparr>))"

text \<open>What \<^verbatim>\<open>startup_32\<close> leaves to \<^verbatim>\<open>main\<close>; \<open>a20\<close> tells whether the A20 line is open.\<close>

definition startup_32 :: "bool \<Rightarrow> entries \<Rightarrow> machine \<Rightarrow> machine option" where
  "startup_32 a20 e m =
     (let k = mk m; c = kcpu k;
          k = k\<lparr>kcpu := c\<lparr>idt := setup_idt (e_ignore_int e) (idt c), gdt := boot_gdt\<rparr>\<rparr>
      in case check_a20 a20 0 (pmem (kmm k)) of
           None \<Rightarrow> None
         | Some pm \<Rightarrow> Some (m\<lparr>mk := k\<lparr>kmm := setup_paging ((kmm k)\<lparr>pmem := pm\<rparr>)\<rparr>\<rparr>))"

definition kernel_start :: "bool \<Rightarrow> ports \<Rightarrow> entries \<Rightarrow> machine \<Rightarrow> machine option" where
  "kernel_start a20 inb e m = (case startup_32 a20 e m of None \<Rightarrow> None | Some m \<Rightarrow> main_init inb e m)"

lemma startup_32_eq:
  "startup_32 True e m =
     Some (m\<lparr>mk := (mk m)\<lparr>kcpu := (kcpu (mk m))\<lparr>idt := setup_idt (e_ignore_int e) (idt (kcpu (mk m))), gdt := boot_gdt\<rparr>,
                          kmm := setup_paging (kmm (mk m))\<rparr>\<rparr>)"
proof -
  obtain v where "check_a20 True 0 (pmem (kmm (mk m))) = Some ((pmem (kmm (mk m)))(0 := v))"
    using check_a20_open by blast
  then show ?thesis by (simp add: startup_32_def Let_def setup_paging_word0)
qed

lemma kernel_start_a20: "kernel_start a20 inb e m = Some m' \<Longrightarrow> a20"
  by (auto simp: kernel_start_def startup_32_def Let_def dest: check_a20_returns split: option.splits)

section \<open>The scheduler through \<^verbatim>\<open>buffer_init\<close>\<close>

text \<open>Only the wait queues of buffers change.\<close>

definition buffer_queues :: "sched \<Rightarrow> sched \<Rightarrow> bool" where
  "buffer_queues s s' \<longleftrightarrow> (\<exists>w. s' = s\<lparr>waitq := w\<rparr> \<and> (\<forall>n. w (WQ_mutex n) = waitq s (WQ_mutex n)))"

lemma init_head_queues:
  assumes "buffer_queues (bsched (init_head h d b)) s'"
  shows "buffer_queues (bsched b) s'"
  using assms by (auto simp: buffer_queues_def init_head_def upd_head_def set_waitq_def Let_def)

lemma init_loop_bsched:
  assumes "init_loop h d b = Some r"
  shows "buffer_queues (bsched b) (bsched (snd r))"
proof (rule init_loop.raw_induct [where P = "\<lambda>h d b r. buffer_queues (bsched b) (bsched (snd r))"])
  fix f h d b and r :: "ptr \<times> bstate"
  assume IH: "\<And>h d b r. f h d b = Some r \<Longrightarrow> buffer_queues (bsched b) (bsched (snd r))"
    and body: "(let d = d - BLOCK_SIZE
       in if h + sizeof_buffer_head \<le> d
          then f (h + sizeof_buffer_head) (if d = 0x100000 then 0xa0000 else d) (init_head h d b)
          else Some (h, b)) = Some r"
  show "buffer_queues (bsched b) (bsched (snd r))"
  proof (cases "h + sizeof_buffer_head \<le> d - BLOCK_SIZE")
    case True
    then have "buffer_queues (bsched (init_head h (d - BLOCK_SIZE) b)) (bsched (snd r))"
      using IH [of "h + sizeof_buffer_head" _ "init_head h (d - BLOCK_SIZE) b" r] body unfolding Let_def by metis
    then show ?thesis by (rule init_head_queues)
  next
    case False
    then show ?thesis
      using body by (auto simp: Let_def buffer_queues_def intro: exI [of _ "waitq (bsched b)"])
  qed
qed (rule assms)

lemma clear_hash_bsched [simp]: "bsched (clear_hash n b) = bsched b"
  by (induction n arbitrary: b) (simp_all add: set_hash_def)

lemma buffer_init_bsched: "buffer_init e b = Some b' \<Longrightarrow> buffer_queues (bsched b) (bsched b')"
  by (auto simp: buffer_init_def Let_def upd_head_def split: option.splits dest!: init_loop_bsched)

lemma cache_ok_bsched [simp]: "cache_ok (b\<lparr>bsched := s\<rparr>) xs C = cache_ok b xs C"
  by (simp add: cache_ok_def ring_rep_def hash_rep_def keys_unique_def bucket_def nx_def [abs_def] pv_def [abs_def] nf_def [abs_def] pf_def [abs_def])

section \<open>Interrupts after the start\<close>

text \<open>The mask registers of the two interrupt controllers return the byte written last.\<close>

definition reads_back :: "ports \<Rightarrow> bool" where
  "reads_back inb \<longleftrightarrow>
     (\<forall>io port p v. port \<in> {0x21, 0xA1} \<longrightarrow> inb (io @ [(p, v)]) port = (if p = port then v else inb io port))"

definition last_out :: "u16 \<Rightarrow> (u16 \<times> u8) list \<Rightarrow> u8 option" where
  "last_out p io = map_option snd (find (\<lambda>x. fst x = p) (rev io))"

text \<open>Timer, cascade and disk: the lines 0 and 2 of the first and 6 of the second controller.\<close>

definition irqs_open :: "cpu \<Rightarrow> bool" where
  "irqs_open c \<longleftrightarrow>
     (case (last_out 0x21 (io_out c), last_out 0xA1 (io_out c)) of
        (Some v, Some w) \<Rightarrow> \<not> bit v 0 \<and> \<not> bit v 2 \<and> \<not> bit w 6
      | _ \<Rightarrow> False)"

definition gate_to :: "cpu \<Rightarrow> nat \<Rightarrow> u32 \<Rightarrow> u32 \<Rightarrow> u32 \<Rightarrow> bool" where
  "gate_to c n type dpl addr \<longleftrightarrow>
     gate_present (idt c n) \<and> gate_offset (idt c n) = addr \<and> gate_type (idt c n) = type \<and> gate_dpl (idt c n) = dpl"

definition gates_ok :: "entries \<Rightarrow> cpu \<Rightarrow> bool" where
  "gates_ok e c \<longleftrightarrow>
     gate_to c 14 15 0 (e_page_fault e) \<and> gate_to c 0x20 14 0 (e_timer_interrupt e) \<and>
     gate_to c 0x80 15 3 (e_system_call e) \<and> gate_to c 0x2E 14 0 (e_hd_interrupt e) \<and>
     (\<forall>i < 256. i \<in> {14, 0x20, 0x80, 0x2E} \<or>
        gate_to c i 14 0 ((e_ignore_int e AND 0xffff0000) OR (e_idt_ptrs e i AND 0xffff)))"

lemma hd_init_eq:
  "hd_init a inb c =
     c\<lparr>idt := (idt c)(0x2E := set_gate 14 0 a),
       io_out := io_out c @ [(0x21, inb 0x21 AND 0xfb), (0xA1, inb 0xA1 AND 0xbf)]\<rparr>"
  by (simp add: hd_init_def outb_p_def outb_def set_intr_gate_def Let_def)

text \<open>The processor tables behind \<^verbatim>\<open>trap_init\<close>, \<^verbatim>\<open>sched_init\<close> and \<^verbatim>\<open>hd_init\<close>.\<close>

lemma init_cpu:
  assumes "reads_back inb"
    and "sched_init (e_timer_interrupt e) (e_system_call e) (inb (io_out c0)) (s0, c0) = (s, c)"
    and "c0 = c1\<lparr>idt := trap_init (e_idt_ptrs e) (e_page_fault e) (idt c1)\<rparr>"
    and "\<forall>i < 256. idt c1 i = set_gate 14 0 (e_ignore_int e)"
    and "c' = hd_init (e_hd_interrupt e) (inb (io_out c)) c"
  shows "gates_ok e c'" and "irqs_open c'"
    and "task s = (\<lambda>i. if 1 \<le> i \<and> i < NR_TASKS then NULL else task s0 i)"
proof -
  have c: "s = s0\<lparr>task := (\<lambda>k. if 1 \<le> k \<and> k < 64 then NULL else task s0 k), tr := 32\<rparr>"
    "idt c = (idt c0)(0x20 := set_gate 14 0 (e_timer_interrupt e), 0x80 := set_gate 15 3 (e_system_call e))"
    "io_out c = io_out c0 @ [(0x43, 0x36), (0x40, 0x9b), (0x40, 0x2e), (0x21, inb (io_out c0) 0x21 AND NOT 1)]"
    using assms(2) unfolding sched_init_eq by auto
  have idt: "idt c' = (idt c0)(0x20 := set_gate 14 0 (e_timer_interrupt e), 0x80 := set_gate 15 3 (e_system_call e),
      0x2E := set_gate 14 0 (e_hd_interrupt e))"
    using assms(5) c(2) by (simp add: hd_init_eq)
  have other: "gate_to c0 i 14 0 ((e_ignore_int e AND 0xffff0000) OR (e_idt_ptrs e i AND 0xffff))"
    if "i < 256" "i \<noteq> 14" for i
  proof -
    have "idt c0 i = (set_gate 14 0 (e_ignore_int e))
        \<lparr>d_a := (d_a (set_gate 14 0 (e_ignore_int e)) AND NOT 0xffff) OR (e_idt_ptrs e i AND 0xffff)\<rparr>"
      using assms(3,4) that by (simp add: trap_init_def set_trap_gate_def trap_init_loop_entry)
    moreover have "gate_type (d\<lparr>d_a := x\<rparr>) = gate_type d" "gate_dpl (d\<lparr>d_a := x\<rparr>) = gate_dpl d"
      "gate_present (d\<lparr>d_a := x\<rparr>) = gate_present d" for d x
      by (simp_all add: gate_type_def gate_dpl_def gate_present_def)
    ultimately show ?thesis by (simp only: gate_to_def gate_offset_low_half set_gate_fields set_gate_kinds)
  qed
  have "gate_to c' i 14 0 ((e_ignore_int e AND 0xffff0000) OR (e_idt_ptrs e i AND 0xffff))"
    if "i < 256" "i \<notin> {14, 0x20, 0x80, 0x2E}" for i
    using other [of i] that idt by (simp add: gate_to_def)
  then show "gates_ok e c'"
    using assms(3) idt
    by (simp add: gates_ok_def gate_to_def trap_init_def set_trap_gate_def set_gate_fields set_gate_kinds)
  have "inb (io_out c) 0x21 = inb (io_out c0) 0x21 AND NOT 1"
  proof -
    have "io_out c = (io_out c0 @ [(0x43, 0x36), (0x40, 0x9b), (0x40, 0x2e)]) @ [(0x21, inb (io_out c0) 0x21 AND NOT 1)]"
      by (simp add: c(3))
    then show ?thesis using assms(1) unfolding reads_back_def by (simp only: insertI1 simp_thms if_True)
  qed
  then show "irqs_open c'"
    using assms(5) by (simp add: hd_init_eq irqs_open_def last_out_def bit_simps)
  show "task s = (\<lambda>i. if 1 \<le> i \<and> i < NR_TASKS then NULL else task s0 i)" by (simp add: c(1))
qed

section \<open>Buffers and pages\<close>

text \<open>Every buffer head and every data block lies below the end of the buffer memory.\<close>

lemma buffer_init_below:
  assumes "1024 \<le> unat (start_buffer b)" and "unat (start_buffer b) + 1060 \<le> buffer_top e"
  shows "\<exists>b' xs. buffer_init e b = Some b' \<and> xs \<noteq> [] \<and> cache_ok b' xs (\<lambda>_. []) \<and>
    (\<forall>p \<in> set xs. unat p + 36 \<le> buffer_top e \<and> unat (b_data (heads b' p)) + 1024 \<le> buffer_top e)"
proof -
  let ?s = "start_buffer b" and ?xs = "init_heads (start_buffer b) e"
  let ?ds = "data_blocks (unat ?s) (buffer_top e)"
  obtain b' where b': "buffer_init e b = Some b'" "cache_ok b' ?xs (\<lambda>_. [])" "data_of b' ?xs = ?ds"
    using buffer_init_lists [OF assms] by blast
  have len: "length ?xs = length ?ds" by (simp add: init_heads_def)
  have top: "buffer_top e < 2 ^ 32" using unsigned_less [of e, where ?'a = nat] by (simp add: buffer_top_def)
  have "unat p + 36 \<le> buffer_top e \<and> unat (b_data (heads b' p)) + 1024 \<le> buffer_top e" if p: "p \<in> set ?xs" for p
  proof -
    obtain i where i: "i < length ?ds" "p = ?xs ! i" using p unfolding in_set_conv_nth len by blast
    have "data_of b' ?xs ! i = unat (b_data (heads b' p))" using i len by (simp add: data_of_def)
    then have d: "unat (b_data (heads b' p)) = ?ds ! i" using b'(3) by simp
    have bd: "unat ?s + 36 * Suc i \<le> ?ds ! i \<and> ?ds ! i + 1024 \<le> buffer_top e" by (rule data_blocks_bounds [OF i(1)])
    have "unat p = unat ?s + 36 * i" using i bd top by (simp add: init_heads_def unat_head_addr)
    then show ?thesis using bd d by simp
  qed
  then show ?thesis using b' cache_okD(6) by blast
qed

lemma frame_addr_high: "768 \<le> i \<Longrightarrow> i < 3840 \<Longrightarrow> 0x400000 \<le> unat (frame_addr i)"
  using frame_addr_uint [of i] by (simp add: unat_eq_nat_uint)

text \<open>No buffer head and no data block reaches into a free page frame.\<close>

definition buffers_below_pages :: "machine \<Rightarrow> ptr list \<Rightarrow> bool" where
  "buffers_below_pages m xs \<longleftrightarrow>
     (\<forall>i p. 0 \<le> i \<and> i < int PAGING_PAGES \<and> mem_map (kmm (mk m)) i = 0 \<and> p \<in> set xs \<longrightarrow>
        unat p + 36 \<le> unat (frame_addr i) \<and> unat (b_data (heads (mcache m) p)) + 1024 \<le> unat (frame_addr i))"

definition frames_free_from :: "mm \<Rightarrow> int \<Rightarrow> bool" where
  "frames_free_from s k \<longleftrightarrow> (\<forall>i. 0 \<le> i \<and> i < int PAGING_PAGES \<longrightarrow> (mem_map s i = 0 \<longleftrightarrow> k \<le> i))"

lemma mem_init_main:
  shows "frames_free_from (mem_init MAIN_MEM_START MAIN_MEM_END s) 768"
    and "pmem (mem_init MAIN_MEM_START MAIN_MEM_END s) = pmem s"
proof -
  have "MAP_NR_long 0x400000 = 768" by (simp add: MAP_NR_long_def)
  then show "frames_free_from (mem_init MAIN_MEM_START MAIN_MEM_END s) 768"
    by (simp add: frames_free_from_def mem_init_def Let_def mark_free_apply mark_used_apply)
  show "pmem (mem_init MAIN_MEM_START MAIN_MEM_END s) = pmem s" by (simp add: mem_init_def Let_def)
qed

text \<open>The identity map of the first 16 MB.\<close>

definition identity_mapped :: "mm \<Rightarrow> bool" where
  "identity_mapped s \<longleftrightarrow> (\<forall>a < 0x1000000. pte_of a s = page_of a OR 7)"

lemma identity_mapped_pmem: "pmem s = pmem t \<Longrightarrow> identity_mapped s = identity_mapped t"
  by (simp add: identity_mapped_def pte_of_def lin2phy_def)

lemma init_serial_idt: "idt (snd (init_serial inb c)) = idt c" "gdt (snd (init_serial inb c)) = gdt c"
  by (simp_all add: init_serial_def outb_def Let_def)

text \<open>The start in one equation.\<close>

lemma kernel_start_eq:
  assumes "buffer_init BUF_MEM_END ((mcache m)\<lparr>bsched := ksched (mk m)\<rparr>) = Some b"
    and "c1 = snd (init_serial inb ((kcpu (mk m))\<lparr>idt := setup_idt (e_ignore_int e) (idt (kcpu (mk m))), gdt := boot_gdt\<rparr>))"
    and "c0 = c1\<lparr>idt := trap_init (e_idt_ptrs e) (e_page_fault e) (idt c1)\<rparr>"
    and "sched_init (e_timer_interrupt e) (e_system_call e) (inb (io_out c0)) (bsched b, c0) = (s, c)"
  shows "\<exists>m'. kernel_start True inb e m = Some m' \<and> mcache m' = b\<lparr>bsched := s\<rparr> \<and> ksched (mk m') = s \<and>
    kcpu (mk m') = hd_init (e_hd_interrupt e) (inb (io_out c)) c \<and>
    kmm (mk m') = mem_init MAIN_MEM_START MAIN_MEM_END (setup_paging (kmm (mk m)))"
  using assms by (simp add: kernel_start_def main_init_def startup_32_eq Let_def)

lemma kernel_start_returns:
  assumes "1024 \<le> unat (start_buffer (mcache m))" and "unat (start_buffer (mcache m)) + 1060 \<le> 0x400000"
  shows "\<exists>m'. kernel_start True inb e m = Some m'"
proof -
  have top: "buffer_top BUF_MEM_END = 0x400000" by (simp add: buffer_top_def)
  have "\<exists>b xs. buffer_init BUF_MEM_END ((mcache m)\<lparr>bsched := ksched (mk m)\<rparr>) = Some b \<and> xs \<noteq> [] \<and> cache_ok b xs (\<lambda>_. []) \<and>
      (\<forall>p \<in> set xs. unat p + 36 \<le> 0x400000 \<and> unat (b_data (heads b p)) + 1024 \<le> 0x400000)"
    unfolding top [symmetric] by (rule buffer_init_below) (use assms top in simp_all)
  then obtain b where b: "buffer_init BUF_MEM_END ((mcache m)\<lparr>bsched := ksched (mk m)\<rparr>) = Some b" by blast
  then show ?thesis by (simp add: kernel_start_def main_init_def startup_32_eq Let_def case_prod_unfold)
qed

text \<open>Registers that return what was written to them, and the machine of the examples of \<^verbatim>\<open>Fork\<close> and \<^verbatim>\<open>Cache\<close>.\<close>

definition example_ports :: ports where
  "example_ports io port = (case last_out port io of None \<Rightarrow> 0xff | Some v \<Rightarrow> v)"

definition example_machine :: machine where
  "example_machine = \<lparr>mk = boot_kernel, mcache = pair_cache 0 0\<rparr>"

definition example_entries :: entries where
  "example_entries =
     \<lparr>e_ignore_int = 0x5400, e_idt_ptrs = (\<lambda>i. 0x6000 + of_nat i), e_page_fault = 0x7000, e_timer_interrupt = 0x7100,
      e_system_call = 0x7200, e_hd_interrupt = 0x7300\<rparr>"


lemma example_start: "unat (start_buffer (mcache example_machine)) = 0x1000"
  by (simp add: example_machine_def pair_cache_def)

end
