(* ===== verification/LogBuffer.thy ===== *)
theory LogBuffer
  imports Prelude
begin

text \<open>
  The log buffer of \<^verbatim>\<open>kernel/nasm.asm\<close>, into which \<^verbatim>\<open>printk\<close> and \<^verbatim>\<open>printm\<close> put their texts, in user mode, in the
  kernel and in interrupts, and which the timer interrupt empties into the serial line.

  The state has the words at \<^verbatim>\<open>log_buffer\<close> (the limit) and \<^verbatim>\<open>log_buffer + 8\<close> (the offset), the bytes from
  \<^verbatim>\<open>log_buffer + 16\<close> on by their index, and the bytes written to the port.  \<^verbatim>\<open>log_buf\<close> can be interrupted
  between any two instructions; it is cut into the load of the limit with the comparison, the
  \<^verbatim>\<open>cmpxchg\<close> and the copy of single bytes.  The routines that empty the buffer run with interrupts off.
  How often the line is ready in a row, before it is not, is the parameter \<open>room\<close>.
\<close>

section \<open>The routines\<close>

definition buffer_size :: u32 where [simp, kconsts]: "buffer_size = 2048"

record logbuf =
  lb_limit :: u32
  lb_offset :: u32
  lb_data :: "nat \<Rightarrow> u8"
  lb_sent :: "u8 list"

text \<open>One round of \<^verbatim>\<open>add_loop\<close> up to the \<^verbatim>\<open>jg\<close>: the old limit in \<^verbatim>\<open>eax\<close>, unless the text does not fit.\<close>

definition add_load :: "u32 \<Rightarrow> logbuf \<Rightarrow> u32 option" where
  "add_load edx b =
     (let eax = lb_limit b; ecx = eax + edx in if sint ecx > sint buffer_size then None else Some eax)"

definition add_cas :: "u32 \<Rightarrow> u32 \<Rightarrow> logbuf \<Rightarrow> u32 option \<times> logbuf" where
  "add_cas edx eax b =
     (let ecx = eax + edx
      in if lb_limit b = eax then (Some ecx, b\<lparr>lb_limit := ecx\<rparr>) else (None, b))"

text \<open>Where \<^verbatim>\<open>log_buf\<close> copies to, from the result of \<^verbatim>\<open>atomic_add\<close>, and the copy of one byte.\<close>

definition copy_start :: "u32 \<Rightarrow> u32 \<Rightarrow> nat" where
  "copy_start eax len = unat (eax - len)"

definition copy_byte :: "nat \<Rightarrow> u8 \<Rightarrow> logbuf \<Rightarrow> logbuf" where
  "copy_byte edi c b = b\<lparr>lb_data := (lb_data b)(edi := c)\<rparr>"

text \<open>The loop of \<^verbatim>\<open>sync_log_buf_2\<close>; the comparison is with \<^verbatim>\<open>ax\<close>, whose upper half is what the caller left there.\<close>

fun sync_loop :: "nat \<Rightarrow> u8 \<Rightarrow> u32 \<Rightarrow> nat \<Rightarrow> logbuf \<Rightarrow> u32 \<times> logbuf" where
  "sync_loop 0 ah ecx esi b = (ecx, b)"
| "sync_loop (Suc room) ah ecx esi b =
     (let al = lb_data b esi
      in if ah = 0 \<and> al = 0 then (ecx, b)
         else
           let b = b\<lparr>lb_sent := lb_sent b @ [al]\<rparr>;
               ecx = ecx - 1
           in if ecx \<noteq> 0 then sync_loop room ah ecx (Suc esi) b else (ecx, b))"

definition sync_log_buf_2 :: "nat \<Rightarrow> u8 \<Rightarrow> logbuf \<Rightarrow> logbuf" where
  "sync_log_buf_2 room ah b =
     (let ecx = lb_limit b - lb_offset b
      in if ecx = 0 then b
         else
           let ebx = ecx;
               (ecx, b) = sync_loop room ah ecx (unat (lb_offset b)) b
           in if ecx = 0 then b\<lparr>lb_limit := 0, lb_offset := 0\<rparr>
              else b\<lparr>lb_offset := lb_offset b + (ebx - ecx)\<rparr>)"

text \<open>
  \<^verbatim>\<open>sync_log_buf\<close>, which nothing calls any more: it gives up when a byte is missing, and otherwise waits for
  the line, writes everything and clears the bytes.
\<close>

primrec write_all :: "nat \<Rightarrow> nat \<Rightarrow> logbuf \<Rightarrow> logbuf" where
  "write_all 0 edi b = b"
| "write_all (Suc ecx) edi b =
     write_all ecx (Suc edi) (b\<lparr>lb_sent := lb_sent b @ [lb_data b edi], lb_data := (lb_data b)(edi := 0)\<rparr>)"

definition sync_log_buf :: "logbuf \<Rightarrow> logbuf" where
  "sync_log_buf b =
     (let ecx = unat (lb_limit b)
      in if ecx = 0 then b
         else if list_ex (\<lambda>i. lb_data b i = 0) [0..<ecx] then b
         else (write_all ecx 0 b)\<lparr>lb_limit := 0\<rparr>)"

section \<open>Writers and the timer\<close>

text \<open>
  A writer has a text to put, has loaded the limit, or copies the rest of its text to an index.  The
  history is not part of the program: the text reserved since the buffer was emptied last, in the order
  of the reservations, the number of bytes that had been sent then, and for every time it was
  emptied the text that had been reserved and the bytes that had been sent since the time before.
\<close>

datatype writer = Idle | Want "u8 list" | Loaded "u8 list" u32 | Copying nat "u8 list"

record lsys =
  lbuf :: logbuf
  writers :: "nat \<Rightarrow> writer"
  reserved :: "u8 list"
  sent_before :: nat
  emptied :: "(u8 list \<times> u8 list) list"

definition set_writer :: "nat \<Rightarrow> writer \<Rightarrow> lsys \<Rightarrow> lsys" where
  "set_writer t w s = s\<lparr>writers := (writers s)(t := w)\<rparr>"

definition run_sync :: "nat \<Rightarrow> u8 \<Rightarrow> lsys \<Rightarrow> lsys" where
  "run_sync room ah s =
     (let b = sync_log_buf_2 room ah (lbuf s);
          s' = s\<lparr>lbuf := b\<rparr>
      in if lb_limit b = 0 \<and> lb_limit (lbuf s) \<noteq> 0
         then s'\<lparr>reserved := [], sent_before := length (lb_sent b),
                 emptied := emptied s @ [(reserved s, drop (sent_before s) (lb_sent b))]\<rparr>
         else s')"

text \<open>
  In the timer interrupt \<^verbatim>\<open>eax\<close> is \<^verbatim>\<open>0x17\<close>, so that the upper half of \<^verbatim>\<open>ax\<close> is zero.  A writer whose text does
  not fit tries again; with interrupts off (\<open>cli\<close>) it empties the buffer itself, with the limit in \<^verbatim>\<open>eax\<close>.
\<close>

inductive lstep :: "bool \<Rightarrow> lsys \<Rightarrow> lsys \<Rightarrow> bool" for cli where
  start: "writers s t = Idle \<Longrightarrow> 0 \<notin> set xs \<Longrightarrow> length xs < 1024 \<Longrightarrow> lstep cli s (set_writer t (Want xs) s)"
| load: "writers s t = Want xs \<Longrightarrow> add_load (of_nat (length xs)) (lbuf s) = Some eax \<Longrightarrow>
    lstep cli s (set_writer t (Loaded xs eax) s)"
| again: "writers s t = Want xs \<Longrightarrow> add_load (of_nat (length xs)) (lbuf s) = None \<Longrightarrow> lstep cli s s"
| again_sync: "cli \<Longrightarrow> writers s t = Want xs \<Longrightarrow> add_load (of_nat (length xs)) (lbuf s) = None \<Longrightarrow>
    lstep cli s (run_sync room (ucast (drop_bit 8 (lb_limit (lbuf s)))) s)"
| cas: "writers s t = Loaded xs eax \<Longrightarrow> add_cas (of_nat (length xs)) eax (lbuf s) = (Some ecx, b) \<Longrightarrow>
    lstep cli s (set_writer t (Copying (copy_start ecx (of_nat (length xs))) xs)
                   (s\<lparr>lbuf := b, reserved := reserved s @ xs\<rparr>))"
| cas_fails: "writers s t = Loaded xs eax \<Longrightarrow> add_cas (of_nat (length xs)) eax (lbuf s) = (None, b) \<Longrightarrow>
    lstep cli s (set_writer t (Want xs) (s\<lparr>lbuf := b\<rparr>))"
| copy: "writers s t = Copying p (c # cs) \<Longrightarrow>
    lstep cli s (set_writer t (Copying (Suc p) cs) (s\<lparr>lbuf := copy_byte p c (lbuf s)\<rparr>))"
| finish: "writers s t = Copying p [] \<Longrightarrow> lstep cli s (set_writer t Idle s)"
| timer: "lstep cli s (run_sync room 0 s)"

definition lb_fresh :: logbuf where
  "lb_fresh = \<lparr>lb_limit = 0, lb_offset = 0, lb_data = (\<lambda>_. 0), lb_sent = []\<rparr>"

definition ls_init :: lsys where
  "ls_init = \<lparr>lbuf = lb_fresh, writers = (\<lambda>_. Idle), reserved = [], sent_before = 0, emptied = []\<rparr>"

section \<open>What a synchronisation sends\<close>

lemma sync_loop_sends:
  assumes "0 < k" and "k < 2 ^ 32"
  shows "\<exists>n \<le> k. sync_loop room ah (of_nat k) esi b =
      (of_nat (k - n), b\<lparr>lb_sent := lb_sent b @ map (lb_data b) [esi..<esi + n]\<rparr>) \<and>
    (ah = 0 \<longrightarrow> (\<forall>i \<in> {esi..<esi + n}. lb_data b i \<noteq> 0)) \<and>
    (n = min room k \<or> n < min room k \<and> ah = 0 \<and> lb_data b (esi + n) = 0)"
  using assms
proof (induction room arbitrary: k esi b)
  case 0
  then show ?case by (intro exI [of _ 0]) auto
next
  case (Suc room)
  let ?al = "lb_data b esi"
  let ?b = "b\<lparr>lb_sent := lb_sent b @ [?al]\<rparr>"
  have k1: "(of_nat k :: u32) - 1 = of_nat (k - 1)" using Suc.prems(1) by (simp add: of_nat_diff)
  show ?case
  proof (cases "ah = 0 \<and> ?al = 0")
    case True
    then show ?thesis by (intro exI [of _ 0]) auto
  next
    case al: False
    show ?thesis
    proof (cases "k = 1")
      case True
      then show ?thesis using al by (intro exI [of _ 1]) (auto simp: Let_def)
    next
      case False
      have "(of_nat (k - 1) :: u32) \<noteq> 0"
        unfolding word_of_nat_eq_0_iff using Suc.prems False dvd_imp_le [of "2 ^ 32" "k - 1"] by auto
      then have step: "sync_loop (Suc room) ah (of_nat k) esi b = sync_loop room ah (of_nat (k - 1)) (Suc esi) ?b"
        using al k1 by (auto simp: Let_def)
      have k2: "0 < k - 1" "k - 1 < 2 ^ 32" using Suc.prems False by simp_all
      obtain n where n: "n \<le> k - 1" "sync_loop room ah (of_nat (k - 1)) (Suc esi) ?b =
          (of_nat (k - 1 - n), ?b\<lparr>lb_sent := lb_sent ?b @ map (lb_data ?b) [Suc esi..<Suc esi + n]\<rparr>)"
        "ah = 0 \<longrightarrow> (\<forall>i \<in> {Suc esi..<Suc esi + n}. lb_data ?b i \<noteq> 0)" "n = min room (k - 1) \<or> n < min room (k - 1) \<and> ah = 0 \<and> lb_data ?b (Suc esi + n) = 0"
        using Suc.IH [OF k2, of "Suc esi" ?b] by blast
      have u: "[esi..<esi + Suc n] = esi # [Suc esi..<Suc esi + n]" by (simp add: upt_conv_Cons)
      have "lb_data b i \<noteq> 0" if "ah = 0" "i \<in> {esi..<esi + Suc n}" for i
        using that al n(3) by (cases "i = esi") auto
      moreover have "sync_loop (Suc room) ah (of_nat k) esi b =
          (of_nat (k - Suc n), b\<lparr>lb_sent := lb_sent b @ map (lb_data b) [esi..<esi + Suc n]\<rparr>)"
        unfolding step n(2) u by simp
      moreover have "Suc n \<le> k" "Suc n = min (Suc room) k \<or> Suc n < min (Suc room) k \<and> ah = 0 \<and> lb_data b (esi + Suc n) = 0" using n(1,4) Suc.prems by auto
      ultimately show ?thesis by blast
    qed
  qed
qed

text \<open>The bytes sent are those from the offset on; the buffer is empty again when they reach the limit.\<close>

lemma sync_log_buf_2_sends:
  assumes "lb_offset b \<le> lb_limit b"
  defines "f \<equiv> unat (lb_offset b)" and "l \<equiv> unat (lb_limit b)"
  shows "\<exists>n \<le> l - f. (ah = 0 \<longrightarrow> (\<forall>i \<in> {f..<f + n}. lb_data b i \<noteq> 0)) \<and> (n = min room (l - f) \<or> n < min room (l - f) \<and> ah = 0 \<and> lb_data b (f + n) = 0) \<and>
    sync_log_buf_2 room ah b =
      (if f + n = l \<and> f < l
       then b\<lparr>lb_sent := lb_sent b @ map (lb_data b) [f..<l], lb_limit := 0, lb_offset := 0\<rparr>
       else b\<lparr>lb_sent := lb_sent b @ map (lb_data b) [f..<f + n], lb_offset := of_nat (f + n)\<rparr>)"
proof -
  have ol: "f \<le> l" "l < 2 ^ 32" using assms unsigned_less [of "lb_limit b", where ?'a = nat] by (simp_all add: word_le_nat_alt)
  have ecx: "lb_limit b - lb_offset b = of_nat (l - f)" using assms ol by (simp add: of_nat_diff)
  show ?thesis
  proof (cases "f < l")
    case False
    then have "lb_limit b - lb_offset b = 0" using ecx ol by simp
    then have "sync_log_buf_2 room ah b = b" by (simp add: sync_log_buf_2_def)
    moreover have "b\<lparr>lb_sent := lb_sent b @ map (lb_data b) [f..<f + 0], lb_offset := of_nat (f + 0)\<rparr> = b" by (simp add: f_def)
    ultimately show ?thesis using False by (intro exI [of _ 0]) (simp del: upt_Suc)
  next
    case True
    have d: "0 < l - f" "l - f < 2 ^ 32" using True ol by simp_all
    obtain n where n: "n \<le> l - f" "sync_loop room ah (of_nat (l - f)) f b =
        (of_nat (l - f - n), b\<lparr>lb_sent := lb_sent b @ map (lb_data b) [f..<f + n]\<rparr>)"
      "ah = 0 \<longrightarrow> (\<forall>i \<in> {f..<f + n}. lb_data b i \<noteq> 0)" "n = min room (l - f) \<or> n < min room (l - f) \<and> ah = 0 \<and> lb_data b (f + n) = 0"
      using sync_loop_sends [of "l - f" room ah f b, OF d] by blast
    have z: "(of_nat m :: u32) = 0 \<longleftrightarrow> m = 0" if "m < 2 ^ 32" for m
      unfolding word_of_nat_eq_0_iff using that dvd_imp_le [of "2 ^ 32" m] by auto
    have nz: "(of_nat (l - f) :: u32) \<noteq> 0" using z [of "l - f"] True ol by auto
    have off: "lb_offset b + (of_nat (l - f) - of_nat (l - f - n)) = of_nat (f + n)"
      using n(1) ol by (simp add: of_nat_diff f_def)
    have "sync_log_buf_2 room ah b =
      (if f + n = l then b\<lparr>lb_sent := lb_sent b @ map (lb_data b) [f..<f + n], lb_limit := 0, lb_offset := 0\<rparr>
       else b\<lparr>lb_sent := lb_sent b @ map (lb_data b) [f..<f + n], lb_offset := of_nat (f + n)\<rparr>)"
    proof -
      have e0: "(of_nat (l - f - n) :: u32) = 0 \<longleftrightarrow> f + n = l" using z [of "l - f - n"] n(1) ol True by auto
      show ?thesis
        unfolding sync_log_buf_2_def Let_def ecx f_def [symmetric] n(2) prod.case e0 if_not_P [OF nz]
        using off by (simp del: of_nat_diff)
    qed
    then show ?thesis using n True by (intro exI [of _ n]) auto
  qed
qed

text \<open>The routine it replaced clears what it sends, and sends nothing when a byte is missing.\<close>

lemma write_all_sends:
  "write_all n edi b =
     b\<lparr>lb_sent := lb_sent b @ map (lb_data b) [edi..<edi + n],
       lb_data := (\<lambda>i. if edi \<le> i \<and> i < edi + n then 0 else lb_data b i)\<rparr>"
proof (induction n arbitrary: edi b)
  case 0
  have "(\<lambda>i. if edi \<le> i \<and> i < edi then 0 else lb_data b i) = lb_data b" by (rule ext) auto
  then show ?case by simp
next
  case (Suc n)
  have "[edi..<Suc (edi + n)] = edi # [Suc edi..<Suc (edi + n)]" by (simp add: upt_conv_Cons)
  then show ?case
    by (intro logbuf.equality) (auto simp: Suc.IH fun_eq_iff simp del: upt_Suc)
qed

lemma sync_log_buf_sends:
  "sync_log_buf b =
     (if \<forall>i < unat (lb_limit b). lb_data b i \<noteq> 0
      then b\<lparr>lb_limit := 0, lb_sent := lb_sent b @ map (lb_data b) [0..<unat (lb_limit b)],
             lb_data := (\<lambda>i. if i < unat (lb_limit b) then 0 else lb_data b i)\<rparr>
      else b)"
  by (rule logbuf.equality) (auto simp: sync_log_buf_def Let_def list_ex_iff write_all_sends unat_eq_0)

section \<open>Invariant\<close>

text \<open>Every reservation lies in the buffer, whatever happens.\<close>

definition writer_ok :: "writer \<Rightarrow> bool" where
  "writer_ok w =
     (case w of
        Idle \<Rightarrow> True
      | Want text \<Rightarrow> length text < 1024 \<and> 0 \<notin> set text
      | Loaded text eax \<Rightarrow> length text < 1024 \<and> 0 \<notin> set text \<and> unat eax + length text \<le> 2048
      | Copying p cs \<Rightarrow> p + length cs \<le> 2048)"

definition in_bounds :: "lsys \<Rightarrow> bool" where
  "in_bounds s \<longleftrightarrow> lb_offset (lbuf s) \<le> lb_limit (lbuf s) \<and> lb_limit (lbuf s) \<le> buffer_size \<and>
     (\<forall>t. writer_ok (writers s t))"

text \<open>
  Until the buffer has been emptied once: the bytes that are reserved and not zero are those of the
  text, the zero bytes among them belong to writers that still copy, and the line has got the text
  up to the offset.
\<close>

definition region :: "writer \<Rightarrow> nat set" where
  "region w = (case w of Copying p cs \<Rightarrow> {p..<p + length cs} | _ \<Rightarrow> {})"

definition first_round :: "lsys \<Rightarrow> bool" where
  "first_round s \<longleftrightarrow>
     length (reserved s) = unat (lb_limit (lbuf s)) \<and> 0 \<notin> set (reserved s) \<and> sent_before s = 0 \<and>
     lb_sent (lbuf s) = take (unat (lb_offset (lbuf s))) (reserved s) \<and>
     (\<forall>t p cs. writers s t = Copying p cs \<longrightarrow>
        p + length cs \<le> length (reserved s) \<and> take (length cs) (drop p (reserved s)) = cs) \<and>
     (\<forall>t u. t \<noteq> u \<longrightarrow> region (writers s t) \<inter> region (writers s u) = {}) \<and>
     (\<forall>i. lb_data (lbuf s) i =
        (if i < length (reserved s) \<and> (\<forall>t. i \<notin> region (writers s t)) then reserved s ! i else 0))"

definition linv :: "lsys \<Rightarrow> bool" where
  "linv s \<longleftrightarrow> in_bounds s \<and> (emptied s = [] \<longrightarrow> first_round s) \<and>
     (emptied s \<noteq> [] \<longrightarrow> fst (hd (emptied s)) = snd (hd (emptied s)))"

lemma in_bounds_unat: "in_bounds s \<Longrightarrow> unat (lb_offset (lbuf s)) \<le> unat (lb_limit (lbuf s)) \<and> unat (lb_limit (lbuf s)) \<le> 2048"
  by (simp add: in_bounds_def word_le_nat_alt)

lemma writer_ok_simps [simp]:
  "writer_ok Idle" "writer_ok (Want x) \<longleftrightarrow> length x < 1024 \<and> 0 \<notin> set x"
  "writer_ok (Loaded x a) \<longleftrightarrow> length x < 1024 \<and> 0 \<notin> set x \<and> unat a + length x \<le> 2048"
  "writer_ok (Copying p cs) \<longleftrightarrow> p + length cs \<le> 2048"
  by (simp_all add: writer_ok_def)

lemma region_simps [simp]:
  "region Idle = {}" "region (Want x) = {}" "region (Loaded x a) = {}" "region (Copying p cs) = {p..<p + length cs}"
  by (simp_all add: region_def)

lemma set_writer_simps [simp]:
  "lbuf (set_writer t w s) = lbuf s" "writers (set_writer t w s) = (writers s)(t := w)"
  "reserved (set_writer t w s) = reserved s" "emptied (set_writer t w s) = emptied s"
  "sent_before (set_writer t w s) = sent_before s"
  by (simp_all add: set_writer_def)

text \<open>A step that changes a writer with no region to another with none.\<close>

lemma first_round_quiet:
  assumes "first_round s" "region (writers s t) = {}" "\<forall>p cs. w \<noteq> Copying p cs"
  shows "first_round (set_writer t w s)"
proof -
  have "region w = {}" using assms(3) by (cases w) auto
  then have r: "region (((writers s)(t := w)) u) = region (writers s u)" for u using assms(2) by simp
  have c: "((writers s)(t := w)) u = Copying p cs \<Longrightarrow> writers s u = Copying p cs" for u p cs
    using assms(3) by (auto split: if_splits)
  show ?thesis using assms(1) c unfolding first_round_def set_writer_simps r by blast
qed

lemma first_roundD:
  assumes "first_round s"
  shows "length (reserved s) = unat (lb_limit (lbuf s))" "0 \<notin> set (reserved s)"
    and "writers s t = Copying p cs \<Longrightarrow> p + length cs \<le> length (reserved s)"
    and "writers s t = Copying p cs \<Longrightarrow> take (length cs) (drop p (reserved s)) = cs"
    and "t \<noteq> u \<Longrightarrow> region (writers s t) \<inter> region (writers s u) = {}"
    and "lb_data (lbuf s) i =
        (if i < length (reserved s) \<and> (\<forall>t. i \<notin> region (writers s t)) then reserved s ! i else 0)"
    and "lb_sent (lbuf s) = take (unat (lb_offset (lbuf s))) (reserved s)" "sent_before s = 0"
  using assms unfolding first_round_def by blast+

lemma region_below: "first_round s \<Longrightarrow> region (writers s u) \<subseteq> {..<length (reserved s)}"
  using first_roundD(3) [of s u] by (cases "writers s u") auto

lemma in_bounds_writer: "in_bounds s \<Longrightarrow> writer_ok w \<Longrightarrow> in_bounds (set_writer t w s)"
  by (simp add: in_bounds_def)

lemma linv_quiet:
  "linv s \<Longrightarrow> region (writers s t) = {} \<Longrightarrow> \<forall>p cs. w \<noteq> Copying p cs \<Longrightarrow> writer_ok w \<Longrightarrow> linv (set_writer t w s)"
  by (simp add: linv_def first_round_quiet in_bounds_writer)

lemma add_load_fits:
  assumes "add_load (of_nat n) b = Some eax" "n < 1024" "unat (lb_limit b) \<le> 2048"
  shows "eax = lb_limit b" and "unat eax + n \<le> 2048"
proof -
  define k where "k = unat (lb_limit b) + n"
  have e: "lb_limit b + of_nat n = (of_nat k :: u32)" by (simp add: k_def)
  have "sint (of_nat k :: u32) = int k" using assms by (intro sint_of_nat_small) (simp add: k_def)
  then have "eax = lb_limit b \<and> k \<le> 2048" using assms(1) unfolding add_load_def Let_def e by (auto split: if_splits)
  then show "eax = lb_limit b" "unat eax + n \<le> 2048" by (simp_all add: k_def)
qed

lemma cas_reserves:
  assumes "add_cas (of_nat n) eax b = (Some ecx, b')" "unat eax + n \<le> 2048"
  shows "lb_limit b = eax" and "b' = b\<lparr>lb_limit := ecx\<rparr>" and "unat ecx = unat eax + n" and "copy_start ecx (of_nat n) = unat eax"
proof -
  have c: "lb_limit b = eax" "b' = b\<lparr>lb_limit := ecx\<rparr>" "ecx = eax + of_nat n"
    using assms(1) by (auto simp: add_cas_def Let_def split: if_splits)
  then show "lb_limit b = eax" "b' = b\<lparr>lb_limit := ecx\<rparr>" by simp_all
  show "copy_start ecx (of_nat n) = unat eax" by (simp add: copy_start_def c(3))
  define k where "k = unat eax + n"
  have "ecx = of_nat k" by (simp add: c(3) k_def)
  moreover have "k \<le> 2048" using assms(2) by (simp add: k_def)
  ultimately have "unat ecx = k" by (simp add: unat_of_nat)
  then show "unat ecx = unat eax + n" by (simp add: k_def)
qed

lemma linv_cas:
  assumes inv: "linv s" and w: "writers s t = Loaded text eax"
    and cas: "add_cas (of_nat (length text)) eax (lbuf s) = (Some ecx, b)"
  shows "linv (set_writer t (Copying (copy_start ecx (of_nat (length text))) text)
    (s\<lparr>lbuf := b, reserved := reserved s @ text\<rparr>))" (is "linv ?s")
proof -
  have ok: "in_bounds s" "writer_ok (writers s u)" for u using inv by (auto simp: linv_def in_bounds_def)
  have fit: "unat eax + length text \<le> 2048" "0 \<notin> set text" using ok(2) [of t] w by simp_all
  note c = cas_reserves [OF cas fit(1)]
  have "lb_limit (lbuf s) \<le> ecx" using c(1,3) by (simp add: word_le_nat_alt)
  then have "in_bounds ?s" using ok c fit by (auto simp: in_bounds_def word_le_nat_alt)
  moreover have "first_round ?s" if "emptied s = []"
  proof -
    have f: "first_round s" using inv that by (simp add: linv_def)
    have len: "length (reserved s) = unat eax" using f c(1) by (simp add: first_round_def)
    have off: "unat (lb_offset (lbuf s)) \<le> length (reserved s)" using in_bounds_unat [OF ok(1)] c(1) len by simp
    note below = region_below [OF f]
    have idle: "region (writers s t) = {}" using w by simp
    show ?thesis
      unfolding first_round_def
    proof (intro conjI allI impI)
      fix u p cs assume "writers ?s u = Copying p cs"
      then show "p + length cs \<le> length (reserved ?s)" "take (length cs) (drop p (reserved ?s)) = cs"
        using first_roundD(3,4) [OF f, of u p cs] c(4) len by (auto split: if_splits)
    next
      fix u v :: nat assume "u \<noteq> v"
      then show "region (writers ?s u) \<inter> region (writers ?s v) = {}"
        using first_roundD(5) [OF f, of u v] below [of u] below [of v] c(4) len by auto
    next
      fix i
      show "lb_data (lbuf ?s) i =
          (if i < length (reserved ?s) \<and> (\<forall>u. i \<notin> region (writers ?s u)) then reserved ?s ! i else 0)"
      proof (cases "i < length (reserved s)")
        case True
        then have "(\<forall>u. i \<notin> region (writers ?s u)) \<longleftrightarrow> (\<forall>u. i \<notin> region (writers s u))" using idle c(4) len by auto
        then show ?thesis using True first_roundD(6) [OF f, of i] c(2) by (simp add: nth_append)
      next
        case False
        then have "lb_data (lbuf ?s) i = 0" using first_roundD(6) [OF f, of i] c(2) by simp
        moreover have "i \<in> region (writers ?s t)" if "i < length (reserved ?s)" using that False c(4) len by auto
        ultimately show ?thesis by auto
      qed
    qed (use first_roundD [OF f] c off fit len in auto)
  qed
  ultimately show ?thesis using inv by (simp add: linv_def)
qed

lemma linv_copy:
  assumes inv: "linv s" and w: "writers s t = Copying p (c # cs)"
  shows "linv (set_writer t (Copying (Suc p) cs) (s\<lparr>lbuf := copy_byte p c (lbuf s)\<rparr>))" (is "linv ?s")
proof -
  have b: "in_bounds ?s" using inv w by (auto simp: linv_def in_bounds_def copy_byte_def dest: spec [of _ t])
  moreover have "first_round ?s" if "emptied s = []"
  proof -
    have f: "first_round s" using inv that by (simp add: linv_def)
    note d = first_roundD [OF f]
    have p: "p < length (reserved s)" "reserved s ! p = c" "take (length cs) (drop (Suc p) (reserved s)) = cs"
    proof -
      show l: "p < length (reserved s)" using d(3) [OF w] by simp
      have "drop p (reserved s) = reserved s ! p # drop (Suc p) (reserved s)" using l by (simp add: Cons_nth_drop_Suc)
      then show "reserved s ! p = c" "take (length cs) (drop (Suc p) (reserved s)) = cs" using d(4) [OF w] by simp_all
    qed
    have reg: "region (writers ?s u) = region (writers s u) - {p}" for u
    proof (cases "u = t")
      case False
      moreover have "p \<in> region (writers s t)" using w by simp
      ultimately have "p \<notin> region (writers s u)" using d(5) [of t u] by blast
      then show ?thesis using False by simp
    qed (use w in auto)
    show ?thesis
      unfolding first_round_def
    proof (intro conjI allI impI)
      fix u q ds assume "writers ?s u = Copying q ds"
      then show "q + length ds \<le> length (reserved ?s)" "take (length ds) (drop q (reserved ?s)) = ds"
        using d(3,4) [of u q ds] d(3) [OF w] p by (auto split: if_splits)
    next
      fix u v :: nat assume "u \<noteq> v"
      then show "region (writers ?s u) \<inter> region (writers ?s v) = {}" using d(5) [of u v] unfolding reg by auto
    next
      fix i
      show "lb_data (lbuf ?s) i =
          (if i < length (reserved ?s) \<and> (\<forall>u. i \<notin> region (writers ?s u)) then reserved ?s ! i else 0)"
        using d(6) [of i] p unfolding reg by (cases "i = p") (auto simp: copy_byte_def)
    qed (use d in \<open>auto simp: copy_byte_def\<close>)
  qed
  ultimately show ?thesis using inv by (simp add: linv_def)
qed

text \<open>What the timer sends in the first round are the next bytes of the reserved texts.\<close>

lemma sends_reserved:
  fixes s n
  defines "f \<equiv> unat (lb_offset (lbuf s))" and "l \<equiv> unat (lb_limit (lbuf s))"
  assumes first: "first_round s" and n: "n \<le> l - f" "\<forall>i \<in> {f..<f + n}. lb_data (lbuf s) i \<noteq> 0" and bd: "f \<le> l" "l \<le> 2048"
  shows "lb_sent (lbuf s) @ map (lb_data (lbuf s)) [f..<f + n] = take (f + n) (reserved s)"
proof -
  note d = first_roundD [OF first]
  have "lb_data (lbuf s) i = reserved s ! i" if "i \<in> set [f..<f + n]" for i
    using d(6) [of i] n that unfolding f_def l_def by (auto split: if_splits)
  then have "map (lb_data (lbuf s)) [f..<f + n] = map (nth (reserved s)) [f..<f + n]" by simp
  also have "\<dots> = take n (drop f (reserved s))"
    using n(1) bd d(1) unfolding f_def l_def by (auto simp: list_eq_iff_nth_eq)
  finally show ?thesis using d(7) by (simp add: take_add f_def)
qed

lemma linv_timer:
  assumes inv: "linv s"
  shows "linv (run_sync room 0 s)" (is "linv ?s")
proof -
  let ?b = "lbuf s" let ?f = "unat (lb_offset ?b)" and ?l = "unat (lb_limit ?b)"
  have bd: "in_bounds s" "?f \<le> ?l" "?l \<le> 2048" using inv in_bounds_unat [of s] by (auto simp: linv_def)
  have le: "lb_offset ?b \<le> lb_limit ?b" using bd(1) by (simp add: in_bounds_def)
  obtain n where n: "n \<le> ?l - ?f" "\<forall>i \<in> {?f..<?f + n}. lb_data ?b i \<noteq> 0"
    "sync_log_buf_2 room 0 ?b =
      (if ?f + n = ?l \<and> ?f < ?l
       then ?b\<lparr>lb_sent := lb_sent ?b @ map (lb_data ?b) [?f..<?l], lb_limit := 0, lb_offset := 0\<rparr>
       else ?b\<lparr>lb_sent := lb_sent ?b @ map (lb_data ?b) [?f..<?f + n], lb_offset := of_nat (?f + n)\<rparr>)"
    using sync_log_buf_2_sends [OF le, of 0 room] by auto
  have sends: "lb_sent ?b @ map (lb_data ?b) [?f..<?f + n] = take (?f + n) (reserved s)" if "first_round s"
    using sends_reserved [OF that n(1,2) bd(2,3)] .
  show ?thesis
  proof (cases "?f + n = ?l \<and> ?f < ?l")
    case True
    then have s: "?s = s\<lparr>lbuf := ?b\<lparr>lb_sent := lb_sent ?b @ map (lb_data ?b) [?f..<?l], lb_limit := 0, lb_offset := 0\<rparr>,
        reserved := [], sent_before := length (lb_sent ?b @ map (lb_data ?b) [?f..<?l]),
        emptied := emptied s @ [(reserved s, drop (sent_before s) (lb_sent ?b @ map (lb_data ?b) [?f..<?l]))]\<rparr>"
      unfolding run_sync_def n(3) Let_def by auto
    have "reserved s = drop (sent_before s) (lb_sent ?b @ map (lb_data ?b) [?f..<?l])" if "emptied s = []"
    proof -
      have f: "first_round s" using inv that by (simp add: linv_def)
      show ?thesis using sends [OF f] True first_roundD(1,8) [OF f] by simp
    qed
    then show ?thesis using inv unfolding s by (cases "emptied s") (auto simp: linv_def in_bounds_def)
  next
    case False
    define k where "k = ?f + n"
    have k: "unat (of_nat k :: u32) = k" "k \<le> ?l" using n(1) bd by (simp_all del: of_nat_add add: k_def unat_of_nat)
    have s: "?s = s\<lparr>lbuf := ?b\<lparr>lb_sent := lb_sent ?b @ map (lb_data ?b) [?f..<k], lb_offset := of_nat k\<rparr>\<rparr>"
      unfolding run_sync_def n(3) Let_def k_def using False by auto
    have "in_bounds ?s" using bd k unfolding s by (auto simp: in_bounds_def word_le_nat_alt)
    moreover have "first_round ?s" if "emptied s = []"
    proof -
      have f: "first_round s" using inv that by (simp add: linv_def)
      show ?thesis using first_roundD [OF f] sends [OF f] k unfolding s k_def [symmetric] first_round_def by auto
    qed
    moreover have "emptied ?s = emptied s" unfolding s by simp
    ultimately show ?thesis using inv by (simp add: linv_def)
  qed
qed

lemma linv_step:
  assumes step: "lstep False s s'" and inv: "linv s"
  shows "linv s'"
proof -
  have ok: "writer_ok (writers s t)" for t using inv by (simp add: linv_def in_bounds_def)
  have l: "unat (lb_limit (lbuf s)) \<le> 2048" using inv in_bounds_unat [of s] by (simp add: linv_def)
  from step show ?thesis
  proof (cases rule: lstep.cases)
    case (start t xs)
    then show ?thesis using inv by (auto intro!: linv_quiet)
  next
    case (load t xs eax)
    then have "length xs < 1024" "0 \<notin> set xs" using ok [of t] by simp_all
    then show ?thesis using load inv add_load_fits [OF load(3) _ l] by (auto intro!: linv_quiet)
  next
    case (cas t xs eax ecx b)
    show ?thesis unfolding cas(1) by (rule linv_cas [OF inv cas(2,3)])
  next
    case (cas_fails t xs eax b)
    then have "s\<lparr>lbuf := b\<rparr> = s" by (auto simp: add_cas_def Let_def split: if_splits)
    then show ?thesis using cas_fails inv ok [of t] by (auto intro!: linv_quiet)
  next
    case (copy t p c cs)
    show ?thesis unfolding copy(1) by (rule linv_copy [OF inv copy(2)])
  next
    case (finish t p)
    then show ?thesis using inv by (auto intro!: linv_quiet)
  next
    case (timer room)
    show ?thesis unfolding timer by (rule linv_timer [OF inv])
  qed (use inv in simp_all)
qed

interpretation lbuf_inv: step_invariant "lstep False" linv
  by unfold_locales (rule linv_step)

lemma linv_init: "linv ls_init"
  by (simp add: linv_def in_bounds_def first_round_def ls_init_def lb_fresh_def)

text \<open>The bounds hold as well when writers with interrupts off empty the buffer.\<close>

lemma in_bounds_sync:
  assumes "in_bounds s"
  shows "in_bounds (run_sync room ah s)"
proof -
  let ?b = "lbuf s" let ?f = "unat (lb_offset ?b)" and ?l = "unat (lb_limit ?b)"
  have le: "lb_offset ?b \<le> lb_limit ?b" "?f \<le> ?l" "?l \<le> 2048" using assms in_bounds_unat [of s] by (simp_all add: in_bounds_def)
  obtain n where n: "n \<le> ?l - ?f" "sync_log_buf_2 room ah ?b =
      (if ?f + n = ?l \<and> ?f < ?l
       then ?b\<lparr>lb_sent := lb_sent ?b @ map (lb_data ?b) [?f..<?l], lb_limit := 0, lb_offset := 0\<rparr>
       else ?b\<lparr>lb_sent := lb_sent ?b @ map (lb_data ?b) [?f..<?f + n], lb_offset := of_nat (?f + n)\<rparr>)"
    using sync_log_buf_2_sends [OF le(1), of ah room] by blast
  define k where "k = ?f + n"
  have "unat (of_nat k :: u32) = k" "k \<le> ?l" using n(1) le by (simp_all del: of_nat_add add: k_def unat_of_nat)
  then show ?thesis
    using assms unfolding run_sync_def n(2) k_def [symmetric] by (auto simp: in_bounds_def Let_def word_le_nat_alt)
qed

lemma in_bounds_step:
  assumes step: "lstep cli s s'" and inv: "in_bounds s"
  shows "in_bounds s'"
proof -
  have ok: "writer_ok (writers s t)" for t using inv by (simp add: in_bounds_def)
  have l: "unat (lb_limit (lbuf s)) \<le> 2048" using inv in_bounds_unat [of s] by simp
  from step show ?thesis
  proof (cases rule: lstep.cases)
    case (load t xs eax)
    then have "length xs < 1024" "0 \<notin> set xs" using ok [of t] by simp_all
    then show ?thesis using load inv add_load_fits [OF load(3) _ l] by (simp add: in_bounds_writer)
  next
    case (cas t xs eax ecx b)
    have fit: "unat eax + length xs \<le> 2048" using ok [of t] cas(2) by simp
    have "unat (lb_offset (lbuf s)) \<le> unat (lb_limit (lbuf s))" using inv in_bounds_unat [of s] by simp
    then show ?thesis using inv fit cas_reserves [OF cas(3) fit] cas(1) by (auto simp: in_bounds_def word_le_nat_alt)
  next
    case (cas_fails t xs eax b)
    then have "s\<lparr>lbuf := b\<rparr> = s" by (auto simp: add_cas_def Let_def split: if_splits)
    then show ?thesis using cas_fails inv ok [of t] by (simp add: in_bounds_writer)
  next
    case (copy t p c cs)
    then show ?thesis using inv ok [of t] by (simp add: in_bounds_def copy_byte_def)
  qed (use inv in \<open>simp_all add: in_bounds_writer in_bounds_sync\<close>)
qed

interpretation lbuf_bounds: step_invariant "lstep cli" in_bounds for cli
  by unfold_locales (rule in_bounds_step)

text \<open>
  C13: the log buffer under any interleaving of writers, of their single instructions and bytes, with
  the timer interrupt, for texts of fewer than 1024 bytes, none of them zero.  The offset and the limit stay ordered and inside the buffer and a
  writer only copies inside the buffer, also when writers with interrupts off empty it.  When none
  does, until the buffer is emptied for the first time the bytes sent are the beginning of the texts
  in the order of their reservations, with no gap, and no two writers copy to the same place, and what
  has been sent when the buffer is emptied for the first time is exactly the text reserved in it.
\<close>

theorem log_buffer_safe:
  assumes "(lstep cli)\<^sup>*\<^sup>* ls_init s"
  shows "lb_offset (lbuf s) \<le> lb_limit (lbuf s) \<and> lb_limit (lbuf s) \<le> buffer_size \<and>
    (\<forall>t p cs. writers s t = Copying p cs \<longrightarrow> p + length cs \<le> 2048) \<and>
    (\<not> cli \<and> emptied s = [] \<longrightarrow>
       lb_sent (lbuf s) = take (unat (lb_offset (lbuf s))) (reserved s) \<and>
       (\<forall>t u. t \<noteq> u \<longrightarrow> region (writers s t) \<inter> region (writers s u) = {})) \<and>
    (\<not> cli \<and> emptied s \<noteq> [] \<longrightarrow> snd (hd (emptied s)) = fst (hd (emptied s)))"
proof -
  have "in_bounds ls_init" using linv_init by (simp add: linv_def)
  then have b: "in_bounds s" by (rule lbuf_bounds.reachable [OF assms])
  have "p + length cs \<le> 2048" if "writers s t = Copying p cs" for t p cs
    using b that by (auto simp: in_bounds_def dest: spec [of _ t])
  moreover have "linv s" if "\<not> cli" using lbuf_inv.reachable [OF _ linv_init] assms that by simp
  ultimately show ?thesis using b first_roundD(5,7) [of s] by (simp add: linv_def in_bounds_def)
qed

theorem log_buffer_safe_witness:
  "(lstep False)\<^sup>*\<^sup>* ls_init (run_sync 5 0 (set_writer 0 (Want [72, 105]) ls_init)) \<and>
   lb_limit (lbuf (run_sync 5 0 (set_writer 0 (Want [72, 105]) ls_init))) \<le> buffer_size"
proof -
  let ?s = "set_writer 0 (Want [72, 105]) ls_init"
  have "(lstep False)\<^sup>*\<^sup>* ls_init ?s" by (intro r_into_rtranclp lstep.start) (simp_all add: ls_init_def)
  also have "lstep False ?s (run_sync 5 0 ?s)" by (rule lstep.timer)
  finally show ?thesis using log_buffer_safe [of False "run_sync 5 0 ?s"] by simp
qed

section \<open>Later rounds\<close>

text \<open>A writer that is left alone copies its text.\<close>

definition put_text :: "nat \<Rightarrow> u8 list \<Rightarrow> logbuf \<Rightarrow> logbuf" where
  "put_text p cs b = fold (\<lambda>(i, c). copy_byte i c) (enumerate p cs) b"

lemma put_text_simps [simp]:
  "lb_limit (put_text p cs b) = lb_limit b" "lb_offset (put_text p cs b) = lb_offset b" "lb_sent (put_text p cs b) = lb_sent b"
  by (induction cs arbitrary: p b) (simp_all add: put_text_def copy_byte_def)

lemma lb_data_put_text:
  "lb_data (put_text p cs b) i = (if p \<le> i \<and> i < p + length cs then cs ! (i - p) else lb_data b i)"
  by (induction cs arbitrary: p b) (auto simp: put_text_def copy_byte_def nth_Cons' Suc_diff_le)

lemma copies_all:
  "writers s t = Copying p cs \<Longrightarrow> (lstep cli)\<^sup>*\<^sup>* s (set_writer t (Copying (p + length cs) []) (s\<lparr>lbuf := put_text p cs (lbuf s)\<rparr>))"
proof (induction cs arbitrary: s p)
  case Nil
  then have "set_writer t (Copying p []) s = s" by (simp add: set_writer_def fun_upd_idem)
  then show ?case by (simp add: put_text_def)
next
  case (Cons c cs)
  let ?s = "set_writer t (Copying (Suc p) cs) (s\<lparr>lbuf := copy_byte p c (lbuf s)\<rparr>)"
  have "lstep cli s ?s" by (rule lstep.copy [OF Cons.prems])
  also have "(lstep cli)\<^sup>*\<^sup>* ?s (set_writer t (Copying (Suc p + length cs) []) (?s\<lparr>lbuf := put_text (Suc p) cs (lbuf ?s)\<rparr>))"
    by (rule Cons.IH) simp
  finally show ?case by (simp add: set_writer_def put_text_def)
qed

text \<open>With interrupts off a writer finds the buffer full only when \<^verbatim>\<open>ah\<close> is not zero: missing bytes are sent as zeros.\<close>

lemma full_sync_sends_all:
  assumes "add_load (of_nat n) b = None" "n < 1024" "unat (lb_limit b) \<le> 2048" "lb_offset b \<le> lb_limit b"
    and "unat (lb_limit b) - unat (lb_offset b) \<le> room"
  shows "lb_sent (sync_log_buf_2 room (ucast (drop_bit 8 (lb_limit b))) b) =
    lb_sent b @ map (lb_data b) [unat (lb_offset b)..<unat (lb_limit b)]"
proof -
  let ?ah = "ucast (drop_bit 8 (lb_limit b)) :: u8" and ?l = "unat (lb_limit b)" and ?f = "unat (lb_offset b)"
  define k where "k = ?l + n"
  have e: "lb_limit b + of_nat n = (of_nat k :: u32)" by (simp add: k_def)
  have "sint (of_nat k :: u32) = int k" using assms by (intro sint_of_nat_small) (simp add: k_def)
  then have "2048 < k" using assms(1) unfolding add_load_def Let_def e by (auto split: if_splits)
  then have l: "1024 < ?l" using assms(2) by (simp add: k_def)
  have "unat ?ah = ?l div 256"
    using assms(3) by (simp add: unat_drop_bit_eq drop_bit_eq_div unsigned_ucast_eq take_bit_eq_mod unat_div_distrib)
  then have ah: "?ah \<noteq> 0" using l by auto
  have fl: "?f \<le> ?l" using assms(4) by (simp add: word_le_nat_alt)
  obtain m where m: "m = min room (?l - ?f)" "sync_log_buf_2 room ?ah b =
      (if ?f + m = ?l \<and> ?f < ?l
       then b\<lparr>lb_sent := lb_sent b @ map (lb_data b) [?f..<?l], lb_limit := 0, lb_offset := 0\<rparr>
       else b\<lparr>lb_sent := lb_sent b @ map (lb_data b) [?f..<?f + m], lb_offset := of_nat (?f + m)\<rparr>)"
    using sync_log_buf_2_sends [OF assms(4), of ?ah room] ah by blast
  then show ?thesis using assms(5) fl unfolding m(2) by auto
qed

lemma reserves_first:
  assumes "writers s t = Idle" "0 \<notin> set xs" "length xs < 1024" "lb_limit (lbuf s) = 0"
  shows "(lstep cli)\<^sup>*\<^sup>* s (set_writer t (Copying 0 xs)
    (s\<lparr>lbuf := (lbuf s)\<lparr>lb_limit := of_nat (length xs)\<rparr>, reserved := reserved s @ xs\<rparr>))" (is "_ s ?s")
proof -
  let ?n = "of_nat (length xs) :: u32"
  let ?w = "set_writer t (Want xs) s" and ?l = "set_writer t (Loaded xs 0) (set_writer t (Want xs) s)"
  have n: "sint ?n = int (length xs)" using assms(3) by (intro sint_of_nat_small) simp
  have "(lstep cli)\<^sup>*\<^sup>* s ?w" using assms by (intro r_into_rtranclp lstep.start)
  also have "lstep cli ?w ?l" using assms n by (intro lstep.load) (simp_all add: add_load_def)
  also have "lstep cli ?l (set_writer t (Copying (copy_start ?n ?n) xs)
      (?l\<lparr>lbuf := (lbuf s)\<lparr>lb_limit := ?n\<rparr>, reserved := reserved ?l @ xs\<rparr>))"
    using assms(4) by (intro lstep.cas [where eax = 0 and xs = xs]) (simp_all add: add_cas_def Let_def)
  finally show ?thesis by (simp add: set_writer_def copy_start_def)
qed

text \<open>The timer finds as many bytes as are reserved, none of them zero, and a line that is ready for all of them.\<close>

lemma timer_empties:
  assumes "lb_limit (lbuf s) = of_nat n" "lb_offset (lbuf s) = 0" "0 < n" "n < 1024" "\<forall>i < n. lb_data (lbuf s) i \<noteq> 0"
  defines "out \<equiv> lb_sent (lbuf s) @ map (lb_data (lbuf s)) [0..<n]"
  shows "lstep cli s (s\<lparr>lbuf := (lbuf s)\<lparr>lb_limit := 0, lb_sent := out\<rparr>, reserved := [],
    sent_before := length out, emptied := emptied s @ [(reserved s, drop (sent_before s) out)]\<rparr>)"
proof -
  let ?b = "lbuf s"
  have l: "unat (lb_limit ?b) = n" "unat (lb_offset ?b) = 0" using assms by (simp_all add: unat_of_nat)
  have "\<exists>m. m = n \<and> sync_log_buf_2 n 0 ?b =
      (if m = n \<and> 0 < n then ?b\<lparr>lb_sent := out, lb_limit := 0, lb_offset := 0\<rparr>
       else ?b\<lparr>lb_sent := lb_sent ?b @ map (lb_data ?b) [0..<m], lb_offset := of_nat m\<rparr>)"
    using sync_log_buf_2_sends [of ?b 0 n] assms(2,5) unfolding l out_def by auto
  then have "sync_log_buf_2 n 0 ?b = ?b\<lparr>lb_sent := out, lb_limit := 0, lb_offset := 0\<rparr>" using assms(3) by simp
  moreover have "lb_limit ?b \<noteq> 0" using l assms(3) by auto
  ultimately have "run_sync n 0 s = s\<lparr>lbuf := ?b\<lparr>lb_limit := 0, lb_sent := out\<rparr>, reserved := [],
    sent_before := length out, emptied := emptied s @ [(reserved s, drop (sent_before s) out)]\<rparr>"
    using assms(2) by (simp add: run_sync_def Let_def)
  then show ?thesis using lstep.timer [of cli s n] by simp
qed

text \<open>
  A text that is copied before the next interrupt is sent in every round: from an empty buffer back
  to an empty buffer.
\<close>

definition lb_empty :: "lsys \<Rightarrow> bool" where
  "lb_empty s \<longleftrightarrow> lb_limit (lbuf s) = 0 \<and> lb_offset (lbuf s) = 0 \<and> reserved s = [] \<and> sent_before s = length (lb_sent (lbuf s))"

lemma log_alone_sent:
  assumes "lb_empty s" "writers s t = Idle" "0 \<notin> set xs" "xs \<noteq> []" "length xs < 1024"
  shows "\<exists>s'. (lstep cli)\<^sup>*\<^sup>* s s' \<and> lb_empty s' \<and> writers s' = writers s \<and> emptied s' = emptied s @ [(xs, xs)] \<and>
    lb_sent (lbuf s') = lb_sent (lbuf s) @ xs"
proof -
  let ?n = "length xs"
  note e = assms(1) [unfolded lb_empty_def]
  define b where "b = put_text 0 xs ((lbuf s)\<lparr>lb_limit := of_nat ?n\<rparr>)"
  define s1 where "s1 = set_writer t (Copying 0 xs) (s\<lparr>lbuf := (lbuf s)\<lparr>lb_limit := of_nat ?n\<rparr>, reserved := xs\<rparr>)"
  define s2 where "s2 = set_writer t (Copying ?n []) (s1\<lparr>lbuf := b\<rparr>)"
  define s3 where "s3 = set_writer t Idle s2"
  have b: "lb_data b i = xs ! i" if "i < ?n" for i using that by (simp add: b_def lb_data_put_text)
  have f: "lbuf s3 = b" "reserved s3 = xs" "sent_before s3 = sent_before s" "emptied s3 = emptied s" "writers s3 = writers s"
    using assms(2) by (auto simp: s3_def s2_def s1_def)
  have lb: "lb_limit b = of_nat ?n" "lb_offset b = 0" "lb_sent b = lb_sent (lbuf s)" using e by (simp_all add: b_def)
  have m: "map (lb_data b) [0..<?n] = xs" by (rule nth_equalityI) (simp_all add: b)
  have nz: "\<forall>i < ?n. lb_data b i \<noteq> 0" using assms(3) b by (metis nth_mem)
  have "(lstep cli)\<^sup>*\<^sup>* s s1" using reserves_first [OF assms(2,3,5), of cli] e by (simp add: s1_def)
  also have "(lstep cli)\<^sup>*\<^sup>* s1 s2" using copies_all [of s1 t 0 xs cli] by (simp add: s1_def s2_def b_def)
  also have "lstep cli s2 s3" unfolding s3_def by (rule lstep.finish) (simp add: s2_def)
  also have "lstep cli s3 (s3\<lparr>lbuf := b\<lparr>lb_limit := 0, lb_sent := lb_sent b @ xs\<rparr>, reserved := [],
      sent_before := length (lb_sent b @ xs), emptied := emptied s3 @ [(xs, drop (sent_before s3) (lb_sent b @ xs))]\<rparr>)"
    using timer_empties [of s3 ?n cli] assms(4,5) nz lb unfolding f m by simp
  finally show ?thesis using f lb e by (intro exI conjI) (assumption, simp_all add: lb_empty_def)
qed

text \<open>
  C24: the timer interrupt takes a reserved byte for written when it is not zero, but
  \<^verbatim>\<open>sync_log_buf_2\<close> does not clear the bytes it has sent.  After the buffer was emptied once, a text that is
  reserved when the timer interrupt comes is lost: any text of the first round is sent
  a second time in the place of a text of the same length, and the buffer is emptied.
\<close>

theorem log_buffer_stale:
  assumes "0 \<notin> set xs" "0 \<notin> set ys" "length xs = length ys" "ys \<noteq> []" "length ys < 1024"
  shows "\<exists>s. (lstep False)\<^sup>*\<^sup>* ls_init s \<and> emptied s = [(xs, xs), (ys, xs)]"
proof -
  let ?n = "length ys" and ?d = "put_text 0 xs lb_fresh"
  have d: "lb_data ?d i = (if i < ?n then xs ! i else 0)" for i
    using assms(3) by (simp add: lb_data_put_text lb_fresh_def)
  have nz: "\<forall>i < ?n. lb_data ?d i \<noteq> 0" using assms(1,3) by (auto simp: d in_set_conv_nth)
  have m: "map (lb_data ?d) [0..<?n] = xs" using assms(3) by (intro nth_equalityI) (simp_all add: d)
  define s1 where "s1 = set_writer 0 (Copying 0 xs) (ls_init\<lparr>lbuf := lb_fresh\<lparr>lb_limit := of_nat ?n\<rparr>, reserved := xs\<rparr>)"
  define s2 where "s2 = set_writer 0 (Copying ?n []) (s1\<lparr>lbuf := ?d\<lparr>lb_limit := of_nat ?n\<rparr>\<rparr>)"
  define s3 where "s3 = s2\<lparr>lbuf := ?d\<lparr>lb_limit := 0, lb_sent := xs\<rparr>, reserved := [], sent_before := ?n, emptied := [(xs, xs)]\<rparr>"
  define s4 where "s4 = set_writer 2 (Copying 0 ys) (s3\<lparr>lbuf := ?d\<lparr>lb_sent := xs, lb_limit := of_nat ?n\<rparr>, reserved := ys\<rparr>)"
  have fresh: "lb_limit lb_fresh = 0" "lb_offset lb_fresh = 0" "lb_sent lb_fresh = []" by (simp_all add: lb_fresh_def)
  have put: "put_text 0 xs (lb_fresh\<lparr>lb_limit := of_nat ?n\<rparr>) = ?d\<lparr>lb_limit := of_nat ?n\<rparr>"
    by (rule logbuf.equality) (simp_all add: fun_eq_iff lb_data_put_text)
  have f1: "lbuf s1 = lb_fresh\<lparr>lb_limit := of_nat ?n\<rparr>" "writers s1 0 = Copying 0 xs" "emptied s1 = []" "reserved s1 = xs"
    "sent_before s1 = 0" "writers s1 2 = Idle"
    by (simp_all add: s1_def ls_init_def)
  have f2: "lbuf s2 = ?d\<lparr>lb_limit := of_nat ?n\<rparr>" "emptied s2 = []" "reserved s2 = xs" "sent_before s2 = 0" "writers s2 2 = Idle"
    by (simp_all add: s2_def f1)
  have f3: "lbuf s3 = ?d\<lparr>lb_limit := 0, lb_sent := xs\<rparr>" "emptied s3 = [(xs, xs)]" "reserved s3 = []" "sent_before s3 = ?n" "writers s3 2 = Idle"
    by (simp_all add: s3_def f2)
  have f4: "lbuf s4 = ?d\<lparr>lb_sent := xs, lb_limit := of_nat ?n\<rparr>" "emptied s4 = [(xs, xs)]" "reserved s4 = ys" "sent_before s4 = ?n"
    by (simp_all add: s4_def f3)
  have "(lstep False)\<^sup>*\<^sup>* ls_init s1"
    using reserves_first [of ls_init 0 xs False] assms fresh by (simp add: s1_def ls_init_def)
  also have "(lstep False)\<^sup>*\<^sup>* s1 s2" using copies_all [OF f1(2), of False] assms(3) unfolding f1(1) put s2_def by simp
  also have "lstep False s2 s3"
    using timer_empties [of s2 ?n False] assms(4,5) nz unfolding f2 s3_def by (simp add: fresh m assms(3))
  also have "(lstep False)\<^sup>*\<^sup>* s3 s4" using reserves_first [OF f3(5) assms(2,5), of False] unfolding f3 s4_def by (simp add: fresh)
  finally have "(lstep False)\<^sup>*\<^sup>* ls_init s4" .
  moreover have "\<exists>s. lstep False s4 s \<and> emptied s = [(xs, xs), (ys, xs)]"
    using timer_empties [of s4 ?n False] assms(4,5) nz unfolding f4 by (fastforce simp: fresh m assms(3))
  ultimately show ?thesis by (blast intro: rtranclp.rtrancl_into_rtrancl)
qed

theorem log_buffer_stale_witness:
  "\<exists>s. (lstep False)\<^sup>*\<^sup>* ls_init s \<and> emptied s = [([65, 65], [65, 65]), ([66, 66], [65, 65])]"
  by (rule log_buffer_stale) simp_all

end
