(* ===== verification/Syscalls.thy ===== *)
theory Syscalls
  imports Sched
begin

text \<open>
  System calls: the table of \<^verbatim>\<open>include/linux/sys.h\<close>, the numbers and the user-mode wrappers of
  \<^verbatim>\<open>include/unistd.h\<close>, the calls of \<^verbatim>\<open>kernel/traps.c\<close> that only return 0, and the entry \<^verbatim>\<open>system_call\<close> of
  \<^verbatim>\<open>kernel/sys_call.s\<close>: the call through the table and the way back to the user.  A function is
  named by its identifier in the source.
\<close>

section \<open>Functions, table and numbers\<close>

definition sys_call_table :: "string list" where
  "sys_call_table =
     [''sys_setup'', ''sys_exit'', ''sys_fork'', ''sys_read'', ''sys_write'', ''sys_open'',
      ''sys_close'', ''sys_waitpid'', ''sys_creat'', ''sys_link'', ''sys_unlink'', ''sys_execve'',
      ''sys_chdir'', ''sys_time'', ''sys_mknod'', ''sys_chmod'', ''sys_chown'', ''sys_break'',
      ''sys_stat'', ''sys_lseek'', ''sys_getpid'', ''sys_mount'', ''sys_umount'', ''sys_setuid'',
      ''sys_getuid'', ''sys_stime'', ''sys_ptrace'', ''sys_alarm'', ''sys_fstat'', ''sys_pause'',
      ''sys_utime'', ''sys_stty'', ''sys_gtty'', ''sys_access'', ''sys_nice'', ''sys_ftime'',
      ''sys_sync'', ''sys_kill'', ''sys_rename'', ''sys_mkdir'', ''sys_rmdir'', ''sys_dup'',
      ''sys_pipe'', ''sys_times'', ''sys_prof'', ''sys_brk'', ''sys_setgid'', ''sys_getgid'',
      ''sys_signal'', ''sys_geteuid'', ''sys_getegid'', ''sys_acct'', ''sys_phys'', ''sys_lock'',
      ''sys_ioctl'', ''sys_fcntl'', ''sys_mpx'', ''sys_setpgid'', ''sys_ulimit'', ''sys_uname'',
      ''sys_umask'', ''sys_chroot'', ''sys_ustat'', ''sys_dup2'', ''sys_getppid'', ''sys_getpgrp'',
      ''sys_setsid'', ''sys_sigaction'', ''sys_sgetmask'', ''sys_ssetmask'', ''sys_setreuid'',
      ''sys_setregid'', ''sys_sigsuspend'', ''sys_sigpending'', ''sys_sethostname'',
      ''sys_setrlimit'', ''sys_getrlimit'', ''sys_getrusage'', ''sys_gettimeofday'',
      ''sys_settimeofday'', ''sys_getgroups'', ''sys_setgroups'', ''sys_select'', ''sys_symlink'',
      ''sys_lstat'', ''sys_readlink'', ''sys_uselib'', ''sys_klock'', ''sys_kunlock'',
      ''sys_kdebug'']"

definition NR_syscalls :: nat where
  "NR_syscalls = length sys_call_table"

text \<open>The constants \<^verbatim>\<open>__NR_name\<close>, by name.\<close>

definition NR_table :: "(string \<times> nat) list" where
  "NR_table =
     [(''setup'', 0), (''exit'', 1), (''fork'', 2), (''read'', 3), (''write'', 4), (''open'', 5),
      (''close'', 6), (''waitpid'', 7), (''creat'', 8), (''link'', 9), (''unlink'', 10),
      (''execve'', 11), (''chdir'', 12), (''time'', 13), (''mknod'', 14), (''chmod'', 15),
      (''chown'', 16), (''break'', 17), (''stat'', 18), (''lseek'', 19), (''getpid'', 20),
      (''mount'', 21), (''umount'', 22), (''setuid'', 23), (''getuid'', 24), (''stime'', 25),
      (''ptrace'', 26), (''alarm'', 27), (''fstat'', 28), (''pause'', 29), (''utime'', 30),
      (''stty'', 31), (''gtty'', 32), (''access'', 33), (''nice'', 34), (''ftime'', 35),
      (''sync'', 36), (''kill'', 37), (''rename'', 38), (''mkdir'', 39), (''rmdir'', 40),
      (''dup'', 41), (''pipe'', 42), (''times'', 43), (''prof'', 44), (''brk'', 45),
      (''setgid'', 46), (''getgid'', 47), (''signal'', 48), (''geteuid'', 49), (''getegid'', 50),
      (''acct'', 51), (''phys'', 52), (''lock'', 53), (''ioctl'', 54), (''fcntl'', 55),
      (''mpx'', 56), (''setpgid'', 57), (''ulimit'', 58), (''uname'', 59), (''umask'', 60),
      (''chroot'', 61), (''ustat'', 62), (''dup2'', 63), (''getppid'', 64), (''getpgrp'', 65),
      (''setsid'', 66), (''sigaction'', 67), (''sgetmask'', 68), (''ssetmask'', 69),
      (''setreuid'', 70), (''setregid'', 71), (''sigsuspend'', 72), (''sigpending'', 73),
      (''sethostname'', 74), (''setrlimit'', 75), (''getrlimit'', 76), (''getrusage'', 77),
      (''gettimeofday'', 78), (''settimeofday'', 79), (''getgroups'', 80), (''setgroups'', 81),
      (''select'', 82), (''symlink'', 83), (''lstat'', 84), (''readlink'', 85), (''uselib'', 86),
      (''klock'', 87), (''kunlock'', 88), (''kdebug'', 89)]"

definition NR :: "string \<Rightarrow> nat option" where
  "NR name = map_of NR_table name"

text \<open>The calls of \<^verbatim>\<open>kernel/traps.c\<close>.\<close>

definition stubs :: "string list" where
  "stubs =
     [''sys_setup'', ''sys_exit'', ''sys_read'', ''sys_write'', ''sys_open'', ''sys_close'',
      ''sys_waitpid'', ''sys_creat'', ''sys_link'', ''sys_unlink'', ''sys_execve'', ''sys_chdir'',
      ''sys_time'', ''sys_mknod'', ''sys_chmod'', ''sys_chown'', ''sys_break'', ''sys_stat'',
      ''sys_lseek'', ''sys_getpid'', ''sys_mount'', ''sys_umount'', ''sys_setuid'', ''sys_getuid'',
      ''sys_stime'', ''sys_ptrace'', ''sys_alarm'', ''sys_fstat'', ''sys_utime'', ''sys_stty'',
      ''sys_gtty'', ''sys_access'', ''sys_nice'', ''sys_ftime'', ''sys_sync'', ''sys_kill'',
      ''sys_rename'', ''sys_mkdir'', ''sys_rmdir'', ''sys_dup'', ''sys_pipe'', ''sys_times'',
      ''sys_prof'', ''sys_brk'', ''sys_setgid'', ''sys_getgid'', ''sys_signal'', ''sys_geteuid'',
      ''sys_getegid'', ''sys_acct'', ''sys_phys'', ''sys_lock'', ''sys_ioctl'', ''sys_fcntl'',
      ''sys_mpx'', ''sys_setpgid'', ''sys_ulimit'', ''sys_uname'', ''sys_umask'', ''sys_chroot'',
      ''sys_ustat'', ''sys_dup2'', ''sys_getppid'', ''sys_getpgrp'', ''sys_setsid'',
      ''sys_sigaction'', ''sys_sgetmask'', ''sys_ssetmask'', ''sys_setreuid'', ''sys_setregid'',
      ''sys_sigpending'', ''sys_sigsuspend'', ''sys_sethostname'', ''sys_setrlimit'',
      ''sys_getrlimit'', ''sys_getrusage'', ''sys_gettimeofday'', ''sys_settimeofday'',
      ''sys_getgroups'', ''sys_setgroups'', ''sys_select'', ''sys_symlink'', ''sys_lstat'',
      ''sys_readlink'', ''sys_uselib'']"

definition sys_stub :: "string \<Rightarrow> u32 option" where
  "sys_stub f = (if f \<in> set stubs then Some 0 else None)"

section \<open>\<^verbatim>\<open>system_call\<close>\<close>

text \<open>
  The call through the table is not guarded: the comparison with \<^verbatim>\<open>NR_syscalls\<close> is commented out.  The
  functions that are not stubs are a parameter \<open>h\<close>, as the components that define them keep states
  of their own; they get the three registers the entry pushes.
\<close>

definition sys_function :: "u32 \<Rightarrow> string kres" where
  "sys_function eax =
     (if unat eax < NR_syscalls then Inr (sys_call_table ! unat eax) else Inl (Out_of_bounds ''sys_call_table''))"

type_synonym 's handler = "string \<Rightarrow> u32 \<times> u32 \<times> u32 \<Rightarrow> 's \<Rightarrow> u32 \<times> 's"

definition call_table :: "'s handler \<Rightarrow> u32 \<Rightarrow> u32 \<times> u32 \<times> u32 \<Rightarrow> 's \<Rightarrow> (u32 \<times> 's) kres" where
  "call_table h eax args s =
     (case sys_function eax of
        Inl e \<Rightarrow> Inl e
      | Inr f \<Rightarrow> Inr (case sys_stub f of Some v \<Rightarrow> (v, s) | None \<Rightarrow> h f args s))"

text \<open>Behind the call: whether the task is to be rescheduled.\<close>

definition needs_reschedule :: "task_struct \<Rightarrow> bool" where
  "needs_reschedule t \<longleftrightarrow> ts_state t \<noteq> 0 \<or> ts_counter t = 0"

text \<open>
  \<^verbatim>\<open>ret_from_sys_call\<close>: for a task other than \<^verbatim>\<open>task[0]\<close> that returns to user mode, \<^verbatim>\<open>bsfl\<close> finds the lowest
  pending signal that is not blocked and \<^verbatim>\<open>btrl\<close> clears it; the call of \<^verbatim>\<open>do_signal\<close> is commented out.
\<close>

definition bsf :: "u32 \<Rightarrow> nat option" where
  "bsf w = find (bit w) [0..<32]"

definition ret_from_sys_call :: "bool \<Rightarrow> u16 \<Rightarrow> u16 \<Rightarrow> task_struct \<Rightarrow> task_struct" where
  "ret_from_sys_call is_task0 cs oldss t =
     (if is_task0 \<or> cs \<noteq> 0x0f \<or> oldss \<noteq> 0x17 then t
      else
        (case bsf (NOT (ts_blocked t) AND ts_signal t) of
           None \<Rightarrow> t
         | Some n \<Rightarrow> t\<lparr>ts_signal := unset_bit n (ts_signal t)\<rparr>))"

section \<open>The wrappers\<close>

text \<open>The end of \<^verbatim>\<open>_syscall0\<close> to \<^verbatim>\<open>_syscall3\<close>: the value returned and \<^verbatim>\<open>errno\<close>.\<close>

definition syscall_result :: "u32 \<Rightarrow> u32 \<Rightarrow> u32 \<times> u32" where
  "syscall_result res errno = (if 0 \<le> sint res then (res, errno) else (- 1, - res))"

text \<open>
  A wrapper loads the number of the call and its arguments into the registers; a register that it
  does not load has the value \<open>r\<close> gives for it.
\<close>

definition syscall_with :: "'s handler \<Rightarrow> string \<Rightarrow> u32 \<times> u32 \<times> u32 \<Rightarrow> 's \<Rightarrow> u32 \<Rightarrow> (u32 \<times> u32 \<times> 's) kres option" where
  "syscall_with h name args s errno =
     map_option
       (\<lambda>nr. case call_table h (of_nat nr) args s of
               Inl e \<Rightarrow> Inl e
             | Inr (res, s) \<Rightarrow> let (v, errno) = syscall_result res errno in Inr (v, errno, s))
       (NR name)"

definition syscall0 :: "'s handler \<Rightarrow> u32 \<times> u32 \<times> u32 \<Rightarrow> string \<Rightarrow> 's \<Rightarrow> u32 \<Rightarrow> (u32 \<times> u32 \<times> 's) kres option" where
  "syscall0 h r name s errno = syscall_with h name r s errno"

definition syscall1 :: "'s handler \<Rightarrow> u32 \<times> u32 \<times> u32 \<Rightarrow> string \<Rightarrow> u32 \<Rightarrow> 's \<Rightarrow> u32 \<Rightarrow> (u32 \<times> u32 \<times> 's) kres option" where
  "syscall1 h r name a s errno = (case r of (ebx, ecx, edx) \<Rightarrow> syscall_with h name (a, ecx, edx) s errno)"

definition syscall2 :: "'s handler \<Rightarrow> u32 \<times> u32 \<times> u32 \<Rightarrow> string \<Rightarrow> u32 \<Rightarrow> u32 \<Rightarrow> 's \<Rightarrow> u32 \<Rightarrow> (u32 \<times> u32 \<times> 's) kres option" where
  "syscall2 h r name a b s errno = (case r of (ebx, ecx, edx) \<Rightarrow> syscall_with h name (a, b, edx) s errno)"

definition syscall3 :: "'s handler \<Rightarrow> string \<Rightarrow> u32 \<Rightarrow> u32 \<Rightarrow> u32 \<Rightarrow> 's \<Rightarrow> u32 \<Rightarrow> (u32 \<times> u32 \<times> 's) kres option" where
  "syscall3 h name a b c s errno = syscall_with h name (a, b, c) s errno"

section \<open>Table and numbers agree\<close>

lemma table_names: "sys_call_table = map (\<lambda>(n, k). ''sys_'' @ n) NR_table"
  by (simp add: sys_call_table_def NR_table_def)

lemma NR_syscalls_90: "NR_syscalls = 90"
  by (simp add: NR_syscalls_def sys_call_table_def)

lemma table_numbers: "map snd NR_table = [0..<NR_syscalls]"
  unfolding NR_syscalls_90 by (simp add: NR_table_def upt_conv_Cons)

lemma NR_table_nth:
  assumes "NR name = Some k"
  shows "k < NR_syscalls" and "sys_call_table ! k = ''sys_'' @ name"
proof -
  have "(name, k) \<in> set NR_table" using assms by (simp add: NR_def map_of_SomeD)
  then obtain i where i: "i < length NR_table" "NR_table ! i = (name, k)" by (auto simp: in_set_conv_nth)
  have len: "length NR_table = NR_syscalls" using arg_cong [OF table_numbers, of length] by simp
  have "snd (NR_table ! i) = i" using arg_cong [OF table_numbers, of "\<lambda>l. l ! i"] i(1) len by simp
  then have k: "k = i" using i(2) by simp
  then show "k < NR_syscalls" using i(1) len by simp
  show "sys_call_table ! k = ''sys_'' @ name" using i k by (simp add: table_names)
qed

lemma call_table_NR:
  assumes "NR name = Some k"
  shows "call_table h (of_nat k) args s =
    Inr (if ''sys_'' @ name \<in> set stubs then (0, s) else h (''sys_'' @ name) args s)"
proof -
  have k: "k < 90" using NR_table_nth(1) [OF assms] by (simp add: NR_syscalls_90)
  then have "unat (of_nat k :: u32) = k" by (simp add: unat_of_nat)
  then show ?thesis using NR_table_nth [OF assms] by (simp add: call_table_def sys_function_def sys_stub_def)
qed

text \<open>
  C38: the numbers of \<^verbatim>\<open>unistd.h\<close> and the table of \<^verbatim>\<open>sys.h\<close> agree.  A wrapper of any arity for a call that has
  a number reaches the function \<^verbatim>\<open>sys_\<close> of that name with the arguments in order: one of the calls
  of \<^verbatim>\<open>traps.c\<close> gives 0 and changes nothing; of another the value is returned when it is not
  negative, and otherwise \<^verbatim>\<open>-1\<close> with its negation in \<^verbatim>\<open>errno\<close>.
\<close>

theorem syscall_dispatch:
  assumes "NR name = Some k"
    and f: "\<And>args. f args = (if ''sys_'' @ name \<in> set stubs then (0, s) else h (''sys_'' @ name) args s)"
    and w: "\<And>args. w args = Some (Inr (case f args of (res, s') \<Rightarrow>
      if 0 \<le> sint res then (res, errno, s') else (- 1, - res, s')))"
  shows "syscall0 h (ebx, ecx, edx) name s errno = w (ebx, ecx, edx) \<and>
    syscall1 h (ebx, ecx, edx) name a s errno = w (a, ecx, edx) \<and>
    syscall2 h (ebx, ecx, edx) name a b s errno = w (a, b, edx) \<and>
    syscall3 h name a b c s errno = w (a, b, c)"
proof -
  have "syscall_with h name args s errno = w args" for args
    unfolding syscall_with_def w f assms(1) option.map call_table_NR [OF assms(1)]
    by (simp add: syscall_result_def case_prod_beta)
  then show ?thesis by (simp add: syscall0_def syscall1_def syscall2_def syscall3_def)
qed

theorem syscall_dispatch_witness:
  "syscall1 (\<lambda>f args n. (- 11, Suc n)) (0, 0, 0) ''klock'' 3 (0 :: nat) 0 = Some (Inr (- 1, 11, Suc 0)) \<and>
   syscall0 (\<lambda>f args n. (- 11, Suc n)) (0, 0, 0) ''getpid'' (0 :: nat) 7 = Some (Inr (0, 7, 0))"
proof -
  have n: "NR ''klock'' = Some 87" "NR ''getpid'' = Some 20" by (simp_all add: NR_def NR_table_def)
  have s: "''sys_klock'' \<notin> set stubs" "''sys_getpid'' \<in> set stubs" by (simp_all add: stubs_def)
  note d = syscall_dispatch [OF _ refl refl, where ebx = 0 and ecx = 0 and edx = 0 and b = 0 and c = 0]
  show ?thesis using d [OF n(1), of "\<lambda>f args n. (- 11, Suc n)" 0 0 3] d [OF n(2), of "\<lambda>f args n. (- 11, Suc n)" 0 7 0] s by simp
qed

end
