(* ===== verification/Entry_Code.thy ===== *)
theory Entry_Code
  imports LogBuffer Syscalls HardDisk Fork
begin

text \<open>
  The entries from interrupts, faults and \<^verbatim>\<open>int 0x80\<close>: \<^verbatim>\<open>system_call\<close>, \<^verbatim>\<open>timer_interrupt\<close> and \<^verbatim>\<open>sys_fork\<close> of
  \<^verbatim>\<open>kernel/sys_call.s\<close>, \<^verbatim>\<open>page_fault\<close> of \<^verbatim>\<open>mm/page.asm\<close> and \<^verbatim>\<open>hd_interrupt\<close> of \<^verbatim>\<open>kernel/idt.asm\<close>.

  An entry is a list of instructions on the registers and the kernel stack, the list of its words
  from the top.  The work between the instructions that save and restore registers is a step
  \<open>Run\<close> on the registers, the stack and the kernel, \<^const>\<open>None\<close> when it does not come back.  A function of C
  finds its arguments on the stack, returns in \<^verbatim>\<open>eax\<close> and leaves anything in \<^verbatim>\<open>ecx\<close> and \<^verbatim>\<open>edx\<close>; it
  keeps the other registers and its argument words.
\<close>

section \<open>Instructions\<close>

datatype reg = EAX | EBX | ECX | EDX | ESI | EDI | EBP | DS | ES | FS | GS

type_synonym regs = "reg \<Rightarrow> u32"

definition seg_reg :: "reg \<Rightarrow> bool" where
  "seg_reg r \<longleftrightarrow> r \<in> {DS, ES, FS, GS}"

definition set_reg :: "reg \<Rightarrow> u32 \<Rightarrow> regs \<Rightarrow> regs" where
  "set_reg r v g = g(r := if seg_reg r then v AND 0xffff else v)"

datatype 's instr =
    Push reg
  | Push_const u32
  | Pop reg
  | Mov_const reg u32
  | Mov reg reg
  | Xchg_esp reg
  | Add_esp nat
  | Run "regs \<Rightarrow> u32 list \<Rightarrow> 's \<Rightarrow> (regs \<times> 's) option"

type_synonym 's mcontext = "regs \<times> u32 list \<times> 's"

fun exec1 :: "'s instr \<Rightarrow> 's mcontext \<Rightarrow> 's mcontext option" where
  "exec1 (Push r) (g, st, s) = Some (g, g r # st, s)"
| "exec1 (Push_const v) (g, st, s) = Some (g, v # st, s)"
| "exec1 (Pop r) (g, st, s) = (case st of [] \<Rightarrow> None | v # st \<Rightarrow> Some (set_reg r v g, st, s))"
| "exec1 (Mov_const r v) (g, st, s) = Some (set_reg r v g, st, s)"
| "exec1 (Mov d r) (g, st, s) = Some (set_reg d (g r) g, st, s)"
| "exec1 (Xchg_esp r) (g, st, s) = (case st of [] \<Rightarrow> None | v # st \<Rightarrow> Some (g(r := v), g r # st, s))"
| "exec1 (Add_esp n) (g, st, s) = (if n \<le> length st then Some (g, drop n st, s) else None)"
| "exec1 (Run f) (g, st, s) = (case f g st s of None \<Rightarrow> None | Some (g, s) \<Rightarrow> Some (g, st, s))"

primrec exec :: "'s instr list \<Rightarrow> 's mcontext \<Rightarrow> 's mcontext option" where
  "exec [] c = Some c"
| "exec (i # is) c = (case exec1 i c of None \<Rightarrow> None | Some c \<Rightarrow> exec is c)"

text \<open>What a call of C leaves in the registers.\<close>

definition c_return :: "u32 \<Rightarrow> regs \<Rightarrow> regs \<Rightarrow> regs" where
  "c_return v junk g = g(EAX := v, ECX := junk ECX, EDX := junk EDX)"

section \<open>The entries\<close>

text \<open>\<^verbatim>\<open>page_fault\<close>: the processor has put the error code on top of the frame; \<^verbatim>\<open>cr2\<close> is the address.\<close>

definition page_fault :: "regs \<Rightarrow> u32 \<Rightarrow> mm instr list" where
  "page_fault junk cr2 =
     [Xchg_esp EAX, Push ECX, Push EDX, Push DS, Push ES, Push FS,
      Mov_const EDX 0x10, Mov DS EDX, Mov ES EDX, Mov FS EDX,
      Mov_const EDX cr2, Push EDX, Push EAX,
      Run (\<lambda>g st m. Some (c_return (junk EAX) junk g, do_wp_page (st ! 0) (st ! 1) m)),
      Add_esp 2, Pop FS, Pop ES, Pop DS, Pop EDX, Pop ECX, Pop EAX]"

text \<open>\<^verbatim>\<open>hd_interrupt\<close> around the work modelled in \<^verbatim>\<open>HardDisk\<close>.\<close>

definition hd_entry :: "regs \<Rightarrow> (u16 \<Rightarrow> u8) \<Rightarrow> (u16 \<Rightarrow> nat \<Rightarrow> u16) \<Rightarrow> hdstate instr list" where
  "hd_entry junk inb inw =
     [Push EAX, Push ECX, Push EDX, Push DS, Push ES, Push FS,
      Mov_const EAX 0x10, Mov DS EAX, Mov ES EAX, Mov_const EAX 0x17, Mov FS EAX,
      Run (\<lambda>g st h. case hd_interrupt inb inw h of Inl e \<Rightarrow> None | Inr h \<Rightarrow> Some (c_return (junk EAX) junk g, h)),
      Pop FS, Pop ES, Pop DS, Pop EDX, Pop ECX, Pop EAX]"

text \<open>
  The state of the entries of \<^verbatim>\<open>kernel/sys_call.s\<close>.  When \<^verbatim>\<open>schedule\<close> switches to another task, the call
  returns when the task that made it is resumed, in the state \<open>away\<close> makes of the one at the switch.
\<close>

record esys =
  ek :: kernel
  elog :: logbuf

definition upd_sched :: "sched \<Rightarrow> esys \<Rightarrow> esys" where
  "upd_sched s e = e\<lparr>ek := (ek e)\<lparr>ksched := s\<rparr>\<rparr>"

definition call_schedule :: "(esys \<Rightarrow> esys) \<Rightarrow> esys \<Rightarrow> esys option" where
  "call_schedule away e =
     (case schedule (ksched (ek e)) of
        Some (Inr s) \<Rightarrow> Some (if current s = current (ksched (ek e)) then upd_sched s e else away (upd_sched s e))
      | _ \<Rightarrow> None)"

text \<open>\<^verbatim>\<open>ret_from_sys_call\<close> reads \<^verbatim>\<open>CS\<close> and \<^verbatim>\<open>OLDSS\<close> at their offsets in the frame and leaves \<^verbatim>\<open>eax\<close>, \<^verbatim>\<open>ebx\<close> and \<^verbatim>\<open>ecx\<close> changed.\<close>

definition drop_signal :: "u32 \<Rightarrow> u32 \<Rightarrow> esys \<Rightarrow> esys" where
  "drop_signal cs oldss e =
     (let s = ksched (ek e); p = current s
      in upd_sched (s\<lparr>tasks := (tasks s)(p := ret_from_sys_call (p = task s 0) (ucast cs) (ucast oldss) (tasks s p))\<rparr>) e)"

definition ret_signals :: "regs \<Rightarrow> regs \<Rightarrow> u32 list \<Rightarrow> esys \<Rightarrow> (regs \<times> esys) option" where
  "ret_signals junk g st e =
     (let p = current (ksched (ek e)); oldss = (if 12 < length st then st ! 12 else 0)
      in Some (g(EAX := p, EBX := junk EBX, ECX := junk ECX), drop_signal (st ! 9) oldss e))"

definition ret_code :: "regs \<Rightarrow> esys instr list" where
  "ret_code junk =
     [Run (ret_signals junk), Pop EAX, Pop EBX, Pop ECX, Pop EDX, Add_esp 1, Pop FS, Pop ES, Pop DS]"

definition timer_interrupt :: "regs \<Rightarrow> (esys \<Rightarrow> esys) \<Rightarrow> nat \<Rightarrow> esys instr list" where
  "timer_interrupt junk away room =
     [Push DS, Push ES, Push FS, Push_const (- 1), Push EDX, Push ECX, Push EBX, Push EAX,
      Mov_const EAX 0x10, Mov DS EAX, Mov ES EAX, Mov_const EAX 0x17, Mov FS EAX,
      Run (\<lambda>g st e. let s = ksched (ek e) in Some (g, upd_sched (s\<lparr>jiffies := jiffies s + 1\<rparr>) e)),
      Run (\<lambda>g st e. Some (g(EAX := junk EAX, EDX := junk EDX),
                          e\<lparr>elog := sync_log_buf_2 room (ucast (drop_bit 8 (g EAX))) (elog e)\<rparr>)),
      Run (\<lambda>g st e. Some (g(EAX := (g EAX AND NOT 0xff) OR 0x20),
                          e\<lparr>ek := (ek e)\<lparr>kcpu := outb 0x20 0x20 (kcpu (ek e))\<rparr>\<rparr>)),
      Run (\<lambda>g st e. Some (g(EAX := st ! 9 AND 3), e)),
      Push EAX,
      Run (\<lambda>g st e. map_option (Pair (c_return (junk EAX) junk g)) (call_schedule away e)),
      Add_esp 1] @ ret_code junk"

text \<open>\<^verbatim>\<open>system_call\<close>; \<open>call\<close> is the function of the table, which finds the address to return to on the stack.\<close>

definition system_call ::
  "regs \<Rightarrow> (esys \<Rightarrow> esys) \<Rightarrow> u32 \<Rightarrow> (u32 \<Rightarrow> regs \<Rightarrow> u32 list \<Rightarrow> esys \<Rightarrow> (regs \<times> esys) option) \<Rightarrow> esys instr list" where
  "system_call junk away ret call =
     [Push DS, Push ES, Push FS, Push EAX, Push EDX, Push ECX, Push EBX,
      Mov_const EDX 0x10, Mov DS EDX, Mov ES EDX, Mov_const EDX 0x17, Mov FS EDX,
      Push_const ret, Run (\<lambda>g. call (g EAX) g), Add_esp 1,
      Push EAX,
      Run (\<lambda>g st e.
        let s = ksched (ek e)
        in if needs_reschedule (tasks s (current s))
           then map_option (Pair (c_return (junk EAX) junk g)) (call_schedule away e)
           else Some (g(EAX := current s), e))] @ ret_code junk"

text \<open>\<^verbatim>\<open>sys_fork\<close>: the arguments of \<^verbatim>\<open>copy_process\<close> are the words from the top of the stack on.\<close>

definition frame_of :: "u32 list \<Rightarrow> syscall_frame" where
  "frame_of st =
     \<lparr>r_ebp = st ! 1, r_edi = st ! 2, r_esi = st ! 3, r_gs = st ! 4, r_none = st ! 5,
      r_ebx = st ! 6, r_ecx = st ! 7, r_edx = st ! 8, r_orig_eax = st ! 9,
      r_fs = st ! 10, r_es = st ! 11, r_ds = st ! 12,
      r_eip = st ! 13, r_cs = st ! 14, r_eflags = st ! 15, r_esp = st ! 16, r_ss = st ! 17\<rparr>"

definition fork_code :: "regs \<Rightarrow> esys instr list" where
  "fork_code junk =
     [Push GS, Push ESI, Push EDI, Push EBP, Push EAX,
      Run (\<lambda>g st e.
        case copy_process (unat (st ! 0)) (frame_of st) (ek e) of
          Inl x \<Rightarrow> None
        | Inr (v, k) \<Rightarrow> Some (c_return v junk g, e\<lparr>ek := k\<rparr>)),
      Add_esp 5]"

definition sys_fork_entry :: "regs \<Rightarrow> regs \<Rightarrow> u32 list \<Rightarrow> esys \<Rightarrow> (regs \<times> esys) option" where
  "sys_fork_entry junk g st e =
     (case find_empty_process (ek e) of
        None \<Rightarrow> None
      | Some (nr, k) \<Rightarrow>
          let g = c_return nr junk g; e = e\<lparr>ek := k\<rparr>
          in if sint nr < 0 then Some (g, e)
             else map_option (\<lambda>(g, st, e). (g, e)) (exec (fork_code junk) (g, st, e)))"

text \<open>The call through the table; \<open>h\<close> stands for the functions that are neither \<^verbatim>\<open>sys_fork\<close> nor a stub.\<close>

definition table_call ::
  "regs \<Rightarrow> (string \<Rightarrow> regs \<Rightarrow> u32 list \<Rightarrow> esys \<Rightarrow> (regs \<times> esys) option) \<Rightarrow>
   u32 \<Rightarrow> regs \<Rightarrow> u32 list \<Rightarrow> esys \<Rightarrow> (regs \<times> esys) option" where
  "table_call junk h nr g st e =
     (case sys_function nr of
        Inl x \<Rightarrow> None
      | Inr f \<Rightarrow>
          if f = ''sys_fork'' then sys_fork_entry junk g st e
          else (case sys_stub f of Some v \<Rightarrow> Some (c_return v junk g, e) | None \<Rightarrow> h f g st e))"

section \<open>Registers and frame\<close>

definition segs_ok :: "regs \<Rightarrow> bool" where
  "segs_ok g \<longleftrightarrow> g DS AND 0xffff = g DS \<and> g ES AND 0xffff = g ES \<and> g FS AND 0xffff = g FS"

lemma set_reg_simps [simp]:
  "set_reg EAX v g = g(EAX := v)" "set_reg EBX v g = g(EBX := v)" "set_reg ECX v g = g(ECX := v)" "set_reg EDX v g = g(EDX := v)"
  "set_reg DS v g = g(DS := v AND 0xffff)" "set_reg ES v g = g(ES := v AND 0xffff)" "set_reg FS v g = g(FS := v AND 0xffff)"
  by (simp_all add: set_reg_def seg_reg_def)

lemma page_fault_exec:
  "segs_ok g \<Longrightarrow> exec (page_fault junk cr2) (g, err # frame, m) = Some (g, frame, do_wp_page err cr2 m)"
  by (simp add: page_fault_def c_return_def segs_ok_def fun_eq_iff)

lemma hd_entry_exec:
  "segs_ok g \<Longrightarrow> exec (hd_entry junk inb inw) (g, frame, h) =
     (case hd_interrupt inb inw h of Inl x \<Rightarrow> None | Inr h' \<Rightarrow> Some (g, frame, h'))"
  by (cases "hd_interrupt inb inw h") (simp_all add: hd_entry_def c_return_def segs_ok_def fun_eq_iff)

lemma ret_code_exec:
  "f AND 0xffff = f \<Longrightarrow> x AND 0xffff = x \<Longrightarrow> d AND 0xffff = d \<Longrightarrow>
   exec (ret_code junk) (g, a # b # c # dd # og # f # x # d # eip # cs # fl # rest, e) =
     Some (g(EAX := a, EBX := b, ECX := c, EDX := dd, FS := f, ES := x, DS := d), eip # cs # fl # rest,
       drop_signal cs (if 1 < length rest then rest ! 1 else 0) e)"
  by (simp add: ret_code_def ret_signals_def Let_def fun_eq_iff)

lemma exec_append: "exec (is @ js) c = (case exec is c of None \<Rightarrow> None | Some c \<Rightarrow> exec js c)"
  by (induction "is" arbitrary: c) (simp_all split: option.splits)

text \<open>The state in which the timer interrupt calls \<^verbatim>\<open>do_timer\<close>.\<close>

definition timer_state :: "nat \<Rightarrow> esys \<Rightarrow> esys" where
  "timer_state room e =
     (let s = ksched (ek e)
      in e\<lparr>ek := (ek e)\<lparr>ksched := s\<lparr>jiffies := jiffies s + 1\<rparr>, kcpu := outb 0x20 0x20 (kcpu (ek e))\<rparr>,
           elog := sync_log_buf_2 room 0 (elog e)\<rparr>)"

lemma timer_exec:
  assumes "segs_ok g"
  shows "exec (timer_interrupt junk away room) (g, eip # cs # fl # rest, e) =
    map_option (\<lambda>e. (g, eip # cs # fl # rest, drop_signal cs (if 1 < length rest then rest ! 1 else 0) e))
      (call_schedule away (timer_state room e))"
proof -
  note seg = assms [unfolded segs_ok_def]
  have st: "timer_state room e =
      e\<lparr>elog := sync_log_buf_2 room 0 (elog e),
        ek := (ek e)\<lparr>ksched := (ksched (ek e))\<lparr>jiffies := jiffies (ksched (ek e)) + 1\<rparr>,
                      kcpu := outb 0x20 0x20 (kcpu (ek e))\<rparr>\<rparr>"
    by (simp add: timer_state_def Let_def)
  show ?thesis
    unfolding timer_interrupt_def exec_append st
    by (cases "call_schedule away (timer_state room e)")
      (simp_all add: Let_def upd_sched_def ret_code_exec seg c_return_def fun_eq_iff st)
qed

text \<open>The call through the gate \<^verbatim>\<open>0x80\<close>, up to the return of the function and from there on.\<close>

definition syscall_stack :: "regs \<Rightarrow> u32 list \<Rightarrow> u32 list" where
  "syscall_stack g frame = g EBX # g ECX # g EDX # g EAX # g FS # g ES # g DS # frame"

definition kernel_regs :: "regs \<Rightarrow> regs" where
  "kernel_regs g = g(EDX := 0x17, DS := 0x10, ES := 0x10, FS := 0x17)"

definition after_call :: "(esys \<Rightarrow> esys) \<Rightarrow> esys \<Rightarrow> esys option" where
  "after_call away e =
     (if needs_reschedule (tasks (ksched (ek e)) (current (ksched (ek e)))) then call_schedule away e else Some e)"

lemma system_call_exec:
  assumes "segs_ok g" and "call (g EAX) (kernel_regs g) (ret # syscall_stack g (eip # cs # fl # rest)) e = Some (g', e')"
    and "\<forall>r \<in> {EBX, ESI, EDI, EBP, GS}. g' r = g r"
  shows "exec (system_call junk away ret call) (g, eip # cs # fl # rest, e) =
    map_option (\<lambda>e. (g(EAX := g' EAX), eip # cs # fl # rest, drop_signal cs (if 1 < length rest then rest ! 1 else 0) e))
      (after_call away e')"
proof -
  note seg = assms(1) [unfolded segs_ok_def]
  have call: "call (g EAX) (g(DS := 0x10, ES := 0x10, EDX := 0x17, FS := 0x17)) (ret # syscall_stack g (eip # cs # fl # rest)) e = Some (g', e')"
    using assms(2) by (simp add: kernel_regs_def fun_upd_twist)
  have keep: "(g'' :: regs) = g(EAX := g' EAX)"
    if "g'' EAX = g' EAX" "\<forall>r \<in> {EBX, ECX, EDX, DS, ES, FS}. g'' r = g r" "\<forall>r \<in> {ESI, EDI, EBP, GS}. g'' r = g' r" for g''
  proof
    fix r show "g'' r = (g(EAX := g' EAX)) r" using that assms(3) by (cases r) simp_all
  qed
  show ?thesis
    unfolding system_call_def exec_append
    by (cases "call_schedule away e'")
      (auto simp: call [unfolded syscall_stack_def] after_call_def Let_def seg c_return_def ret_code_exec intro!: keep)
qed

section \<open>\<^verbatim>\<open>fork\<close> through the gate\<close>

text \<open>The registers of the user as the arguments of \<^verbatim>\<open>copy_process\<close>.\<close>

definition user_frame :: "regs \<Rightarrow> u32 \<Rightarrow> u32 \<Rightarrow> u32 \<Rightarrow> u32 \<Rightarrow> u32 \<Rightarrow> u32 \<Rightarrow> syscall_frame" where
  "user_frame g ret eip cs fl esp ss =
     \<lparr>r_ebp = g EBP, r_edi = g EDI, r_esi = g ESI, r_gs = g GS, r_none = ret, r_ebx = g EBX, r_ecx = g ECX,
      r_edx = g EDX, r_orig_eax = g EAX, r_fs = g FS, r_es = g ES, r_ds = g DS, r_eip = eip, r_cs = cs,
      r_eflags = fl, r_esp = esp, r_ss = ss\<rparr>"

lemma sys_fork_entry_eq:
  "sys_fork_entry junk (kernel_regs g) (ret # syscall_stack g (eip # cs # fl # esp # ss # rest)) e =
     (case sys_fork (user_frame g ret eip cs fl esp ss) (ek e) of
        Some (Inr (v, k)) \<Rightarrow> Some (c_return v junk (kernel_regs g), e\<lparr>ek := k\<rparr>)
      | _ \<Rightarrow> None)"
proof -
  have "frame_of (nr # g EBP # g EDI # g ESI # g GS # ret # syscall_stack g (eip # cs # fl # esp # ss # rest)) =
      user_frame g ret eip cs fl esp ss" for nr
    by (simp add: frame_of_def user_frame_def syscall_stack_def)
  then show ?thesis
    by (auto simp: sys_fork_entry_def sys_fork_def fork_code_def c_return_def kernel_regs_def fun_eq_iff
        split: option.splits sum.splits)
qed

text \<open>What a task loads from its TSS when it is first given the processor.\<close>

definition child_resumes :: "regs \<Rightarrow> u32 \<Rightarrow> u32 \<Rightarrow> u32 \<Rightarrow> u32 \<Rightarrow> u32 \<Rightarrow> tss_struct \<Rightarrow> bool" where
  "child_resumes g eip cs fl esp ss t \<longleftrightarrow>
     tss_eax t = 0 \<and> tss_ebx t = g EBX \<and> tss_ecx t = g ECX \<and> tss_edx t = g EDX \<and>
     tss_esi t = g ESI \<and> tss_edi t = g EDI \<and> tss_ebp t = g EBP \<and>
     tss_ds t = g DS \<and> tss_es t = g ES \<and> tss_fs t = g FS \<and> tss_gs t = g GS AND 0xffff \<and>
     tss_eip t = eip \<and> tss_cs t = cs AND 0xffff \<and> tss_eflags t = fl \<and> tss_esp t = esp \<and> tss_ss t = ss AND 0xffff"

lemma fork_number: "sys_function 2 = Inr ''sys_fork''"
  by (simp add: sys_function_def NR_syscalls_90) (simp add: sys_call_table_def)

text \<open>
  C8: \<^verbatim>\<open>int 0x80\<close> with 2 in \<^verbatim>\<open>eax\<close> returns twice.  From the user's registers and the frame of the gate the
  entry reaches \<^verbatim>\<open>copy_process\<close> with every register in its argument: the caller goes on behind the
  instruction with all its registers and its stack, the new identifier in \<^verbatim>\<open>eax\<close>, and the TSS of the new task
  holds the same registers, instruction and stack with 0 in \<^verbatim>\<open>eax\<close>.
\<close>

theorem fork_returns_twice:
  assumes "segs_ok g" and "g EAX = 2" and "find_empty_process (ek e) = Some (of_nat nr, k)" and "nr < NR_TASKS"
    and "fork_ready nr k" and "\<not> needs_reschedule (task_at k (current (ksched k)))"
  shows "\<exists>k'. exec (system_call junk away ret (table_call junk h)) (g, eip # cs # fl # esp # ss # rest, e) =
      Some (g(EAX := last_pid k), eip # cs # fl # esp # ss # rest, drop_signal cs ss (e\<lparr>ek := k'\<rparr>)) \<and>
    task (ksched k') nr = fst (get_free_page (kmm k)) \<and>
    child_resumes g eip cs fl esp ss (ts_tss (task_at k' (task (ksched k') nr)))"
proof -
  let ?r = "user_frame g ret eip cs fl esp ss"
  obtain k' where k': "copy_process nr ?r k = Inr (last_pid k, k')"
      "task (ksched k') = (task (ksched k))(nr := fst (get_free_page (kmm k)))"
      "current (ksched k') = current (ksched k)" "task_at k' = forked_tasks nr ?r k"
    using fork_entry_tables [OF assms(5)] copy_process_eq [OF assms(5)] by metis
  have nr: "unat (of_nat nr :: u32) = nr" "\<not> sint (of_nat nr :: u32) < 0"
    using assms(4) sint_of_nat_small [of nr] by (simp_all add: unat_of_nat)
  have fork: "sys_fork ?r (ek e) = Some (Inr (last_pid k, k'))" using assms(3) nr k'(1) by (simp add: sys_fork_def)
  have call: "table_call junk h (g EAX) (kernel_regs g) (ret # syscall_stack g (eip # cs # fl # esp # ss # rest)) e =
      Some (c_return (last_pid k) junk (kernel_regs g), e\<lparr>ek := k'\<rparr>)"
    by (simp add: table_call_def assms(2) fork_number sys_fork_entry_eq fork)
  have "tasks (ksched k') (current (ksched k')) =
      (task_at k (current (ksched k)))\<lparr>ts_p_cptr := fst (get_free_page (kmm k))\<rparr>"
    unfolding task_at_def [symmetric] k'(3,4) by (rule forked_parent [OF assms(5)])
  then have run: "after_call away (e\<lparr>ek := k'\<rparr>) = Some (e\<lparr>ek := k'\<rparr>)"
    using assms(6) by (simp add: after_call_def needs_reschedule_def)
  have "exec (system_call junk away ret (table_call junk h)) (g, eip # cs # fl # esp # ss # rest, e) =
      Some (g(EAX := last_pid k), eip # cs # fl # esp # ss # rest, drop_signal cs ss (e\<lparr>ek := k'\<rparr>))"
    using system_call_exec [where call = "table_call junk h", OF assms(1) call, of junk away] by (simp add: run c_return_def kernel_regs_def)
  moreover have "child_resumes g eip cs fl esp ss (ts_tss (task_at k' (fst (get_free_page (kmm k)))))"
    using assms(1) by (simp add: k'(4) forked_tasks_child forked_child_def child_task_def child_tss_def
        child_resumes_def user_frame_def segs_ok_def Let_def)
  ultimately show ?thesis using k'(2) by (intro exI [of _ k']) simp
qed

definition example_regs :: regs where
  "example_regs = (\<lambda>r. if seg_reg r then 0x17 else 0)(EAX := 2, EBX := 5)"

definition example_esys :: esys where
  "example_esys = \<lparr>ek = boot_kernel\<lparr>last_pid := 0\<rparr>, elog = lb_fresh\<rparr>"

lemma example_segs: "segs_ok example_regs"
  by (simp add: segs_ok_def example_regs_def seg_reg_def)

theorem fork_returns_twice_witness:
  "\<exists>k'. exec (system_call example_regs id 0x6300 (table_call example_regs (\<lambda>_ _ _ _. None)))
       (example_regs, [0x6800, 0x0f, 0x202, 0x27000, 0x17], example_esys) =
     Some (example_regs(EAX := 1), [0x6800, 0x0f, 0x202, 0x27000, 0x17], drop_signal 0x0f 0x17 (example_esys\<lparr>ek := k'\<rparr>)) \<and>
     child_resumes example_regs 0x6800 0x0f 0x202 0x27000 0x17 (ts_tss (task_at k' (task (ksched k') 1)))"
  using fork_returns_twice [of example_regs example_esys 1 boot_kernel example_regs id "0x6300" "\<lambda>_ _ _ _. None" "0x6800" "0x0f" "0x202" "0x27000" "0x17" "[]"]
    example_segs boot_find_empty boot_fork_ready
  by (auto simp: example_esys_def example_regs_def boot_kernel_simps needs_reschedule_def INIT_TASK_def)

section \<open>Returning from an entry\<close>

text \<open>
  C14: the entries give back what they interrupted.  Whatever the functions of C leave in the
  registers that they may change, \<^verbatim>\<open>page_fault\<close>, \<^verbatim>\<open>hd_interrupt\<close> and \<^verbatim>\<open>timer_interrupt\<close> return with all
  registers as they were and the frame on top of the stack, and \<^verbatim>\<open>system_call\<close> with all but \<^verbatim>\<open>eax\<close>, which
  has the result.  A page fault runs \<^verbatim>\<open>do_wp_page\<close> on the error code and the address of the fault, the disk
  interrupt the driver, and the timer interrupt counts, empties the log buffer, acknowledges the
  interrupt and calls the scheduler.
\<close>

theorem entries_restore:
  assumes "segs_ok g"
  shows "exec (page_fault junk cr2) (g, err # frame, m) = Some (g, frame, do_wp_page err cr2 m) \<and>
    exec (hd_entry junk inb inw) (g, frame, h) =
      (case hd_interrupt inb inw h of Inl x \<Rightarrow> None | Inr h' \<Rightarrow> Some (g, frame, h')) \<and>
    exec (timer_interrupt junk away room) (g, eip # cs # fl # rest, e) =
      map_option (\<lambda>e. (g, eip # cs # fl # rest, drop_signal cs (if 1 < length rest then rest ! 1 else 0) e))
        (call_schedule away (timer_state room e)) \<and>
    (\<forall>call ret g' e'.
       call (g EAX) (kernel_regs g) (ret # syscall_stack g (eip # cs # fl # rest)) e = Some (g', e') \<and>
       (\<forall>r \<in> {EBX, ESI, EDI, EBP, GS}. g' r = g r) \<longrightarrow>
       exec (system_call junk away ret call) (g, eip # cs # fl # rest, e) =
         map_option (\<lambda>e. (g(EAX := g' EAX), eip # cs # fl # rest, drop_signal cs (if 1 < length rest then rest ! 1 else 0) e))
           (after_call away e'))"
  using page_fault_exec [OF assms] hd_entry_exec [OF assms] timer_exec [OF assms] system_call_exec [OF assms]
  by (intro conjI allI impI) simp_all

theorem entries_restore_witness:
  "segs_ok example_regs \<and>
   exec (page_fault (\<lambda>_. 7) 0x4005000) (example_regs, [7, 0x6800, 0x0f, 0x202, 0x27000, 0x17], boot_mm) =
     Some (example_regs, [0x6800, 0x0f, 0x202, 0x27000, 0x17], do_wp_page 7 0x4005000 boot_mm)"
  using entries_restore [OF example_segs, of "\<lambda>_. 7" "0x4005000" 7 "[0x6800, 0x0f, 0x202, 0x27000, 0x17]" boot_mm] example_segs
  by simp

end
