(* ===== verification/User_Mode.thy ===== *)
theory User_Mode
  imports Kernel_Init Entry_Code
begin

text \<open>
  The move to user mode (\<^verbatim>\<open>move_to_user_mode\<close> of \<^verbatim>\<open>include/asm/system.h\<close>): the frame that the \<^verbatim>\<open>iret\<close> takes
  and the segment registers loaded behind it, and the descriptors that the selectors name once the
  kernel is initialised.
\<close>

record user_context =
  u_regs :: regs
  u_eip :: u32
  u_cs :: u32
  u_eflags :: u32
  u_esp :: u32
  u_ss :: u32

fun iret :: "regs \<Rightarrow> u32 list \<Rightarrow> user_context option" where
  "iret g (eip # cs # fl # esp # ss # rest) =
     Some \<lparr>u_regs = g, u_eip = eip, u_cs = cs AND 0xffff, u_eflags = fl, u_esp = esp, u_ss = ss AND 0xffff\<rparr>"
| "iret g _ = None"

definition move_to_user_mode :: "u32 \<Rightarrow> u32 \<Rightarrow> u32 \<Rightarrow> regs \<Rightarrow> user_context option" where
  "move_to_user_mode label flags esp g =
     (let g = g(EAX := esp)
      in case exec [Push_const 0x17, Push EAX, Push_const flags, Push_const 0x0f, Push_const label] (g, [], ()) of
           None \<Rightarrow> None
         | Some (g, st, _) \<Rightarrow>
             (case iret g st of
                None \<Rightarrow> None
              | Some u \<Rightarrow>
                  (case exec [Mov_const EAX 0x17, Mov DS EAX, Mov ES EAX, Mov FS EAX, Mov GS EAX] (u_regs u, [], ()) of
                     None \<Rightarrow> None
                   | Some (g, _, _) \<Rightarrow> Some (u\<lparr>u_regs := g\<rparr>))))"

text \<open>
  The descriptor of a selector: in the GDT, or in the LDT that the LDT register names, which is that
  of the process descriptor it lies in.
\<close>

definition loaded_ldt :: "kernel \<Rightarrow> nat \<Rightarrow> desc_struct" where
  "loaded_ldt k =
     (let d = gdt (kcpu k) (unat (drop_bit 3 (ldtr (kcpu k))))
      in ts_ldt (task_at k (get_base d - offsetof_task ''ldt'')))"

definition seg_of :: "kernel \<Rightarrow> u32 \<Rightarrow> desc_struct" where
  "seg_of k sel = (if bit sel 2 then loaded_ldt k else gdt (kcpu k)) (unat (drop_bit 3 sel))"

text \<open>A segment of user mode from 0 on: its access byte and its last address.\<close>

definition user_seg :: "kernel \<Rightarrow> u32 \<Rightarrow> u32 \<Rightarrow> u32 \<Rightarrow> bool" where
  "user_seg k sel access limit \<longleftrightarrow>
     sel AND 3 = 3 \<and> desc_access (seg_of k sel) = access \<and> get_base (seg_of k sel) = 0 \<and> lsl_limit (seg_of k sel) = limit"

lemma move_to_user_mode_eq:
  "move_to_user_mode label flags esp g =
     Some \<lparr>u_regs = g(EAX := 0x17, DS := 0x17, ES := 0x17, FS := 0x17, GS := 0x17), u_eip = label, u_cs = 0x0f,
           u_eflags = flags, u_esp = esp, u_ss = 0x17\<rparr>"
  by (simp add: move_to_user_mode_def set_reg_def seg_reg_def Let_def)

lemma kernel_start_tables:
  assumes start: "kernel_start a20 inb e m = Some m'"
  shows "ldtr (kcpu (mk m')) = 40" "tasks (ksched (mk m')) = tasks (ksched (mk m))"
    "gdt (kcpu (mk m')) 5 = set_tssldt_desc (init_task (ksched (mk m)) + offsetof_task ''ldt'') 0x82"
    "i < 4 \<Longrightarrow> gdt (kcpu (mk m')) i = boot_gdt i"
    "current (ksched (mk m')) = current (ksched (mk m))"
    "kmm (mk m') = mem_init MAIN_MEM_START MAIN_MEM_END (setup_paging (kmm (mk m)))"
    "gdt (kcpu (mk m')) 4 = set_tssldt_desc (init_task (ksched (mk m)) + offsetof_task ''tss'') 0x89"
    "init_task (ksched (mk m')) = init_task (ksched (mk m))" "mutex_lock (ksched (mk m')) = mutex_lock (ksched (mk m))"
    "waitq (ksched (mk m')) (WQ_mutex n) = waitq (ksched (mk m)) (WQ_mutex n)"
    "task (ksched (mk m')) = (\<lambda>i. if 1 \<le> i \<and> i < NR_TASKS then NULL else task (ksched (mk m)) i)"
proof -
  have assms: "kernel_start True inb e m = Some m'" using start kernel_start_a20 [OF start] by simp
  obtain b where b: "buffer_init BUF_MEM_END ((mcache m)\<lparr>bsched := ksched (mk m)\<rparr>) = Some b"
    using assms by (auto simp: kernel_start_def main_init_def startup_32_eq Let_def split: option.splits)
  obtain w where w: "bsched b = ksched (mk m)\<lparr>waitq := w\<rparr>" "\<And>n. w (WQ_mutex n) = waitq (ksched (mk m)) (WQ_mutex n)"
    using buffer_init_bsched [OF b] by (auto simp: buffer_queues_def)
  define c1 where "c1 = snd (init_serial inb ((kcpu (mk m))\<lparr>idt := setup_idt (e_ignore_int e) (idt (kcpu (mk m))), gdt := boot_gdt\<rparr>))"
  define c0 where "c0 = c1\<lparr>idt := trap_init (e_idt_ptrs e) (e_page_fault e) (idt c1)\<rparr>"
  obtain s c where sc: "sched_init (e_timer_interrupt e) (e_system_call e) (inb (io_out c0)) (bsched b, c0) = (s, c)"
    by fastforce
  have m': "ksched (mk m') = s" "kcpu (mk m') = hd_init (e_hd_interrupt e) (inb (io_out c)) c"
      "kmm (mk m') = mem_init MAIN_MEM_START MAIN_MEM_END (setup_paging (kmm (mk m)))"
    using kernel_start_eq [OF b c1_def c0_def sc] assms by auto
  have g: "gdt c0 = boot_gdt" by (simp add: c0_def c1_def init_serial_idt)
  have s: "tasks s = tasks (ksched (mk m))" "current s = current (ksched (mk m))" "ldtr c = 40"
    "gdt c = (\<lambda>k. if 6 \<le> k \<and> k < 132 then desc_null
       else (boot_gdt(4 := set_tssldt_desc (init_task (ksched (mk m)) + 0x3b0) 0x89,
                      5 := set_tssldt_desc (init_task (ksched (mk m)) + 0x398) 0x82)) k)"
    "init_task s = init_task (ksched (mk m))" "mutex_lock s = mutex_lock (ksched (mk m))"
    "waitq s (WQ_mutex n) = waitq (ksched (mk m)) (WQ_mutex n)"
    "task s = (\<lambda>i. if 1 \<le> i \<and> i < 64 then NULL else task (ksched (mk m)) i)" for n
    using sc w(2) unfolding sched_init_eq w(1) g by auto
  then show "ldtr (kcpu (mk m')) = 40" "tasks (ksched (mk m')) = tasks (ksched (mk m))"
    "gdt (kcpu (mk m')) 5 = set_tssldt_desc (init_task (ksched (mk m)) + offsetof_task ''ldt'') 0x82"
    "i < 4 \<Longrightarrow> gdt (kcpu (mk m')) i = boot_gdt i"
    "current (ksched (mk m')) = current (ksched (mk m))"
    "kmm (mk m') = mem_init MAIN_MEM_START MAIN_MEM_END (setup_paging (kmm (mk m)))"
    "gdt (kcpu (mk m')) 4 = set_tssldt_desc (init_task (ksched (mk m)) + offsetof_task ''tss'') 0x89"
    "init_task (ksched (mk m')) = init_task (ksched (mk m))" "mutex_lock (ksched (mk m')) = mutex_lock (ksched (mk m))"
    "waitq (ksched (mk m')) (WQ_mutex n) = waitq (ksched (mk m)) (WQ_mutex n)"
    "task (ksched (mk m')) = (\<lambda>i. if 1 \<le> i \<and> i < NR_TASKS then NULL else task (ksched (mk m)) i)"
    using m' by (simp_all add: hd_init_eq offsetof_task_ldt offsetof_task_tss)
qed

section \<open>Task 0 in user mode\<close>

text \<open>
  The rest of \<^verbatim>\<open>main\<close>, which task 0 and after the call of \<^verbatim>\<open>fork\<close> its child run in user mode, up to the loop at its
  end.  \<^verbatim>\<open>printm\<close> gets the format and the arguments.
\<close>

definition main_user ::
  "'s handler \<Rightarrow> (string \<Rightarrow> u32 list \<Rightarrow> 's \<Rightarrow> 's) \<Rightarrow> u32 \<times> u32 \<times> u32 \<Rightarrow> u32 \<Rightarrow> 's \<Rightarrow> 's kres option" where
  "main_user h printm r errno s =
     (let s = printm (''printk from user space'' @ [CHR 0x0A]) [] s
      in case syscall0 h r ''fork'' s errno of
           None \<Rightarrow> None
         | Some (Inl x) \<Rightarrow> Some (Inl x)
         | Some (Inr (pid, errno, s)) \<Rightarrow>
             let s = printm (''return from fork() pid = %d'' @ [CHR 0x0A]) [pid] s;
                 s = printm (''hello world'' @ [CHR 0x0A]) [] s
             in (case syscall0 h r ''kdebug'' s errno of
                   None \<Rightarrow> None
                 | Some (Inl x) \<Rightarrow> Some (Inl x)
                 | Some (Inr (res, errno, s)) \<Rightarrow> Some (Inr s)))"

text \<open>It reaches \<^verbatim>\<open>sys_fork\<close> and \<^verbatim>\<open>sys_kdebug\<close> once each and prints the result of the first, \<^verbatim>\<open>-1\<close> for an error.\<close>

lemma main_user_eq:
  "main_user h printm r errno s =
     (case h ''sys_fork'' r (printm (''printk from user space'' @ [CHR 0x0A]) [] s) of (res, s) \<Rightarrow>
        Some (Inr (snd (h ''sys_kdebug'' r (printm (''hello world'' @ [CHR 0x0A]) []
          (printm (''return from fork() pid = %d'' @ [CHR 0x0A]) [if 0 \<le> sint res then res else - 1] s))))))"
proof -
  have n: "NR ''fork'' = Some 2" "NR ''kdebug'' = Some 89" by (simp_all add: NR_def NR_table_def)
  have st: "''sys_fork'' \<notin> set stubs" "''sys_kdebug'' \<notin> set stubs" by (simp_all add: stubs_def)
  have call: "syscall0 h r name t e = Some (Inr (case h (''sys_'' @ name) r t of (res, t) \<Rightarrow>
      (if 0 \<le> sint res then res else - 1, if 0 \<le> sint res then e else - res, t)))"
    if "NR name = Some k" "''sys_'' @ name \<notin> set stubs" for name k t e
    unfolding syscall0_def syscall_with_def that(1) option.map call_table_NR [OF that(1)] if_not_P [OF that(2)]
    by (simp add: syscall_result_def case_prod_beta)
  show ?thesis
    using call [OF n(1)] call [OF n(2)] st by (simp add: main_user_def case_prod_beta Let_def)
qed

end
