(* ===== verification/Space_Inv.thy ===== *)
theory Space_Inv
  imports Fork
begin

text \<open>
  The invariant of the page tables of all processes together, and what keeps it.  Slot \<open>n\<close> of the process
  table owns the directory entry of linear address \<open>n\<close> times 64 MB and uses the first 640 KB behind it.
  The directory, the tables and the reference counts are read off the memory as four functions (which
  spaces are in use, their tables, the entries of the tables, the counts of the frames), the
  invariant is a predicate on these functions, and each thing the kernel does to them (taking a frame, giving
  the write permission to the only user of a frame, giving one user a copy, entering a new space that shares
  the pages of an old one) is shown to keep it.
\<close>

section \<open>Directory, tables and entries\<close>

text \<open>Segments of 640 KB have 160 pages; \<^verbatim>\<open>copy_page_tables\<close> copies as many from task 0.\<close>

definition USER_PAGES :: nat where
  "USER_PAGES = 0xA0"

definition space_used :: "mm \<Rightarrow> nat \<Rightarrow> bool" where
  "space_used s n \<longleftrightarrow> n < NR_TASKS \<and> bit (pmem s (dir_index (child_base n))) 0"

definition table_of :: "mm \<Rightarrow> nat \<Rightarrow> u32" where
  "table_of s n = page_of (pmem s (dir_index (child_base n)))"

definition entry_of :: "mm \<Rightarrow> nat \<Rightarrow> nat \<Rightarrow> u32" where
  "entry_of s n k = pte_at s (table_of s n) k"

section \<open>The invariant\<close>

text \<open>The spaces that have frame \<open>p\<close> as their page \<open>k\<close>.\<close>

definition sharers :: "(nat \<Rightarrow> bool) \<Rightarrow> (nat \<Rightarrow> nat \<Rightarrow> u32) \<Rightarrow> nat \<Rightarrow> u32 \<Rightarrow> nat set" where
  "sharers U E k p = {n. U n \<and> page_of (E n k) = p}"

text \<open>
  An entry is present.  It maps either the page below 1 MB of the same number, which task 0 may
  write and no other, or a managed frame, never for task 0; the count of the frame is the number of spaces that
  have it, and only the single user of a frame may write it.
\<close>

definition entry_inv :: "(nat \<Rightarrow> bool) \<Rightarrow> (nat \<Rightarrow> nat \<Rightarrow> u32) \<Rightarrow> (u32 \<Rightarrow> u8) \<Rightarrow> nat \<Rightarrow> nat \<Rightarrow> bool" where
  "entry_inv U E R n k \<longleftrightarrow>
     bit (E n k) 0 \<and>
     (page_of (E n k) = 4096 * of_nat k \<and> (bit (E n k) 1 \<longleftrightarrow> n = 0) \<or>
      n \<noteq> 0 \<and> LOW_MEM \<le> page_of (E n k) \<and>
      R (page_of (E n k)) = of_nat (card (sharers U E k (page_of (E n k)))) \<and>
      (bit (E n k) 1 \<longrightarrow> sharers U E k (page_of (E n k)) = {n}))"

text \<open>The table of task 0 is in the kernel's memory; every other space has a table on a frame of its own.\<close>

definition tables_inv :: "(nat \<Rightarrow> bool) \<Rightarrow> (nat \<Rightarrow> u32) \<Rightarrow> (u32 \<Rightarrow> u8) \<Rightarrow> bool" where
  "tables_inv U T R \<longleftrightarrow>
     U 0 \<and> (\<forall>n. U n \<longrightarrow> n < NR_TASKS) \<and> T 0 = 0x1000 \<and>
     (\<forall>n. U n \<longrightarrow> n \<noteq> 0 \<longrightarrow> LOW_MEM \<le> T n \<and> R (T n) \<noteq> 0) \<and>
     inj_on T {n. U n}"

text \<open>
  A frame appears as the same page in all spaces that have it, it is not a page table, and nothing is mapped
  beyond 640 KB except for task 0.
\<close>

definition entries_inv :: "(nat \<Rightarrow> bool) \<Rightarrow> (nat \<Rightarrow> u32) \<Rightarrow> (nat \<Rightarrow> nat \<Rightarrow> u32) \<Rightarrow> (u32 \<Rightarrow> u8) \<Rightarrow> bool" where
  "entries_inv U T E R \<longleftrightarrow>
     (\<forall>n k. U n \<longrightarrow> k < USER_PAGES \<longrightarrow> entry_inv U E R n k) \<and>
     (\<forall>n k n' k'. U n \<longrightarrow> U n' \<longrightarrow> k < USER_PAGES \<longrightarrow> k' < USER_PAGES \<longrightarrow>
        LOW_MEM \<le> page_of (E n k) \<longrightarrow> page_of (E n k) = page_of (E n' k') \<longrightarrow> k = k') \<and>
     (\<forall>n k n'. U n \<longrightarrow> k < USER_PAGES \<longrightarrow> U n' \<longrightarrow> n' \<noteq> 0 \<longrightarrow> page_of (E n k) \<noteq> T n') \<and>
     (\<forall>n k. U n \<longrightarrow> n \<noteq> 0 \<longrightarrow> USER_PAGES \<le> k \<longrightarrow> k < 1024 \<longrightarrow> E n k = 0)"

definition spaces_ok :: "mm \<Rightarrow> bool" where
  "spaces_ok s \<longleftrightarrow>
     tables_inv (space_used s) (table_of s) (page_refs s) \<and>
     entries_inv (space_used s) (table_of s) (entry_of s) (page_refs s)"

lemma dir_index_child:
  assumes "n < 64"
  shows "dir_index (child_base n) = 0x40 * of_nat n"
proof -
  have "take_bit 6 n = n" using assms by (simp add: take_bit_nat_eq_self)
  then have n: "(of_nat n :: u32) = take_bit 6 (of_nat n)" by (metis of_nat_take_bit)
  have "dir_index (push_bit 26 (take_bit 6 x)) = push_bit 6 (take_bit 6 x)" for x
    unfolding dir_index_def u32_bitwise by (simp add: bit_simps)
  from this [of "of_nat n", folded n] show ?thesis
    by (simp add: child_base_def push_bit_eq_mult mult.commute)
qed

lemma dir_index_child_inject:
  "n < 64 \<Longrightarrow> n' < 64 \<Longrightarrow> dir_index (child_base n) = dir_index (child_base n') \<longleftrightarrow> n = n'"
proof
  assume n: "n < 64" "n' < 64" "dir_index (child_base n) = dir_index (child_base n')"
  have "unat (0x40 * of_nat i :: u32) = 64 * i" if "i < 64" for i
    using that by (simp add: unat_word_ariths unat_of_nat)
  then have "64 * n = 64 * n'" using n by (metis dir_index_child)
  then show "n = n'" by simp
qed simp

lemma sharers_finite:
  assumes "tables_inv U T R"
  shows "finite (sharers U E k p)" "card (sharers U E k p) \<le> NR_TASKS"
proof -
  have sub: "sharers U E k p \<subseteq> {..<NR_TASKS}" using assms by (auto simp: sharers_def tables_inv_def)
  then show "finite (sharers U E k p)" by (rule finite_subset) simp
  show "card (sharers U E k p) \<le> NR_TASKS" using card_mono [OF _ sub] by simp
qed

lemma sharers_count:
  assumes "tables_inv U T R" "n \<in> sharers U E k p"
  shows "of_nat (card (sharers U E k p)) \<noteq> (0 :: u8)"
    "of_nat (card (sharers U E k p)) = (1 :: u8) \<longleftrightarrow> sharers U E k p = {n}"
proof -
  let ?c = "card (sharers U E k p)"
  have c: "0 < ?c" "?c < 256"
    using assms(2) sharers_finite [OF assms(1), of E k p] by (auto simp: card_gt_0_iff)
  have u: "unat (of_nat ?c :: u8) = ?c" using c(2) by (simp add: unat_of_nat)
  show "of_nat ?c \<noteq> (0 :: u8)" using u c(1) by (metis unat_0 less_irrefl)
  have "of_nat ?c = (1 :: u8) \<longleftrightarrow> ?c = 1" using u by (metis unat_1 of_nat_1)
  also have "\<dots> \<longleftrightarrow> sharers U E k p = {n}" using assms(2) by (auto simp: card_1_singleton_iff)
  finally show "of_nat ?c = (1 :: u8) \<longleftrightarrow> sharers U E k p = {n}" .
qed

section \<open>Consequences\<close>

lemma low_frame: "k < USER_PAGES \<Longrightarrow> (4096 * of_nat k :: u32) < LOW_MEM"
proof -
  assume k: "k < USER_PAGES"
  have "(4096 * of_nat k :: u32) = of_nat (4096 * k)" by simp
  moreover have "unat (of_nat (4096 * k) :: u32) = 4096 * k"
    using k by (simp add: unat_of_nat USER_PAGES_def del: of_nat_mult)
  ultimately show "(4096 * of_nat k :: u32) < LOW_MEM"
    using k by (simp add: word_less_nat_alt USER_PAGES_def)
qed

lemma tables_invD:
  assumes "tables_inv U T R"
  shows "U 0" "U n \<Longrightarrow> n < NR_TASKS" "T 0 \<noteq> 0" "T 0 < LOW_MEM"
    "U n \<Longrightarrow> n \<noteq> 0 \<Longrightarrow> LOW_MEM \<le> T n" "U n \<Longrightarrow> n \<noteq> 0 \<Longrightarrow> R (T n) \<noteq> 0"
    "U n \<Longrightarrow> U m \<Longrightarrow> T n = T m \<longleftrightarrow> n = m" "T 0 = 0x1000"
  using assms by (auto simp: tables_inv_def inj_on_eq_iff)

lemma entries_invD:
  assumes "entries_inv U T E R"
  shows "U n \<Longrightarrow> k < USER_PAGES \<Longrightarrow> entry_inv U E R n k"
    "U n \<Longrightarrow> U n' \<Longrightarrow> k < USER_PAGES \<Longrightarrow> k' < USER_PAGES \<Longrightarrow>
       LOW_MEM \<le> page_of (E n k) \<Longrightarrow> page_of (E n k) = page_of (E n' k') \<Longrightarrow> k = k'"
    "U n \<Longrightarrow> k < USER_PAGES \<Longrightarrow> U n' \<Longrightarrow> n' \<noteq> 0 \<Longrightarrow> page_of (E n k) \<noteq> T n'"
    "U n \<Longrightarrow> n \<noteq> 0 \<Longrightarrow> USER_PAGES \<le> k \<Longrightarrow> k < 1024 \<Longrightarrow> E n k = 0"
  using assms unfolding entries_inv_def by blast+

lemma high_frame:
  assumes "tables_inv U T R" "entries_inv U T E R" "U n" "k < USER_PAGES" "LOW_MEM \<le> page_of (E n k)"
  shows "R (page_of (E n k)) = of_nat (card (sharers U E k (page_of (E n k))))"
    "R (page_of (E n k)) \<noteq> 0" "n \<noteq> 0"
    "R (page_of (E n k)) = 1 \<longleftrightarrow> sharers U E k (page_of (E n k)) = {n}"
    "bit (E n k) 1 \<Longrightarrow> sharers U E k (page_of (E n k)) = {n}"
proof -
  have n: "n \<in> sharers U E k (page_of (E n k))" using assms by (simp add: sharers_def)
  note c = sharers_count [OF assms(1) n]
  have "page_of (E n k) \<noteq> 4096 * of_nat k" using low_frame [OF assms(4)] assms(5) by (metis not_less)
  then have e: "n \<noteq> 0" "R (page_of (E n k)) = of_nat (card (sharers U E k (page_of (E n k))))"
      "bit (E n k) 1 \<longrightarrow> sharers U E k (page_of (E n k)) = {n}"
    using entries_invD(1) [OF assms(2-4)] unfolding entry_inv_def by blast+
  then show "R (page_of (E n k)) = of_nat (card (sharers U E k (page_of (E n k))))"
    "n \<noteq> 0" "bit (E n k) 1 \<Longrightarrow> sharers U E k (page_of (E n k)) = {n}" by blast+
  show "R (page_of (E n k)) \<noteq> 0" "R (page_of (E n k)) = 1 \<longleftrightarrow> sharers U E k (page_of (E n k)) = {n}"
    using c e(2) by metis+
qed

lemma frame_live:
  assumes "tables_inv U T R" "entries_inv U T E R" "U n" "k < USER_PAGES"
  shows "page_of (E n k) < LOW_MEM \<or> R (page_of (E n k)) \<noteq> 0"
  using high_frame(2) [OF assms] by (auto simp: not_less)

lemma page_of_OR7: "page_aligned p \<Longrightarrow> page_of (p OR 7) = p"
  using page_of_entry by blast

lemma page_of_flag: "page_of (e OR 2) = page_of e" "page_of (ro e) = page_of e"
  unfolding page_of_def ro_def u32_bitwise by (simp_all add: bit_simps)

lemma new_unmapped:
  assumes "tables_inv U T R" "entries_inv U T E R" "U n" "k < USER_PAGES"
    and "LOW_MEM \<le> new" "R new = 0"
  shows "page_of (E n k) \<noteq> new"
  using frame_live [OF assms(1-4)] assms(5,6) by (auto simp del: LOW_MEM_def)

lemma table_not_new:
  assumes "tables_inv U T R" "U n" "LOW_MEM \<le> new" "R new = 0"
  shows "T n \<noteq> new"
  using tables_invD(4,6) [OF assms(1)] assms(2-4) by (metis not_less)

section \<open>What keeps the invariant\<close>

text \<open>A frame is taken for the kernel's own use.\<close>

lemma tables_inv_alloc:
  assumes "tables_inv U T R" "R new = 0" "\<And>n. R' (T n) = (if T n = new then 1 else R (T n))"
  shows "tables_inv U T R'"
  using assms by (simp add: tables_inv_def)

lemma entries_inv_alloc:
  assumes "tables_inv U T R" "entries_inv U T E R" "LOW_MEM \<le> new" "R new = 0"
    "\<And>n k. R' (page_of (E n k)) = (if page_of (E n k) = new then 1 else R (page_of (E n k)))"
  shows "entries_inv U T E R'"
proof -
  have "entry_inv U E R' n k" if "U n" "k < USER_PAGES" for n k
    using entries_invD(1) [OF assms(2) that] new_unmapped [OF assms(1,2) that assms(3,4)] assms(5)
    unfolding entry_inv_def by simp
  then show ?thesis using assms(2) unfolding entries_inv_def by blast
qed

text \<open>The only user of a frame may write it.\<close>

lemma entries_inv_exclusive:
  assumes inv: "tables_inv U T R" "entries_inv U T E R" and n: "U n" "k < USER_PAGES"
    and own: "LOW_MEM \<le> page_of (E n k)" "R (page_of (E n k)) = 1"
    and E': "\<And>m j. U m \<Longrightarrow> j < 1024 \<Longrightarrow> E' m j = (if m = n \<and> j = k then E n k OR 2 else E m j)"
  shows "entries_inv U T E' R"
proof -
  have less: "j < 1024" if "j < USER_PAGES" for j using that by (simp add: USER_PAGES_def)
  have pg: "page_of (E' m j) = page_of (E m j)" if "U m" "j < USER_PAGES" for m j
    using E' [OF that(1) less [OF that(2)]] page_of_flag by auto
  have sh: "sharers U E' j p = sharers U E j p" if "j < USER_PAGES" for j p
    using pg that by (auto simp: sharers_def)
  note h = high_frame [OF inv n own(1)]
  have "entry_inv U E' R m j" if m: "U m" "j < USER_PAGES" for m j
  proof (cases "m = n \<and> j = k")
    case True
    have "E' n k = E n k OR 2" using E' [OF n(1) less [OF n(2)]] by simp
    moreover have "bit (E n k) 0" using entries_invD(1) [OF inv(2) n] unfolding entry_inv_def by blast
    ultimately show ?thesis
      using True h own pg [OF n] sh [OF n(2)] unfolding entry_inv_def by (simp add: bit_simps)
  next
    case False
    then have "E' m j = E m j" using E' [OF m(1) less [OF m(2)]] by auto
    then show ?thesis
      using entries_invD(1) [OF inv(2) m] sh [OF m(2)] unfolding entry_inv_def by simp
  qed
  moreover have "E' m j = 0" if "U m" "m \<noteq> 0" "USER_PAGES \<le> j" "j < 1024" for m j
    using E' [OF that(1,4)] entries_invD(4) [OF inv(2) that] that(3) n(2) by auto
  ultimately show ?thesis
    using entries_invD(2,3) [OF inv(2)] unfolding entries_inv_def by (simp add: pg)
qed

lemma user_page_less: "j < USER_PAGES \<Longrightarrow> j < 1024"
  by (simp add: USER_PAGES_def)

lemma bit_OR7: "bit (x OR 7 :: u32) 0" "bit (x OR 7 :: u32) 1"
  by (simp_all add: bit_simps)

text \<open>One user of a frame gets a copy of its own.\<close>

lemma sharers_moved:
  assumes "U n" "page_aligned new" "\<And>m. U m \<Longrightarrow> page_of (E m k) \<noteq> new"
    and "\<And>m. U m \<Longrightarrow> E' m k = (if m = n then new OR 7 else E m k)"
  shows "sharers U E' k p = (if p = new then {n} else sharers U E k p - {n})"
proof -
  have pg: "page_of (E' m k) = (if m = n then new else page_of (E m k))" if "U m" for m
    using assms(4) [OF that] page_of_OR7 [OF assms(2)] by simp
  have "m \<in> sharers U E' k p \<longleftrightarrow> m \<in> (if p = new then {n} else sharers U E k p - {n})" for m
    using pg [of m] assms(1) assms(3) [of m] unfolding sharers_def by (cases "U m"; cases "m = n") auto
  then show ?thesis by blast
qed

lemma card_minus_one:
  assumes "finite A" "n \<in> A"
  shows "(of_nat (card (A - {n})) :: u8) = of_nat (card A) - 1"
proof -
  have "card A = Suc (card (A - {n}))" using card_Suc_Diff1 [OF assms] by simp
  then show ?thesis by simp
qed

definition copied_refs :: "u32 \<Rightarrow> u32 \<Rightarrow> (u32 \<Rightarrow> u8) \<Rightarrow> (u32 \<Rightarrow> u8) \<Rightarrow> bool" where
  "copied_refs old new R R' \<longleftrightarrow>
     page_aligned new \<and> LOW_MEM \<le> new \<and> R new = 0 \<and> R' new = 1 \<and>
     (\<forall>p. page_aligned p \<longrightarrow> p \<noteq> new \<longrightarrow> R' p = (if p = old \<and> LOW_MEM \<le> p then R p - 1 else R p))"

lemma copied_refsD:
  assumes "copied_refs old new R R'"
  shows "page_aligned new" "LOW_MEM \<le> new" "R new = 0" "R' new = 1"
    "page_aligned p \<Longrightarrow> p \<noteq> new \<Longrightarrow> R' p = (if p = old \<and> LOW_MEM \<le> p then R p - 1 else R p)"
  using assms by (auto simp: copied_refs_def)

lemma copied_entry_kept:
  assumes inv: "tables_inv U T R" "entries_inv U T E R" and n: "U n" "k < USER_PAGES"
    and R': "copied_refs (page_of (E n k)) new R R'"
    and E': "\<And>m j. U m \<Longrightarrow> j < 1024 \<Longrightarrow> E' m j = (if m = n \<and> j = k then new OR 7 else E m j)"
    and m: "U m" "j < USER_PAGES" "\<not> (m = n \<and> j = k)"
  shows "entry_inv U E' R' m j"
proof (cases "LOW_MEM \<le> page_of (E m j)")
  case False
  then show ?thesis
    using entries_invD(1) [OF inv(2) m(1,2)] E' [OF m(1) user_page_less [OF m(2)]] m(3)
    unfolding entry_inv_def by auto
next
  case True
  let ?p = "page_of (E m j)"
  note new = copied_refsD [OF R'] and h = high_frame [OF inv m(1,2) True]
  have un: "page_of (E i k) \<noteq> new" if "U i" for i using new_unmapped [OF inv that n(2) new(2,3)] .
  have np: "?p \<noteq> new" using new_unmapped [OF inv m(1,2) new(2,3)] .
  have Em: "E' m j = E m j" using E' [OF m(1) user_page_less [OF m(2)]] m(3) by auto
  have b: "bit (E m j) 0" using entries_invD(1) [OF inv(2) m(1,2)] unfolding entry_inv_def by blast
  have sh: "sharers U E' j ?p = (if j = k then sharers U E j ?p - {n} else sharers U E j ?p)"
  proof (cases "j = k")
    case True
    then show ?thesis
      using sharers_moved [of U n new E k E', OF n(1) new(1) un] E' user_page_less [OF n(2)] np by auto
  next
    case False
    then show ?thesis using E' user_page_less [OF m(2)] by (auto simp: sharers_def)
  qed
  show ?thesis
  proof (cases "?p = page_of (E n k)")
    case False
    then have "n \<notin> sharers U E k ?p" by (simp add: sharers_def)
    then have "sharers U E' j ?p = sharers U E j ?p" using sh by auto
    then show ?thesis
      using h(1,3,5) b True Em new(5) [OF page_of_aligned np] False unfolding entry_inv_def by auto
  next
    case eq: True
    have jk: "j = k" using entries_invD(2) [OF inv(2) m(1) n(1) m(2) n(2) True eq] .
    have nin: "n \<in> sharers U E j ?p" using n(1) eq jk by (simp add: sharers_def)
    have "\<not> bit (E m j) 1" using h(5) nin m(3) jk by auto
    moreover have "R' ?p = of_nat (card (sharers U E' j ?p))"
      using h(1) new(5) [OF page_of_aligned np] True eq sh jk
        card_minus_one [OF sharers_finite(1) [OF inv(1)] nin] by simp
    ultimately show ?thesis using h(3) b True Em unfolding entry_inv_def by auto
  qed
qed

lemma entries_inv_copied:
  assumes inv: "tables_inv U T R" "entries_inv U T E R" and n: "U n" "n \<noteq> 0" "k < USER_PAGES"
    and R': "copied_refs (page_of (E n k)) new R R'"
    and E': "\<And>m j. U m \<Longrightarrow> j < 1024 \<Longrightarrow> E' m j = (if m = n \<and> j = k then new OR 7 else E m j)"
  shows "entries_inv U T E' R'"
proof -
  note new = copied_refsD [OF R'] and ul = user_page_less
  note un = new_unmapped [OF inv _ _ new(2,3)]
  have Ek: "E' m k = (if m = n then new OR 7 else E m k)" if "U m" for m
    using E' [OF that ul [OF n(3)]] by simp
  have pg: "page_of (E' m j) = (if m = n \<and> j = k then new else page_of (E m j))"
    if "U m" "j < USER_PAGES" for m j
    using E' [OF that(1) ul [OF that(2)]] page_of_OR7 [OF new(1)] by simp
  have "sharers U E' k new = {n}"
    using sharers_moved [of U n new E k E', OF n(1) new(1) un Ek, OF _ n(3)] by simp
  then have self: "entry_inv U E' R' n k"
    using Ek [OF n(1)] new n(2) page_of_OR7 bit_OR7 unfolding entry_inv_def by simp
  then have "entry_inv U E' R' m j" if "U m" "j < USER_PAGES" for m j
    using copied_entry_kept [OF inv n(1,3) R' E' that] by blast
  moreover have "E' m j = 0" if "U m" "m \<noteq> 0" "USER_PAGES \<le> j" "j < 1024" for m j
    using E' [OF that(1,4)] entries_invD(4) [OF inv(2) that] that(3) n(3) by auto
  moreover have "T m \<noteq> new" if "U m" for m using table_not_new [OF inv(1) that new(2,3)] .
  ultimately show ?thesis
    using entries_invD(2,3) [OF inv(2)] un unfolding entries_inv_def by (simp add: pg) metis
qed

lemma tables_inv_copied:
  assumes inv: "tables_inv U T R" "entries_inv U T E R" and n: "U n" "k < USER_PAGES"
    and al: "\<And>m. page_aligned (T m)" and R': "copied_refs (page_of (E n k)) new R R'"
  shows "tables_inv U T R'"
proof -
  note new = copied_refsD [OF R']
  have "R' (T m) = R (T m)" if "U m" "m \<noteq> 0" for m
    using new(5) [OF al table_not_new [OF inv(1) that(1) new(2,3)]] entries_invD(3) [OF inv(2) n that]
    by auto
  then show ?thesis using inv(1) unfolding tables_inv_def by metis
qed

text \<open>Entries outside the spaces in use do not matter.\<close>

lemma entries_inv_cong:
  assumes "entries_inv U T E R" "\<And>m j. U m \<Longrightarrow> j < 1024 \<Longrightarrow> E' m j = E m j"
  shows "entries_inv U T E' R"
proof -
  have e: "E' m j = E m j" if "U m" "j < USER_PAGES" for m j using assms(2) [OF that(1) user_page_less [OF that(2)]] .
  have "sharers U E' j p = sharers U E j p" if "j < USER_PAGES" for j p
    using e [OF _ that] by (auto simp: sharers_def)
  then have "entry_inv U E' R m j" if "U m" "j < USER_PAGES" for m j
    using entries_invD(1) [OF assms(1) that] e [OF that] that(2) by (simp add: entry_inv_def)
  moreover have "E' m j = 0" if "U m" "m \<noteq> 0" "USER_PAGES \<le> j" "j < 1024" for m j
    using assms(2) [OF that(1,4)] entries_invD(4) [OF assms(1) that] by simp
  ultimately show ?thesis
    using entries_invD(2,3) [OF assms(1)] unfolding entries_inv_def by (simp add: e)
qed

section \<open>A fork\<close>

lemma low_mem_bits: "LOW_MEM \<le> x \<longleftrightarrow> drop_bit 20 x \<noteq> 0"
proof -
  have "drop_bit 20 x = 0 \<longleftrightarrow> unat x div 2 ^ 20 = 0"
    by (simp add: drop_bit_eq_div word_unat_eq_iff unat_div)
  then show ?thesis by (auto simp: word_le_nat_alt div_eq_0_iff)
qed

lemma shared_iff:
  assumes "bit e 0"
  shows "shared e \<longleftrightarrow> LOW_MEM \<le> page_of e"
proof -
  have "drop_bit 20 (page_of e) = drop_bit 20 (ro e)"
    unfolding page_of_def ro_def u32_bitwise by (simp add: bit_simps)
  then have "LOW_MEM \<le> page_of e \<longleftrightarrow> LOW_MEM \<le> ro e" by (simp only: low_mem_bits)
  moreover have "bit (ro e) 0" using assms by (simp add: ro_def bit_simps)
  then have "ro e \<noteq> LOW_MEM" by auto
  moreover have "e \<noteq> 0" using assms by auto
  ultimately show ?thesis unfolding shared_def by (metis order.strict_iff_order)
qed

lemma bit_ro: "bit (ro e) 0 = bit e 0" "\<not> bit (ro e) 1"
  by (simp_all add: ro_def bit_simps)

text \<open>A new space with the pages of an old one.\<close>

definition forked_maps :: "(nat \<Rightarrow> bool) \<Rightarrow> (nat \<Rightarrow> nat \<Rightarrow> u32) \<Rightarrow> nat \<Rightarrow> nat \<Rightarrow>
    (nat \<Rightarrow> bool) \<Rightarrow> (nat \<Rightarrow> nat \<Rightarrow> u32) \<Rightarrow> bool" where
  "forked_maps U E n c U' E' \<longleftrightarrow>
     U n \<and> \<not> U c \<and> (\<forall>m. U' m \<longleftrightarrow> m = c \<or> U m) \<and>
     (\<forall>m j. U' m \<longrightarrow> j < 1024 \<longrightarrow> E' m j =
        (if m = c then if j < USER_PAGES then ro (E n j) else 0
         else if m = n \<and> j < USER_PAGES \<and> shared (E n j) then ro (E n j) else E m j))"

definition forked_refs :: "(nat \<Rightarrow> nat \<Rightarrow> u32) \<Rightarrow> nat \<Rightarrow> u32 \<Rightarrow> (u32 \<Rightarrow> u8) \<Rightarrow> (u32 \<Rightarrow> u8) \<Rightarrow> bool" where
  "forked_refs E n tt R R' \<longleftrightarrow>
     page_aligned tt \<and> LOW_MEM \<le> tt \<and> R tt = 0 \<and> R' tt = 1 \<and>
     (\<forall>p. page_aligned p \<longrightarrow> p \<noteq> tt \<longrightarrow>
        R' p = R p + (if \<exists>j < USER_PAGES. shared (E n j) \<and> page_of (E n j) = p then 1 else 0))"

lemma forked_mapsD:
  assumes "forked_maps U E n c U' E'"
  shows "U n" "\<not> U c" "U' m \<longleftrightarrow> m = c \<or> U m"
    "U' m \<Longrightarrow> j < 1024 \<Longrightarrow> E' m j =
      (if m = c then if j < USER_PAGES then ro (E n j) else 0
       else if m = n \<and> j < USER_PAGES \<and> shared (E n j) then ro (E n j) else E m j)"
    "U' m \<Longrightarrow> j < USER_PAGES \<Longrightarrow> page_of (E' m j) = page_of (E (if m = c then n else m) j)"
  using assms page_of_flag(2) user_page_less [of j] by (auto simp: forked_maps_def)

lemma forked_refsD:
  assumes "forked_refs E n tt R R'"
  shows "page_aligned tt" "LOW_MEM \<le> tt" "R tt = 0" "R' tt = 1"
    "page_aligned p \<Longrightarrow> p \<noteq> tt \<Longrightarrow>
      R' p = R p + (if \<exists>j < USER_PAGES. shared (E n j) \<and> page_of (E n j) = p then 1 else 0)"
  using assms by (auto simp: forked_refs_def)

lemma entry_present: "entries_inv U T E R \<Longrightarrow> U n \<Longrightarrow> k < USER_PAGES \<Longrightarrow> bit (E n k) 0"
  using entries_invD(1) unfolding entry_inv_def by blast

lemma forked_sharers:
  assumes "forked_maps U E n c U' E'" "j < USER_PAGES"
  shows "sharers U' E' j p = sharers U E j p \<union> (if page_of (E n j) = p then {c} else {})"
proof -
  have "m \<in> sharers U' E' j p \<longleftrightarrow> m \<in> sharers U E j p \<union> (if page_of (E n j) = p then {c} else {})" for m
    using forked_mapsD(2) [OF assms(1)] forked_mapsD(3) [OF assms(1), of m]
      forked_mapsD(5) [OF assms(1), of m j] assms(2) unfolding sharers_def by (cases "m = c") auto
  then show ?thesis by blast
qed

lemma forked_count:
  assumes inv: "tables_inv U T R" "entries_inv U T E R"
    and f: "forked_maps U E n c U' E'" "forked_refs E n tt R R'"
    and m: "U m" "j < USER_PAGES" "LOW_MEM \<le> page_of (E m j)"
  shows "R' (page_of (E m j)) = of_nat (card (sharers U' E' j (page_of (E m j))))"
proof -
  note n = forked_mapsD(1,2) [OF f(1)]
  have src: "(\<exists>i < USER_PAGES. shared (E n i) \<and> page_of (E n i) = page_of (E m j)) \<longleftrightarrow>
      page_of (E n j) = page_of (E m j)"
    using entries_invD(2) [OF inv(2) n(1) m(1) _ m(2)] shared_iff [OF entry_present [OF inv(2) n(1)]]
      m(2,3) by metis
  have "c \<notin> sharers U E j p" for p using n(2) by (simp add: sharers_def)
  then have "card (sharers U' E' j (page_of (E m j))) = card (sharers U E j (page_of (E m j))) +
      (if page_of (E n j) = page_of (E m j) then 1 else 0)"
    using sharers_finite(1) [OF inv(1)] by (simp add: forked_sharers [OF f(1) m(2)])
  then show ?thesis
    using forked_refsD(5) [OF f(2) page_of_aligned new_unmapped [OF inv m(1,2) forked_refsD(2,3) [OF f(2)]]]
      high_frame(1) [OF inv m] src by simp
qed

lemma forked_entry:
  assumes inv: "tables_inv U T R" "entries_inv U T E R"
    and f: "forked_maps U E n c U' E'" "forked_refs E n tt R R'"
    and m: "U' m" "j < USER_PAGES"
  shows "entry_inv U' E' R' m j"
proof -
  define m0 where "m0 = (if m = c then n else m)"
  note n = forked_mapsD(1,2) [OF f(1)]
  have c0: "c \<noteq> 0" using tables_invD(1) [OF inv(1)] n(2) by metis
  have m0: "U m0" using m(1) forked_mapsD(3) [OF f(1)] n(1) by (auto simp: m0_def)
  have p: "page_of (E' m j) = page_of (E m0 j)" using forked_mapsD(5) [OF f(1) m] by (simp add: m0_def)
  have e: "E' m j = ro (E m0 j) \<and> (m = c \<or> LOW_MEM \<le> page_of (E m0 j)) \<or> m \<noteq> c \<and> E' m j = E m0 j \<and> (LOW_MEM \<le> page_of (E m j) \<longrightarrow> m \<noteq> n)"
    using forked_mapsD(4) [OF f(1) m(1) user_page_less [OF m(2)]] m(2)
      shared_iff [OF entry_present [OF inv(2) n(1) m(2)]] by (auto simp: m0_def)
  then have b: "bit (E' m j) 0" using entry_present [OF inv(2) m0 m(2)] bit_ro by auto
  show ?thesis
  proof (cases "LOW_MEM \<le> page_of (E m0 j)")
    case False
    then show ?thesis
      using entries_invD(1) [OF inv(2) m0 m(2)] e b p bit_ro(2) c0
      unfolding entry_inv_def m0_def by (auto split: if_splits)
  next
    case True
    note h = high_frame [OF inv m0 m(2) True]
    have "sharers U' E' j (page_of (E m0 j)) = {m}" if w: "bit (E' m j) 1"
    proof -
      have mm: "m \<noteq> c" "E' m j = E m j" "m \<noteq> n" "m0 = m"
        using e w bit_ro(2) True by (auto simp: m0_def)
      then have "sharers U E j (page_of (E m j)) = {m}" using h(5) w by simp
      moreover have "page_of (E n j) \<noteq> page_of (E m j)"
        using calculation n(1) mm(3) by (auto simp: sharers_def set_eq_iff)
      ultimately show ?thesis using forked_sharers [OF f(1) m(2)] mm(4) by simp
    qed
    moreover have "m \<noteq> 0" using h(3) c0 by (auto simp: m0_def split: if_splits)
    ultimately show ?thesis
      using b True forked_count [OF inv f m0 m(2) True] unfolding entry_inv_def p by blast
  qed
qed

lemma forked_entries:
  assumes inv: "tables_inv U T R" "entries_inv U T E R"
    and f: "forked_maps U E n c U' E'" "forked_refs E n tt R R'"
    and T': "\<And>m. U' m \<Longrightarrow> T' m = (if m = c then tt else T m)"
  shows "entries_inv U' T' E' R'"
proof -
  note U' = forked_mapsD(3) [OF f(1)] and n = forked_mapsD(1,2) [OF f(1)] and pg = forked_mapsD(5) [OF f(1)]
  note un = new_unmapped [OF inv _ _ forked_refsD(2,3) [OF f(2)]]
  have "E' m j = 0" if "U' m" "m \<noteq> 0" "USER_PAGES \<le> j" "j < 1024" for m j
    using forked_mapsD(4) [OF f(1) that(1,4)] entries_invD(4) [OF inv(2) _ that(2-4)] that(1,3) U' by auto
  moreover have "j = j'" if "U' m" "U' m'" "j < USER_PAGES" "j' < USER_PAGES"
      "LOW_MEM \<le> page_of (E' m j)" "page_of (E' m j) = page_of (E' m' j')" for m m' j j'
    using entries_invD(2) [OF inv(2), of "if m = c then n else m" "if m' = c then n else m'" j j'] that
      U' n(1) pg by auto
  moreover have "page_of (E' m j) \<noteq> T' m'" if "U' m" "j < USER_PAGES" "U' m'" "m' \<noteq> 0" for m j m'
    using un [of "if m = c then n else m" j] entries_invD(3) [OF inv(2), of "if m = c then n else m" j m']
      that U' n(1) pg T' by auto
  ultimately show "entries_inv U' T' E' R'"
    using forked_entry [OF inv f] unfolding entries_inv_def by blast
qed

lemma forked_tables:
  assumes inv: "tables_inv U T R" "entries_inv U T E R" and al: "\<And>m. page_aligned (T m)"
    and f: "forked_maps U E n c U' E'" "forked_refs E n tt R R'" and c: "c < NR_TASKS"
    and T': "\<And>m. U' m \<Longrightarrow> T' m = (if m = c then tt else T m)"
  shows "tables_inv U' T' R'"
proof -
  note tt = forked_refsD [OF f(2)] and n = forked_mapsD(1,2) [OF f(1)]
  note tn = table_not_new [OF inv(1) _ tt(2,3)]
  have c0: "c \<noteq> 0" using tables_invD(1) [OF inv(1)] n(2) by metis
  have RT: "R' (T m) = R (T m)" if "U m" "m \<noteq> 0" for m
    using tt(5) [OF al tn [OF that(1)]] entries_invD(3) [OF inv(2) n(1) _ that] by auto
  have "m = m'" if "m = c \<or> U m" "m' = c \<or> U m'" "T' m = T' m'" for m m'
    using that T' [unfolded forked_mapsD(3) [OF f(1)]] n(2) tn [of m] tn [of m']
      tables_invD(7) [OF inv(1), of m m'] by (auto split: if_splits)
  then have "inj_on T' (Collect U')" by (auto simp: inj_on_def forked_mapsD(3) [OF f(1)])
  then show ?thesis
    using tables_invD(1-6,8) [OF inv(1)] T' c c0 tt(2,4) RT
    unfolding tables_inv_def by (auto simp: forked_mapsD(3) [OF f(1)] simp del: LOW_MEM_def)
qed

end
