(* ===== verification/Address_Space.thy ===== *)
theory Address_Space
  imports Space_Inv
begin

text \<open>
  What the code of \<^verbatim>\<open>mm/memory.c\<close> does to the address spaces: every operation keeps the invariant of
  \<open>Space_Inv\<close>, and the words that a process sees through its page table change only where they should.
  \<open>get_free_page\<close> and \<open>un_wp_page\<close> change nothing that anyone sees; a store through a writable entry changes one
  word of one space; \<open>copy_page_tables\<close> makes a space that sees what the parent sees.  Each of them takes at most
  one frame.
\<close>

section \<open>Free frames\<close>

definition free_set :: "mm \<Rightarrow> int set" where
  "free_set s = {i. 0 \<le> i \<and> i < int PAGING_PAGES \<and> mem_map s i = 0}"

lemma free_set_finite: "finite (free_set s)"
  by (rule finite_subset [of _ "{0..<int PAGING_PAGES}"]) (auto simp: free_set_def)

lemma has_free_page_set: "has_free_page s \<longleftrightarrow> free_set s \<noteq> {}"
  by (auto simp: has_free_page_def free_set_def)

lemma free_set_alloc: "has_free_page s \<Longrightarrow> free_set (snd (get_free_page s)) = free_set s - {last_free s}"
  by (auto simp: free_set_def get_free_page_eq)

lemma free_set_least:
  assumes "n < card (free_set s)"
  shows "has_free_page s" "n \<le> card (free_set s - {x})"
proof -
  have "free_set s \<noteq> {}" using assms by auto
  then show "has_free_page s" by (simp add: has_free_page_set)
  show "n \<le> card (free_set s - {x})"
    using assms by (cases "x \<in> free_set s") (simp_all add: card_Diff_singleton free_set_finite)
qed


lemma free_set_taken:
  assumes "\<And>p. page_aligned p \<Longrightarrow> p \<noteq> new \<Longrightarrow> page_refs s p = 0 \<Longrightarrow> page_refs s' p = 0"
  shows "card (free_set s) \<le> card (free_set s') + 1"
proof -
  have "i \<in> insert (MAP_NR new) (free_set s')" if i: "i \<in> free_set s" for i
  proof -
    have M: "MAP_NR (frame_addr i) = i" using i by (intro MAP_NR_frame_addr) (auto simp: free_set_def)
    then show ?thesis
      using assms [OF frame_addr_aligned, of i] i
      by (cases "frame_addr i = new") (auto simp: page_refs_def free_set_def)
  qed
  then have "card (free_set s) \<le> card (insert (MAP_NR new) (free_set s'))"
    by (intro card_mono) (auto simp: free_set_finite)
  then show ?thesis using card_insert_le_m1 [of "card (free_set s') + 1" "free_set s'" "MAP_NR new"] by simp
qed

section \<open>Words of a space\<close>

definition entry_addr :: "mm \<Rightarrow> nat \<Rightarrow> nat \<Rightarrow> u32" where
  "entry_addr s n k = table_of s n + 4 * of_nat k"

definition user_word :: "mm \<Rightarrow> nat \<Rightarrow> nat \<Rightarrow> nat \<Rightarrow> u32" where
  "user_word s n k w = pmem s (page_of (entry_of s n k) + 4 * of_nat w)"

lemma table_of_aligned [simp]: "page_aligned (table_of s n)"
  by (simp add: table_of_def)

lemma entry_of_addr: "entry_of s n k = pmem s (entry_addr s n k)"
  by (simp add: entry_of_def entry_addr_def pte_at_def)

lemma page_of_word: "page_aligned p \<Longrightarrow> w < 1024 \<Longrightarrow> page_of (p + 4 * of_nat w) = p"
  using in_page_page_of page_offset_bits by metis

lemma spaces_ok_tables:
  assumes "spaces_ok s" "space_used s n"
  shows "live s (table_of s n)" "table_of s n \<noteq> 0"
  using assms tables_invD(3-6) [of "space_used s" "table_of s" "page_refs s"]
  unfolding spaces_ok_def live_def by (cases "n = 0"; fastforce)+

lemma spaces_ok_frames:
  assumes "spaces_ok s" "space_used s n" "k < USER_PAGES"
  shows "live s (page_of (entry_of s n k))"
  using assms frame_live unfolding spaces_ok_def live_def by blast

section \<open>One word changes\<close>

text \<open>Every word of a page in use other than the one at \<open>te\<close> is kept.\<close>

definition keeps :: "mm \<Rightarrow> u32 \<Rightarrow> mm \<Rightarrow> bool" where
  "keeps s te s' \<longleftrightarrow> (\<forall>a. a \<noteq> te \<longrightarrow> live s (page_of a) \<longrightarrow> pmem s' a = pmem s a)"

lemma live_0: "live s 0"
  by (simp add: live_def)

lemma keeps_dir:
  assumes "keeps s te s'" "page_of te \<noteq> 0"
  shows "space_used s' = space_used s" "table_of s' = table_of s" "entry_addr s' = entry_addr s"
proof -
  have "pmem s' (dir_index la) = pmem s (dir_index la)" for la
    using assms dir_index_page [of la] live_0 [of s] unfolding keeps_def by metis
  then show "space_used s' = space_used s" "table_of s' = table_of s" "entry_addr s' = entry_addr s"
    by (simp_all add: space_used_def table_of_def entry_addr_def fun_eq_iff)
qed

lemma entry_addr_inject:
  assumes "spaces_ok s" "space_used s n" "space_used s m" "j < 1024" "k < 1024"
  shows "entry_addr s n j = entry_addr s m k \<longleftrightarrow> n = m \<and> j = k"
proof (cases "n = m")
  case True
  then show ?thesis using word_offset_inject [OF assms(4,5)] by (simp add: entry_addr_def)
next
  case False
  then have "table_of s n \<noteq> table_of s m"
    using assms(1-3) tables_invD(7) unfolding spaces_ok_def by metis
  then show ?thesis
    using False word_offset_page_neq [OF table_of_aligned table_of_aligned _ assms(4,5)]
    by (simp add: entry_addr_def)
qed

lemma entry_addr_page: "k < 1024 \<Longrightarrow> page_of (entry_addr s n k) = table_of s n"
  using page_of_word [OF table_of_aligned] by (simp add: entry_addr_def)

lemma keeps_entries:
  assumes ok: "spaces_ok s" and n: "space_used s n" "k < 1024"
    and k: "keeps s (entry_addr s n k) s'" and m: "space_used s m" "j < 1024"
  shows "entry_of s' m j = (if m = n \<and> j = k then entry_of s' n k else entry_of s m j)"
proof (cases "m = n \<and> j = k")
  case False
  have "entry_addr s m j \<noteq> entry_addr s n k" using False entry_addr_inject [OF ok m(1) n(1) m(2) n(2)] by simp
  moreover have "live s (page_of (entry_addr s m j))"
    using spaces_ok_tables(1) [OF ok m(1)] entry_addr_page [OF m(2)] by simp
  moreover have "entry_addr s' = entry_addr s"
    using keeps_dir(3) [OF k] spaces_ok_tables(2) [OF ok n(1)] entry_addr_page [OF n(2)] by simp
  ultimately show ?thesis using k False unfolding keeps_def by (auto simp: entry_of_addr)
qed simp

lemma table_not_frame:
  assumes "spaces_ok s" "space_used s n" "n \<noteq> 0" "space_used s m" "j < USER_PAGES"
  shows "page_of (entry_of s m j) \<noteq> table_of s n"
  using assms entries_invD(3) unfolding spaces_ok_def by metis

lemma keeps_words:
  assumes ok: "spaces_ok s" and n: "space_used s n" "n \<noteq> 0" "k < 1024"
    and k: "keeps s (entry_addr s n k) s'" and m: "space_used s m" "j < USER_PAGES" "w < 1024"
  shows "pmem s' (page_of (entry_of s m j) + 4 * of_nat w) = user_word s m j w"
proof -
  have "page_of (page_of (entry_of s m j) + 4 * of_nat w) = page_of (entry_of s m j)"
    using page_of_word [OF page_of_aligned m(3)] .
  then show ?thesis
    using k spaces_ok_frames [OF ok m(1,2)] table_not_frame [OF ok n(1,2) m(1,2)] entry_addr_page [OF n(3)]
    unfolding keeps_def user_word_def by metis
qed

section \<open>Write faults\<close>

text \<open>
  A frame the kernel keeps for itself: below 1 MB, or counted and neither a page table nor a page of a process.
\<close>

definition kernel_frame :: "mm \<Rightarrow> u32 \<Rightarrow> bool" where
  "kernel_frame s p \<longleftrightarrow>
     p < LOW_MEM \<or>
     page_refs s p \<noteq> 0 \<and>
     (\<forall>m. space_used s m \<longrightarrow> table_of s m \<noteq> p \<and> (\<forall>j < USER_PAGES. page_of (entry_of s m j) \<noteq> p))"

text \<open>
  What a write fault of space \<open>n\<close> on its page \<open>k\<close> promises: afterwards the page is writable and not shared,
  and no space sees any difference.
\<close>

definition unshared :: "mm \<Rightarrow> nat \<Rightarrow> nat \<Rightarrow> mm \<Rightarrow> bool" where
  "unshared s n k s' \<longleftrightarrow>
     spaces_ok s' \<and> space_used s' = space_used s \<and>
     bit (entry_of s' n k) 1 \<and> LOW_MEM \<le> page_of (entry_of s' n k) \<and>
     (\<forall>m j w. space_used s m \<longrightarrow> j < USER_PAGES \<longrightarrow> w < 1024 \<longrightarrow> user_word s' m j w = user_word s m j w) \<and>
     card (free_set s) \<le> card (free_set s') + 1 \<and>
     (\<forall>p. page_aligned p \<longrightarrow> kernel_frame s p \<longrightarrow> kernel_frame s' p) \<and>
     (\<forall>m j. space_used s m \<longrightarrow> j < 1024 \<longrightarrow> \<not> (m = n \<and> j = k) \<longrightarrow> entry_of s' m j = entry_of s m j)"

lemma spaces_okD:
  assumes "spaces_ok s"
  shows "tables_inv (space_used s) (table_of s) (page_refs s)"
    "entries_inv (space_used s) (table_of s) (entry_of s) (page_refs s)"
  using assms by (simp_all add: spaces_ok_def)

lemma wp_keeps:
  assumes ok: "spaces_ok s" and n: "space_used s n" "k < 1024" and kp: "keeps s (entry_addr s n k) s'"
    and e: "pmem s' (entry_addr s n k) = e"
  shows "space_used s' = space_used s" "table_of s' = table_of s"
    "space_used s m \<Longrightarrow> j < 1024 \<Longrightarrow> entry_of s' m j = (if m = n \<and> j = k then e else entry_of s m j)"
proof -
  have "page_of (entry_addr s n k) \<noteq> 0"
    using spaces_ok_tables(2) [OF ok n(1)] entry_addr_page [OF n(2)] by simp
  note d = keeps_dir [OF kp this]
  show "space_used s' = space_used s" "table_of s' = table_of s" using d by simp_all
  have "entry_of s' n k = e" using d(3) e by (simp add: entry_of_addr)
  then show "space_used s m \<Longrightarrow> j < 1024 \<Longrightarrow> entry_of s' m j = (if m = n \<and> j = k then e else entry_of s m j)"
    using keeps_entries [OF ok n kp] by simp
qed

lemma un_wp_page_own:
  assumes ok: "spaces_ok s" and n: "space_used s n" "n \<noteq> 0" "k < USER_PAGES"
    and own: "LOW_MEM \<le> page_of (entry_of s n k)" "page_refs s (page_of (entry_of s n k)) = 1"
  shows "unshared s n k (un_wp_page (entry_addr s n k) s)"
proof -
  let ?te = "entry_addr s n k"
  define s' where "s' = un_wp_page ?te s"
  note k = user_page_less [OF n(3)] and inv = spaces_okD [OF ok]
  have s': "s' = s\<lparr>pmem := (pmem s)(?te := entry_of s n k OR 2), cr3_loads := cr3_loads s + 1\<rparr>"
    using un_wp_page_exclusive [of s ?te] own by (simp add: s'_def entry_of_addr)
  have kp: "keeps s ?te s'" and e: "pmem s' ?te = entry_of s n k OR 2" and R: "page_refs s' = page_refs s"
    by (simp_all add: s' keeps_def page_refs_def fun_eq_iff)
  note E = wp_keeps [OF ok n(1) k kp e]
  have "entries_inv (space_used s) (table_of s) (entry_of s') (page_refs s)"
    using entries_inv_exclusive [OF inv n(1,3) own E(3)] by blast
  then have "spaces_ok s'" using inv(1) E(1,2) R by (simp add: spaces_ok_def)
  moreover have pg: "page_of (entry_of s' m j) = page_of (entry_of s m j)"
    if "space_used s m" "j < USER_PAGES" for m j
    using E(3) [OF that(1) user_page_less [OF that(2)]] page_of_flag(1) by simp
  moreover have "user_word s' m j w = user_word s m j w"
    if "space_used s m" "j < USER_PAGES" "w < 1024" for m j w
    using keeps_words [OF ok n(1,2) k kp that] pg [OF that(1,2)] by (simp add: user_word_def)
  moreover have "bit (entry_of s' n k) 1" using E(3) [OF n(1) k] by (simp add: bit_simps)
  moreover have "free_set s' = free_set s" by (simp add: s' free_set_def)
  moreover have "kernel_frame s p \<Longrightarrow> kernel_frame s' p" for p
    using E(1,2) R pg by (auto simp: kernel_frame_def)
  ultimately show ?thesis
    using E(1,3) own(1) n unfolding unshared_def s'_def [symmetric] by simp
qed

lemma wp_kernel_frame:
  assumes n: "space_used s n" "k < USER_PAGES"
    and R: "copied_refs (page_of (entry_of s n k)) new (page_refs s) (page_refs s')"
    and E: "space_used s' = space_used s" "table_of s' = table_of s"
      "\<And>m j. space_used s m \<Longrightarrow> j < 1024 \<Longrightarrow> entry_of s' m j = (if m = n \<and> j = k then new OR 7 else entry_of s m j)"
    and p: "page_aligned p" "kernel_frame s p"
  shows "kernel_frame s' p"
proof (cases "p < LOW_MEM")
  case False
  then have kf: "page_refs s p \<noteq> 0" "\<And>m. space_used s m \<Longrightarrow> table_of s m \<noteq> p"
      "\<And>m j. space_used s m \<Longrightarrow> j < USER_PAGES \<Longrightarrow> page_of (entry_of s m j) \<noteq> p"
    using p(2) unfolding kernel_frame_def by blast+
  note new = copied_refsD [OF R]
  have "p \<noteq> new" "p \<noteq> page_of (entry_of s n k)" using kf(1,3) new(3) n by metis+
  then show ?thesis
    using new(5) [OF p(1)] kf E page_of_OR7 [OF new(1)] user_page_less
    unfolding kernel_frame_def by simp
qed (simp add: kernel_frame_def)

lemma un_wp_page_copy:
  assumes ok: "spaces_ok s" and n: "space_used s n" "n \<noteq> 0" "k < USER_PAGES" and free: "has_free_page s"
    and other: "\<not> (LOW_MEM \<le> page_of (entry_of s n k) \<and> page_refs s (page_of (entry_of s n k)) = 1)"
  shows "unshared s n k (un_wp_page (entry_addr s n k) s)"
proof -
  let ?te = "entry_addr s n k" and ?old = "page_of (entry_of s n k)"
  define s' where "s' = un_wp_page ?te s"
  note k = user_page_less [OF n(3)] and inv = spaces_okD [OF ok]
  have "live s (page_of ?te)" using spaces_ok_tables(1) [OF ok n(1)] entry_addr_page [OF k] by simp
  moreover have "live s ?old" using spaces_ok_frames [OF ok n(1,3)] .
  ultimately obtain new where new: "page_aligned new" "page_refs s new = 0" "LOW_MEM \<le> new"
      "pmem s' ?te = new OR 7" "page_refs s' new = 1"
      "\<forall>j < 1024. pmem s' (new + 4 * of_nat j) = pmem s (?old + 4 * of_nat j)"
      "\<forall>a. a \<noteq> ?te \<longrightarrow> \<not> in_page new a \<longrightarrow> pmem s' a = pmem s a"
      "\<forall>p. page_aligned p \<longrightarrow> p \<noteq> new \<longrightarrow>
        page_refs s' p = (if p = ?old \<and> LOW_MEM \<le> p then page_refs s p - 1 else page_refs s p)"
    using un_wp_page_cow [OF free, of ?te] other unfolding s'_def entry_of_addr by blast
  have kp: "keeps s ?te s'"
    unfolding keeps_def using new(1-3,7) not_in_page_other by (metis live_def not_less)
  note E = wp_keeps [OF ok n(1) k kp new(4)]
  have R: "copied_refs ?old new (page_refs s) (page_refs s')"
    using new(1-3,5,8) by (simp add: copied_refs_def)
  have "entries_inv (space_used s) (table_of s) (entry_of s') (page_refs s')"
    using entries_inv_copied [OF inv n R E(3)] .
  moreover have "tables_inv (space_used s) (table_of s) (page_refs s')"
    using tables_inv_copied [OF inv n(1,3) table_of_aligned R] .
  ultimately have "spaces_ok s'" using E(1,2) by (simp add: spaces_ok_def)
  moreover have "user_word s' m j w = user_word s m j w"
    if "space_used s m" "j < USER_PAGES" "w < 1024" for m j w
    using keeps_words [OF ok n(1,2) k kp that] E(3) [OF that(1) user_page_less [OF that(2)]] new(1,6) that(3)
      page_of_OR7 by (auto simp: user_word_def)
  moreover have "bit (entry_of s' n k) 1" "page_of (entry_of s' n k) = new"
    using E(3) [OF n(1) k] bit_OR7 page_of_OR7 [OF new(1)] by simp_all
  moreover have "card (free_set s) \<le> card (free_set s') + 1"
  proof (rule free_set_taken)
    fix p assume "page_aligned p" "p \<noteq> new" "page_refs s p = 0"
    then show "page_refs s' p = 0"
      using copied_refsD(5) [OF R] high_frame(2) [OF inv n(1,3)] by metis
  qed
  moreover have "kernel_frame s' p" if "page_aligned p" "kernel_frame s p" for p
    using wp_kernel_frame [OF n(1,3) R E that] .
  ultimately show ?thesis
    using E(1,3) new(3) unfolding unshared_def s'_def [symmetric] by simp
qed

lemma un_wp_page_unshares:
  assumes "spaces_ok s" "space_used s n" "n \<noteq> 0" "k < USER_PAGES" "has_free_page s"
  shows "unshared s n k (un_wp_page (entry_addr s n k) s)"
  using un_wp_page_own [OF assms(1-4)] un_wp_page_copy [OF assms] by blast

section \<open>Stores and allocations\<close>

lemma writable_high:
  assumes "spaces_ok s" "space_used s n" "n \<noteq> 0" "k < USER_PAGES" "bit (entry_of s n k) 1"
  shows "LOW_MEM \<le> page_of (entry_of s n k)"
  using entries_invD(1) [OF spaces_okD(2) [OF assms(1)] assms(2,4)] assms(3,5) unfolding entry_inv_def by blast

lemma store_spaces:
  fixes v :: u32
  assumes ok: "spaces_ok s" and n: "space_used s n" "n \<noteq> 0" "k < USER_PAGES" "w < 1024"
    and wr: "bit (entry_of s n k) 1"
  defines "s' \<equiv> store s (page_of (entry_of s n k) + 4 * of_nat w) v"
  shows "spaces_ok s'" "space_used s' = space_used s"
    "space_used s m \<Longrightarrow> j < USER_PAGES \<Longrightarrow> u < 1024 \<Longrightarrow>
       user_word s' m j u = (if m = n \<and> j = k \<and> u = w then v else user_word s m j u)"
    "space_used s m \<Longrightarrow> j < 1024 \<Longrightarrow> entry_of s' m j = entry_of s m j"
    "kernel_frame s p \<Longrightarrow> kernel_frame s' p"
proof -
  let ?p = "page_of (entry_of s n k)"
  let ?a = "?p + 4 * of_nat w"
  have high: "LOW_MEM \<le> ?p" using writable_high [OF ok n(1-3) wr] .
  have pa: "page_of ?a = ?p" using page_of_word [OF page_of_aligned n(4)] .
  have mem: "pmem s' a = (if a = ?a then v else pmem s a)" for a by (simp add: s'_def store_def)
  have off: "pmem s' a = pmem s a" if "page_of a \<noteq> ?p" for a using that pa mem by auto
  have kp: "keeps s ?a s'" by (simp add: keeps_def mem)
  have "page_of ?a \<noteq> 0" using high pa by auto
  note d = keeps_dir [OF kp this]
  show U: "space_used s' = space_used s" using d(1) .
  have tb: "table_of s m \<noteq> ?p" if "space_used s m" for m
    using table_not_frame [OF ok that _ n(1,3)] tables_invD(4) [OF spaces_okD(1) [OF ok]] high
    by (metis not_less)
  show E: "entry_of s' m j = entry_of s m j" if "space_used s m" "j < 1024" for m j
    using off entry_addr_page [OF that(2)] tb [OF that(1)] by (simp add: entry_of_addr d(3))
  have R: "page_refs s' = page_refs s" by (simp add: s'_def store_def page_refs_def fun_eq_iff)
  have "entries_inv (space_used s) (table_of s) (entry_of s') (page_refs s)"
    using entries_inv_cong [OF spaces_okD(2) [OF ok] E] .
  then show "spaces_ok s'" using spaces_okD(1) [OF ok] d R by (simp add: spaces_ok_def)
  show "kernel_frame s p \<Longrightarrow> kernel_frame s' p"
    using d(1,2) R E user_page_less by (auto simp: kernel_frame_def)
  show "user_word s' m j u = (if m = n \<and> j = k \<and> u = w then v else user_word s m j u)"
    if m: "space_used s m" "j < USER_PAGES" "u < 1024"
  proof (cases "page_of (entry_of s m j) = ?p")
    case True
    have jk: "j = k" using entries_invD(2) [OF spaces_okD(2) [OF ok] m(1) n(1) m(2) n(3)] True high by metis
    have "sharers (space_used s) (entry_of s) k ?p = {n}"
      using high_frame(5) [OF spaces_okD [OF ok] n(1,3) high wr] .
    then have "m = n" using m(1) True jk by (auto simp: sharers_def set_eq_iff)
    then show ?thesis
      using jk E [OF n(1) user_page_less [OF n(3)]] word_offset_inject [OF m(3) n(4)]
      by (auto simp: user_word_def mem)
  next
    case False
    have "page_of (page_of (entry_of s m j) + 4 * of_nat u) = page_of (entry_of s m j)"
      using page_of_word [OF page_of_aligned m(3)] .
    then show ?thesis
      using False off E [OF m(1) user_page_less [OF m(2)]] by (auto simp: user_word_def)
  qed
qed

lemma get_free_page_spaces:
  assumes ok: "spaces_ok s" and free: "has_free_page s"
  defines "s' \<equiv> snd (get_free_page s)"
  shows "spaces_ok s'" "space_used s' = space_used s"
    "space_used s m \<Longrightarrow> j < USER_PAGES \<Longrightarrow> u < 1024 \<Longrightarrow> user_word s' m j u = user_word s m j u"
    "space_used s m \<Longrightarrow> j < 1024 \<Longrightarrow> entry_of s' m j = entry_of s m j"
    "page_aligned p \<Longrightarrow> kernel_frame s p \<or> p = fst (get_free_page s) \<Longrightarrow> kernel_frame s' p"
proof -
  have kept: "pmem s' a = pmem s a" if "live s (page_of a)" for a
    using live_word_kept [OF free that] gfp.alloc_word [OF free] by (simp add: s'_def)
  have "pmem s' (dir_index la) = pmem s (dir_index la)" for la
    using kept dir_index_page live_0 by metis
  then have d: "space_used s' = space_used s" "table_of s' = table_of s" "entry_addr s' = entry_addr s"
    by (simp_all add: space_used_def table_of_def entry_addr_def fun_eq_iff)
  show "space_used s' = space_used s" using d(1) .
  show E: "entry_of s' m j = entry_of s m j" if "space_used s m" "j < 1024" for m j
    using kept spaces_ok_tables(1) [OF ok that(1)] entry_addr_page [OF that(2)] by (simp add: entry_of_addr d(3))
  show "user_word s' m j u = user_word s m j u" if "space_used s m" "j < USER_PAGES" "u < 1024"
    using kept spaces_ok_frames [OF ok that(1,2)] page_of_word [OF page_of_aligned that(3)]
      E [OF that(1) user_page_less [OF that(2)]] by (simp add: user_word_def)
  let ?new = "fst (get_free_page s)"
  have new: "LOW_MEM \<le> ?new" "page_refs s ?new = 0"
    using new_page_high [OF free] gfp.alloc_fresh [OF free] by auto
  have R: "page_refs s' p = (if p = ?new then 1 else page_refs s p)" if "page_aligned p" for p
    using gfp.alloc_refs [OF free that] by (simp add: s'_def)
  note inv = spaces_okD [OF ok]
  show "kernel_frame s' p" if "page_aligned p" "kernel_frame s p \<or> p = ?new" for p
    using that(2) R [OF that(1)] d E user_page_less new table_not_new [OF inv(1) _ new] new_unmapped [OF inv _ _ new]
    by (auto simp: kernel_frame_def)
  have "tables_inv (space_used s) (table_of s) (page_refs s')"
    using tables_inv_alloc [OF inv(1) new(2)] R table_of_aligned by blast
  moreover have "entries_inv (space_used s) (table_of s) (entry_of s) (page_refs s')"
    using entries_inv_alloc [OF inv new] R page_of_aligned by blast
  then have "entries_inv (space_used s) (table_of s) (entry_of s') (page_refs s')"
    using entries_inv_cong E by blast
  ultimately show "spaces_ok s'" using d by (simp add: spaces_ok_def)
qed

section \<open>Copying the page table of a space\<close>

lemma MAP_NR_high: "LOW_MEM \<le> x \<Longrightarrow> MAP_NR x = uint (drop_bit 12 x) - 0x100"
proof -
  assume x: "LOW_MEM \<le> x"
  have "uint (x - LOW_MEM) = uint x - 0x100000" using uint_minus [OF x] by simp
  then show ?thesis
    unfolding MAP_NR_def drop_bit_eq_div uint_div using x by (simp add: word_le_def)
qed

lemma shared_frame:
  assumes "bit e 0" "LOW_MEM \<le> page_of e"
  shows "entry_frame e = MAP_NR (page_of e)"
proof -
  have "drop_bit 20 (ro e) = drop_bit 20 (page_of e)" "drop_bit 12 (ro e) = drop_bit 12 (page_of e)"
    unfolding page_of_def ro_def u32_bitwise by (simp_all add: bit_simps)
  then have "MAP_NR (ro e) = MAP_NR (page_of e)"
    using assms(2) MAP_NR_high low_mem_bits by metis
  then show ?thesis by (simp add: entry_frame_def MAP_NR_def)
qed

lemma length_filter_unique:
  assumes "\<And>i j. i < n \<Longrightarrow> j < n \<Longrightarrow> P i \<Longrightarrow> P j \<Longrightarrow> i = j"
  shows "length (filter P [0..<n]) = (if \<exists>j < n. P j then 1 else 0)"
proof (cases "\<exists>j < n. P j")
  case True
  then obtain j where j: "j < n" "P j" by blast
  then have "{i. i < n \<and> P i} = {j}" using assms by blast
  moreover have "length (filter P [0..<n]) = card {i. i < n \<and> P i}"
    by (simp add: distinct_card [symmetric])
  ultimately show ?thesis using True by simp
qed (auto simp: filter_empty_conv)

lemma child_base_0: "n < NR_TASKS \<Longrightarrow> child_base n = 0 \<longleftrightarrow> n = 0"
proof
  assume n: "n < NR_TASKS" "child_base n = 0"
  have "dir_index (child_base n) = dir_index (child_base 0)" using n(2) by (simp add: child_base_def)
  then show "n = 0" using dir_index_child_inject [of n 0] n(1) by simp
qed (simp add: child_base_def)

text \<open>The entries that \<^verbatim>\<open>copy_page_tables\<close> counts for one frame.\<close>

lemma counted_entries:
  assumes ok: "spaces_ok s" and n: "space_used s n" and p: "page_aligned p"
  defines "nr \<equiv> (if child_base n = 0 then 0xA0 else 1024)"
  shows "frame_count s (table_of s n) [0..<nr] (MAP_NR p) =
    (if \<exists>j < USER_PAGES. shared (entry_of s n j) \<and> page_of (entry_of s n j) = p then 1 else 0)"
proof -
  note inv = spaces_okD [OF ok]
  have nt: "n < NR_TASKS" using n by (simp add: space_used_def)
  have high: "LOW_MEM \<le> page_of (entry_of s n j)" "MAP_NR p = entry_frame (entry_of s n j) \<longleftrightarrow> page_of (entry_of s n j) = p"
    if "j < USER_PAGES" "shared (entry_of s n j)" for j
  proof -
    have b: "bit (entry_of s n j) 0" using entry_present [OF inv(2) n that(1)] .
    then show "LOW_MEM \<le> page_of (entry_of s n j)" using shared_iff that(2) by blast
    then show "MAP_NR p = entry_frame (entry_of s n j) \<longleftrightarrow> page_of (entry_of s n j) = p"
      using shared_frame [OF b] MAP_NR_inject [OF p page_of_aligned] by auto
  qed
  have up: "j < USER_PAGES" if "j < nr" "shared (entry_of s n j)" for j
  proof (rule ccontr)
    assume "\<not> j < USER_PAGES"
    then have "n \<noteq> 0" "j < 1024"
      using that(1) child_base_0 [OF nt] by (auto simp: nr_def USER_PAGES_def split: if_splits)
    then show False using entries_invD(4) [OF inv(2) n] that(2) \<open>\<not> j < USER_PAGES\<close> by simp
  qed
  define P where "P j \<longleftrightarrow> shared (entry_of s n j) \<and> page_of (entry_of s n j) = p" for j
  have "shared (entry_of s n j) \<and> entry_frame (entry_of s n j) = MAP_NR p \<longleftrightarrow> P j" if "j < nr" for j
    using up [OF that] high(2) unfolding P_def by metis
  then have "frame_count s (table_of s n) [0..<nr] (MAP_NR p) = length (filter P [0..<nr])"
    unfolding frame_count_def entry_of_def [symmetric]
    by (intro arg_cong [where f = length] filter_cong) auto
  also have "\<dots> = (if \<exists>j < nr. P j then 1 else 0)"
  proof (rule length_filter_unique)
    fix i j assume ij: "i < nr" "j < nr" "P i" "P j"
    then have u: "i < USER_PAGES" "j < USER_PAGES" using up by (auto simp: P_def)
    show "i = j" using entries_invD(2) [OF inv(2) n n u] high(1) [OF u(1)] ij(3,4) unfolding P_def by metis
  qed
  also have "(\<exists>j < nr. P j) \<longleftrightarrow> (\<exists>j < USER_PAGES. P j)"
  proof -
    have "USER_PAGES \<le> nr" by (simp add: nr_def USER_PAGES_def)
    then show ?thesis using up unfolding P_def by (metis order_less_le_trans)
  qed
  finally show ?thesis by (simp add: P_def)
qed


text \<open>\<^verbatim>\<open>copy_page_tables\<close> from one space to an unused one.\<close>

definition same_words :: "mm \<Rightarrow> nat \<Rightarrow> mm \<Rightarrow> nat \<Rightarrow> bool" where
  "same_words s n s' m \<longleftrightarrow>
     (\<forall>j < USER_PAGES. page_of (entry_of s' m j) = page_of (entry_of s n j) \<and>
        (page_of (entry_of s n j) \<noteq> 0 \<longrightarrow> (\<forall>w < 1024. user_word s' m j w = user_word s n j w)))"

definition table_copied :: "mm \<Rightarrow> nat \<Rightarrow> nat \<Rightarrow> u32 \<Rightarrow> mm \<Rightarrow> bool" where
  "table_copied s n c tt s' \<longleftrightarrow>
     pmem s' (dir_index (child_base c)) = tt OR 7 \<and>
     (\<forall>j < 1024. pte_at s' tt j = (if j < USER_PAGES then ro (entry_of s n j) else 0)) \<and>
     (\<forall>j < 1024. pte_at s' (table_of s n) j =
        (if j < USER_PAGES \<and> shared (entry_of s n j) then ro (entry_of s n j) else entry_of s n j)) \<and>
     (\<forall>a. a \<noteq> dir_index (child_base c) \<longrightarrow> page_of a \<noteq> table_of s n \<longrightarrow> page_of a \<noteq> tt \<longrightarrow>
        pmem s' a = pmem s a) \<and>
     forked_refs (entry_of s) n tt (page_refs s) (page_refs s')"

lemma copied_tables:
  assumes ok: "spaces_ok s" and n: "space_used s n" and c: "c < NR_TASKS" "\<not> space_used s c"
    and sz: "drop_bit 22 (sz + 0x3fffff) = 1" and free: "has_free_page s"
  shows "\<exists>s'. copy_page_tables (child_base n) (child_base c) sz s = Inr (0, s') \<and>
    table_copied s n c (fst (get_free_page s)) s'"
proof -
  define tt where "tt = fst (get_free_page s)"
  let ?nr = "if child_base n = 0 then 0xA0 else 1024 :: nat"
  note inv = spaces_okD [OF ok]
  have nt: "n < NR_TASKS" "bit (pmem s (dir_index (child_base n))) 0" using n by (simp_all add: space_used_def)
  have ab: "\<not> bit (pmem s (dir_index (child_base c))) 0" using c by (simp add: space_used_def)
  note t = spaces_ok_tables [OF ok n, unfolded table_of_def]
  obtain s' where s': "copy_page_tables (child_base n) (child_base c) sz s = Inr (0, s')"
    "pmem s' (dir_index (child_base c)) = tt OR 7"
    "\<forall>j < 1024. pte_at s' tt j = (if j < ?nr then ro (entry_of s n j) else 0)"
    "\<forall>j < 1024. pte_at s' (table_of s n) j =
       (if j < ?nr \<and> shared (entry_of s n j) then ro (entry_of s n j) else entry_of s n j)"
    "\<forall>a. a \<noteq> dir_index (child_base c) \<longrightarrow> \<not> in_page (table_of s n) a \<longrightarrow> \<not> in_page tt a \<longrightarrow> pmem s' a = pmem s a"
    "\<forall>i. mem_map s' i = ((mem_map s)(last_free s := 1)) i + of_nat (frame_count s (table_of s n) [0..<?nr] i)"
    using copy_page_tables_effect [OF child_base_aligned child_base_aligned sz free nt(2) ab t]
    unfolding table_of_def [symmetric] tt_def entry_of_def by blast
  have tt: "page_aligned tt" "LOW_MEM \<le> tt" "page_refs s tt = 0"
    using gfp.alloc_aligned [OF free] new_page_high [OF free] gfp.alloc_fresh [OF free] by (simp_all add: tt_def)
  have z: "entry_of s n j = 0" if "USER_PAGES \<le> j" "j < 1024" "n \<noteq> 0" for j
    using entries_invD(4) [OF inv(2) n that(3,1,2)] .
  have "j < ?nr \<longleftrightarrow> j < USER_PAGES \<or> n \<noteq> 0" if "j < 1024" for j
    using child_base_0 [OF nt(1)] that by (simp add: USER_PAGES_def)
  then have "\<forall>j < 1024. pte_at s' tt j = (if j < USER_PAGES then ro (entry_of s n j) else 0)"
    "\<forall>j < 1024. pte_at s' (table_of s n) j =
       (if j < USER_PAGES \<and> shared (entry_of s n j) then ro (entry_of s n j) else entry_of s n j)"
    using s'(3,4) z by (auto simp: not_less)
  moreover have "page_refs s' p = (if p = tt then 1 else page_refs s p) +
      (if \<exists>j < USER_PAGES. shared (entry_of s n j) \<and> page_of (entry_of s n j) = p then 1 else 0)"
    if p: "page_aligned p" for p
  proof -
    have "MAP_NR p = last_free s \<longleftrightarrow> p = tt"
      using MAP_NR_last_free [OF free] MAP_NR_inject [OF p tt(1)] by (auto simp: tt_def get_free_page_eq)
    moreover have "(of_nat (frame_count s (table_of s n) [0..<?nr] (MAP_NR p)) :: u8) =
        (if \<exists>j < USER_PAGES. shared (entry_of s n j) \<and> page_of (entry_of s n j) = p then 1 else 0)"
      unfolding counted_entries [OF ok n p] by auto
    ultimately show ?thesis using s'(6) by (simp only: page_refs_def fun_upd_apply)
  qed
  then have "forked_refs (entry_of s) n tt (page_refs s) (page_refs s')"
    using tt new_unmapped [OF inv n _ tt(2,3)] unfolding forked_refs_def by auto
  moreover have "pmem s' a = pmem s a"
    if "a \<noteq> dir_index (child_base c)" "page_of a \<noteq> table_of s n" "page_of a \<noteq> tt" for a
    using s'(5) that not_in_page_other [OF tt(1)] not_in_page_other [OF table_of_aligned] by metis
  ultimately show ?thesis using s'(1,2) unfolding table_copied_def tt_def by blast
qed

lemma table_copiedD:
  assumes "table_copied s n c tt s'"
  shows "pmem s' (dir_index (child_base c)) = tt OR 7"
    "j < 1024 \<Longrightarrow> pte_at s' tt j = (if j < USER_PAGES then ro (entry_of s n j) else 0)"
    "j < 1024 \<Longrightarrow> pte_at s' (table_of s n) j =
       (if j < USER_PAGES \<and> shared (entry_of s n j) then ro (entry_of s n j) else entry_of s n j)"
    "a \<noteq> dir_index (child_base c) \<Longrightarrow> page_of a \<noteq> table_of s n \<Longrightarrow> page_of a \<noteq> tt \<Longrightarrow> pmem s' a = pmem s a"
    "forked_refs (entry_of s) n tt (page_refs s) (page_refs s')"
  using assms by (auto simp: table_copied_def)

lemma table_copied_spaces:
  assumes ok: "spaces_ok s" and n: "space_used s n" and c: "c < NR_TASKS"
    and cp: "table_copied s n c tt s'"
  shows "space_used s' m \<longleftrightarrow> m = c \<or> space_used s m"
    "space_used s' m \<Longrightarrow> table_of s' m = (if m = c then tt else table_of s m)"
proof -
  note s' = table_copiedD [OF cp] and tt = forked_refsD [OF table_copiedD(5) [OF cp]]
  have nz: "tt \<noteq> 0" "table_of s n \<noteq> 0" using tt(2) spaces_ok_tables(2) [OF ok n] by auto
  have dir: "pmem s' (dir_index (child_base m)) = (if m = c then tt OR 7 else pmem s (dir_index (child_base m)))"
    if "m < NR_TASKS" for m
    using s'(1,4) nz dir_index_child_inject [of m c] dir_index_page that c by (cases "m = c") auto
  show "space_used s' m \<longleftrightarrow> m = c \<or> space_used s m" 
    using dir [of m] c bit_OR7(1) by (auto simp: space_used_def)
  show "space_used s' m \<Longrightarrow> table_of s' m = (if m = c then tt else table_of s m)"
    using dir [of m] page_of_OR7 [OF tt(1)] by (auto simp: table_of_def space_used_def)
qed

lemma table_copied_maps:
  assumes ok: "spaces_ok s" and n: "space_used s n" and c: "c < NR_TASKS" "\<not> space_used s c"
    and cp: "table_copied s n c tt s'"
  shows "forked_maps (space_used s) (entry_of s) n c (space_used s') (entry_of s')"
proof -
  note s' = table_copiedD [OF cp] and tt = forked_refsD [OF table_copiedD(5) [OF cp]]
  note U = table_copied_spaces [OF ok n c(1) cp] and inv = spaces_okD [OF ok]
  have "entry_of s' m j =
      (if m = c then if j < USER_PAGES then ro (entry_of s n j) else 0
       else if m = n \<and> j < USER_PAGES \<and> shared (entry_of s n j) then ro (entry_of s n j) else entry_of s m j)"
    if m: "space_used s' m" "j < 1024" for m j
  proof -
    consider "m = c" | "m \<noteq> c" "m = n" | "m \<noteq> c" "m \<noteq> n" "space_used s m" using m(1) U(1) by blast
    then show ?thesis
    proof cases
      case 3
      then have "page_of (entry_addr s m j) \<noteq> table_of s n" "page_of (entry_addr s m j) \<noteq> tt"
        "page_of (entry_addr s m j) \<noteq> 0"
        using entry_addr_page [OF m(2)] table_not_new [OF inv(1) 3(3) tt(2,3)]
          tables_invD(7) [OF inv(1) 3(3) n] spaces_ok_tables(2) [OF ok] by auto
      then have "pmem s' (entry_addr s m j) = pmem s (entry_addr s m j)"
        using s'(4) dir_index_page by metis
      then show ?thesis using 3 U(2) [OF m(1)] by (simp add: entry_of_addr entry_addr_def)
    qed (use s'(2,3) U(2) [OF m(1)] m(2) n c(2) in \<open>auto simp: entry_of_def\<close>)
  qed
  then show ?thesis unfolding forked_maps_def using n c(2) U(1) by blast
qed

lemma table_copied_words:
  assumes ok: "spaces_ok s" and n: "space_used s n" and cp: "table_copied s n c tt s'"
    and m: "space_used s m" "j < USER_PAGES" "w < 1024" "page_of (entry_of s m j) \<noteq> 0"
  shows "pmem s' (page_of (entry_of s m j) + 4 * of_nat w) = user_word s m j w"
proof -
  let ?p = "page_of (entry_of s m j)"
  note s' = table_copiedD [OF cp] and tt = forked_refsD [OF table_copiedD(5) [OF cp]]
  note inv = spaces_okD [OF ok]
  have pa: "page_of (?p + 4 * of_nat w) = ?p" using page_of_word [OF page_of_aligned m(3)] .
  show ?thesis
  proof (cases "?p = table_of s n")
    case False
    moreover have "?p \<noteq> tt" using new_unmapped [OF inv m(1,2) tt(2,3)] .
    ultimately show ?thesis using s'(4) pa m(4) dir_index_page unfolding user_word_def by metis
  next
    case True
    then have n0: "n = 0" using table_not_frame [OF ok n _ m(1,2)] by blast
    have "\<not> shared (entry_of s n i)" if "i < USER_PAGES" for i
      using high_frame(3) [OF inv n that] shared_iff [OF entry_present [OF inv(2) n that]] n0 by blast
    then have "pte_at s' (table_of s n) w = entry_of s n w" using s'(3) [OF m(3)] by auto
    then show ?thesis using True by (simp add: user_word_def entry_of_def pte_at_def)
  qed
qed

lemma copied_kernel_frame:
  assumes ok: "spaces_ok s" and n: "space_used s n" and c: "c < NR_TASKS" "\<not> space_used s c"
    and cp: "table_copied s n c tt s'" and p: "page_aligned p" "kernel_frame s p"
  shows "kernel_frame s' p"
proof (cases "p < LOW_MEM")
  case False
  then have k: "page_refs s p \<noteq> 0" "\<And>m. space_used s m \<Longrightarrow> table_of s m \<noteq> p"
      "\<And>m j. space_used s m \<Longrightarrow> j < USER_PAGES \<Longrightarrow> page_of (entry_of s m j) \<noteq> p"
    using p(2) unfolding kernel_frame_def by blast+
  note U = table_copied_spaces [OF ok n c(1) cp] and f = table_copied_maps [OF ok n c cp]
    and r = forked_refsD [OF table_copiedD(5) [OF cp]]
  have "p \<noteq> tt" using k(1) r(3) by metis
  then have "page_refs s' p \<noteq> 0" using r(5) [OF p(1)] k(1) k(3) [OF n] by auto
  moreover have "table_of s' m \<noteq> p" if "space_used s' m" for m
    using U(2) [OF that] k(2) U(1) that \<open>p \<noteq> tt\<close> by auto
  moreover have "page_of (entry_of s' m j) \<noteq> p" if "space_used s' m" "j < USER_PAGES" for m j
    using forked_mapsD(5) [OF f that] k(3) U(1) that n by auto
  ultimately show ?thesis unfolding kernel_frame_def by blast
qed (simp add: kernel_frame_def)

lemma copy_page_tables_spaces:
  assumes ok: "spaces_ok s" and n: "space_used s n" and c: "c < NR_TASKS" "\<not> space_used s c"
    and sz: "drop_bit 22 (sz + 0x3fffff) = 1" and free: "has_free_page s"
  shows "\<exists>s'. copy_page_tables (child_base n) (child_base c) sz s = Inr (0, s') \<and> spaces_ok s' \<and>
    (\<forall>m. space_used s' m \<longleftrightarrow> m = c \<or> space_used s m) \<and>
    same_words s n s' c \<and> (\<forall>m. space_used s m \<longrightarrow> same_words s m s' m) \<and>
    card (free_set s) \<le> card (free_set s') + 1 \<and>
    (\<forall>p. page_aligned p \<longrightarrow> kernel_frame s p \<longrightarrow> kernel_frame s' p)"
proof -
  note inv = spaces_okD [OF ok]
  obtain s' where s': "copy_page_tables (child_base n) (child_base c) sz s = Inr (0, s')"
      "table_copied s n c (fst (get_free_page s)) s'"
    using copied_tables [OF assms] by blast
  note U = table_copied_spaces [OF ok n c(1) s'(2)] and f = table_copied_maps [OF ok n c s'(2)]
    and r = table_copiedD(5) [OF s'(2)]
  have "spaces_ok s'"
    using forked_tables [OF inv table_of_aligned f r c(1) U(2)] forked_entries [OF inv f r U(2)]
    by (simp add: spaces_ok_def)
  moreover have sw: "same_words s (if m = c then n else m) s' m" if "space_used s' m" for m
  proof -
    have "space_used s (if m = c then n else m)" using that U(1) n by auto
    note w = table_copied_words [OF ok n s'(2) this]
    show ?thesis
      using forked_mapsD(5) [OF f that] w unfolding same_words_def user_word_def by simp
  qed
  moreover have "kernel_frame s' p" if p: "page_aligned p" "kernel_frame s p" for p
    using copied_kernel_frame [OF ok n c s'(2) p] .
  moreover have "same_words s n s' c" using sw [of c] U(1) by simp
  moreover have "same_words s m s' m" if "space_used s m" for m
  proof -
    have "m \<noteq> c" using that c(2) by blast
    then show ?thesis using sw [of m] U(1) that by simp
  qed
  moreover have "card (free_set s) \<le> card (free_set s') + 1"
  proof (rule free_set_taken)
    fix p assume p: "page_aligned p" "p \<noteq> fst (get_free_page s)" "page_refs s p = 0"
    have "page_of (entry_of s n j) \<noteq> p" if "j < USER_PAGES" "shared (entry_of s n j)" for j
      using high_frame(2) [OF inv n that(1)] shared_iff [OF entry_present [OF inv(2) n that(1)]] that(2) p(3)
      by metis
    then show "page_refs s' p = 0" using forked_refsD(5) [OF r p(1,2)] p(3) by auto
  qed
  ultimately show ?thesis using s'(1) U(1) by blast
qed

end
