(* ===== verification/Isolation.thy ===== *)
theory Isolation
  imports Address_Space
begin

text \<open>
  The memories that the processes see.  The words of one address space, read through its page table, are
  the abstract memory of that process; \<open>contents\<close> takes it out of the physical memory.  A store of a process
  (with the write fault that \<^verbatim>\<open>do_wp_page\<close> serves when the page is read-only) and a \<^verbatim>\<open>fork\<close> refine the
  obvious operations on abstract memories: the store changes one word of one memory, the fork gives the child the
  memory of the parent.  A store of task 0 is different: its pages lie below 1 MB, where the fork leaves them
  writable, and every process that has not yet written such a page itself sees the store.  For sequences of
  stores and forks it follows what a process reads: what it has itself written last, or, in a page it still
  has in common with task 0, what task 0 has.

  Frame 0, the page directory, which appears as page 0 of task 0 and its children, is left out of the abstract
  memories: a fork writes it.  A store of task 0 to it or to page 1, the page table of task 0, is no step
  here.  The kernel's own data, which also lies below 1 MB, is in records of its own: stores of task 0 are meant for
  words that hold none of it, and stores of the kernel to its data are not seen in the memories.  Processes
  store through their own data segment; the selector \<^verbatim>\<open>0x1b\<close>, which reaches all linear addresses, is not
  considered.
\<close>

section \<open>Memories\<close>

text \<open>
  A read and a write of a user program at a linear address, by the processor: the entry of the address gives the
  frame, a write to an entry without the write bit raises the page fault that \<^verbatim>\<open>do_wp_page\<close>
  serves, with error code 7 (present, write, user), and is repeated.
\<close>

definition user_read :: "u32 \<Rightarrow> mm \<Rightarrow> u32" where
  "user_read la s = pmem s (page_of (pte_of la s) + (la AND 0xffc))"

definition user_write :: "u32 \<Rightarrow> u32 \<Rightarrow> mm \<Rightarrow> mm" where
  "user_write la v s =
     (let s = (if bit (pte_of la s) 1 then s else do_wp_page 7 la s)
      in store s (page_of (pte_of la s) + (la AND 0xffc)) v)"

type_synonym memories = "nat \<Rightarrow> u32 \<Rightarrow> u32 option"

definition user_offset :: "u32 \<Rightarrow> bool" where
  "user_offset off \<longleftrightarrow> off < 0xA0000 \<and> off AND 3 = 0"

definition contents :: "mm \<Rightarrow> memories" where
  "contents s n off =
     (if space_used s n \<and> user_offset off \<and> page_of (pte_of (child_base n + off) s) \<noteq> 0
      then Some (user_read (child_base n + off) s) else None)"

text \<open>Page \<open>k\<close> of process \<open>n\<close> is still the frame of task 0.\<close>

definition low_page :: "mm \<Rightarrow> nat \<Rightarrow> nat \<Rightarrow> bool" where
  "low_page s n k \<longleftrightarrow> space_used s n \<and> k < USER_PAGES \<and> page_of (entry_of s n k) < LOW_MEM"

definition page_ix :: "u32 \<Rightarrow> nat" where
  "page_ix off = unat (drop_bit 12 off)"

definition word_ix :: "u32 \<Rightarrow> nat" where
  "word_ix off = unat (drop_bit 2 off AND 0x3ff)"

lemma ix_bounds: "user_offset off \<Longrightarrow> page_ix off < USER_PAGES" "word_ix off < 1024" "user_offset off \<Longrightarrow> off < 0x400000"
proof -
  have "drop_bit 2 off AND 0x3ff \<le> (0x3ff :: u32)" by (rule word_and_le1)
  then show "word_ix off < 1024" by (simp add: word_ix_def word_le_nat_alt)
  show "user_offset off \<Longrightarrow> page_ix off < USER_PAGES"
    by (simp add: user_offset_def page_ix_def USER_PAGES_def drop_bit_eq_div unat_div word_less_nat_alt div_less_iff_less_mult)
  show "user_offset off \<Longrightarrow> off < 0x400000" by (simp add: user_offset_def word_less_nat_alt)
qed

lemma ix_inject:
  assumes "user_offset x" "user_offset y"
  shows "page_ix x = page_ix y \<and> word_ix x = word_ix y \<longleftrightarrow> x = y"
proof
  assume "page_ix x = page_ix y \<and> word_ix x = word_ix y"
  then have "drop_bit 12 x = drop_bit 12 y" "drop_bit 2 x AND 0x3ff = drop_bit 2 y AND 0x3ff"
    by (simp_all add: page_ix_def word_ix_def word_unat_eq_iff)
  then show "x = y"
    using assms unfolding user_offset_def u32_bitwise by (simp add: bit_simps)
qed simp

lemma user_translate:
  assumes "user_offset off"
  shows "lin2phy (child_base n + off) s = entry_addr s n (page_ix off)"
    "pte_of (child_base n + off) s = entry_of s n (page_ix off)"
    "(child_base n + off) AND 0xffc = 4 * of_nat (word_ix off)"
proof -
  note off = ix_bounds(3) [OF assms]
  have "lin2phy la s = page_of (pmem s (dir_index la)) + 4 * of_nat (table_index la)" for la
    by (simp add: lin2phy_eq dir_index_def table_index_def)
  then show l: "lin2phy (child_base n + off) s = entry_addr s n (page_ix off)"
    using region_index [OF child_base_aligned off] by (simp only: entry_addr_def table_of_def page_ix_def)
  show "pte_of (child_base n + off) s = entry_of s n (page_ix off)"
    by (simp add: pte_of_def l entry_of_addr)
  show "(child_base n + off) AND 0xffc = 4 * of_nat (word_ix off)"
  proof -
    have "(child_base n + off) AND 0x3fffff = off AND 0x3fffff"
      using mask_eqs(1) [of "child_base n" 22 off] child_base_aligned [of n] by (simp add: mask_numeral)
    then have "(child_base n + off) AND 0xffc = off AND 0xffc"
      unfolding u32_bitwise by (simp add: bit_simps)
    also have "\<dots> = push_bit 2 (drop_bit 2 off AND 0x3ff)"
      unfolding u32_bitwise by (simp add: bit_simps)
    finally show ?thesis by (simp add: word_ix_def push_bit_eq_mult mult.commute)
  qed
qed

lemma contents_eq:
  "contents s n off =
     (if space_used s n \<and> user_offset off \<and> page_of (entry_of s n (page_ix off)) \<noteq> 0
      then Some (user_word s n (page_ix off) (word_ix off)) else None)"
  by (auto simp: contents_def user_read_def user_translate user_word_def)

lemma do_wp_page_user:
  "user_offset off \<Longrightarrow> do_wp_page err (child_base n + off) s = un_wp_page (entry_addr s n (page_ix off)) s"
  by (simp add: do_wp_page_lin2phy user_translate)

text \<open>
  The specification: a store and a fork on abstract memories.  A page without contents (the page directory) may
  hold anything after a store to it; a child may have contents there as well.
\<close>

definition mem_write :: "nat \<Rightarrow> u32 \<Rightarrow> u32 \<Rightarrow> memories \<Rightarrow> memories \<Rightarrow> bool" where
  "mem_write n off v A A' \<longleftrightarrow>
     A' n off = Some v \<and> (\<forall>m. m \<noteq> n \<longrightarrow> A' m = A m) \<and>
     (\<forall>x. x \<noteq> off \<longrightarrow> A n x \<noteq> None \<longrightarrow> A' n x = A n x)"

definition mem_fork :: "nat \<Rightarrow> nat \<Rightarrow> memories \<Rightarrow> memories \<Rightarrow> bool" where
  "mem_fork n c A A' \<longleftrightarrow>
     A c = (\<lambda>_. None) \<and> (\<forall>m. m \<noteq> c \<longrightarrow> A' m = A m) \<and> (\<forall>x. A n x \<noteq> None \<longrightarrow> A' c x = A n x)"

text \<open>A store of task 0 is seen wherever the page is still its frame.\<close>

definition task_0_write :: "u32 \<Rightarrow> u32 \<Rightarrow> (nat \<Rightarrow> nat \<Rightarrow> bool) \<Rightarrow> memories \<Rightarrow> memories \<Rightarrow> bool" where
  "task_0_write off v Z A A' \<longleftrightarrow>
     (\<forall>m x. A' m x = (if x = off \<and> Z m (page_ix off) then Some v else A m x))"

lemma unshared_contents:
  assumes "unshared s n k s'" "k < USER_PAGES"
  shows "m \<noteq> n \<Longrightarrow> contents s' m = contents s m"
    "contents s n x \<noteq> None \<Longrightarrow> contents s' n x = contents s n x"
proof -
  have u: "space_used s' = space_used s" "LOW_MEM \<le> page_of (entry_of s' n k)"
    "\<And>m j w. space_used s m \<Longrightarrow> j < USER_PAGES \<Longrightarrow> w < 1024 \<Longrightarrow> user_word s' m j w = user_word s m j w"
    "\<And>m j. space_used s m \<Longrightarrow> j < 1024 \<Longrightarrow> \<not> (m = n \<and> j = k) \<Longrightarrow> entry_of s' m j = entry_of s m j"
    using assms(1) unfolding unshared_def by blast+
  show "contents s' m = contents s m" if "m \<noteq> n"
    using that u(1,3,4) ix_bounds user_page_less by (auto simp: contents_eq fun_eq_iff)
  have "page_of (entry_of s' n (page_ix x)) \<noteq> 0"
    if "space_used s n" "user_offset x" "page_of (entry_of s n (page_ix x)) \<noteq> 0"
    using that u(2,4) ix_bounds(1) user_page_less by (cases "page_ix x = k") auto
  then show "contents s n x \<noteq> None \<Longrightarrow> contents s' n x = contents s n x"
    using u(1,3) ix_bounds by (auto simp: contents_eq split: if_splits)
qed

lemma unshared_low_page:
  assumes "unshared s n k s'"
  shows "low_page s' = (low_page s)(n := (low_page s n)(k := False))"
proof -
  have "low_page s' m j = ((low_page s)(n := (low_page s n)(k := False))) m j" for m j
    using assms user_page_less unfolding unshared_def low_page_def by (cases "m = n \<and> j = k") auto
  then show ?thesis by (simp add: fun_eq_iff)
qed

lemma store_contents:
  fixes v :: u32
  assumes ok: "spaces_ok s" and n: "space_used s n" "n \<noteq> 0" "user_offset off"
    and wr: "bit (entry_of s n (page_ix off)) 1"
  defines "s' \<equiv> store s (page_of (entry_of s n (page_ix off)) + 4 * of_nat (word_ix off)) v"
  shows "spaces_ok s'" "mem_write n off v (contents s) (contents s')"
proof -
  note st = store_spaces [where v = v, OF ok n(1,2) ix_bounds(1) [OF n(3)] ix_bounds(2) [of off] wr, folded s'_def]
  show "spaces_ok s'" using st(1) .
  have "page_of (entry_of s n (page_ix off)) \<noteq> 0"
    using writable_high [OF ok n(1,2) ix_bounds(1) [OF n(3)] wr] by auto
  moreover have c: "contents s' m x = (if m = n \<and> x = off then Some v else contents s m x)"
    if "\<not> (m = n \<and> x = off) \<or> page_of (entry_of s n (page_ix off)) \<noteq> 0" for m x
    using that st(2,3,4) ix_bounds ix_inject [OF _ n(3)] user_page_less n by (auto simp: contents_eq)
  ultimately show "mem_write n off v (contents s) (contents s')"
    unfolding mem_write_def by auto
qed



lemma page_ix_page: "4096 * of_nat (page_ix off) = page_of off"
proof -
  have "push_bit 12 (drop_bit 12 off) = page_of off" unfolding page_of_def u32_bitwise by (simp add: bit_simps)
  then show ?thesis by (simp add: page_ix_def push_bit_eq_mult mult.commute)
qed

text \<open>A write fault on a page that cannot be written needs a free frame, unless the frame is not shared.\<close>

definition fault_frame :: "mm \<Rightarrow> nat \<Rightarrow> u32 \<Rightarrow> bool" where
  "fault_frame s n off \<longleftrightarrow> bit (pte_of (child_base n + off) s) 1 \<or> has_free_page s"

definition served :: "mm \<Rightarrow> nat \<Rightarrow> nat \<Rightarrow> mm \<Rightarrow> bool" where
  "served s n k s' \<longleftrightarrow>
     spaces_ok s' \<and> space_used s' = space_used s \<and> bit (entry_of s' n k) 1 \<and>
     (\<forall>m. m \<noteq> n \<longrightarrow> contents s' m = contents s m) \<and>
     (\<forall>x. contents s n x \<noteq> None \<longrightarrow> contents s' n x = contents s n x) \<and>
     low_page s' = (low_page s)(n := (low_page s n)(k := False)) \<and>
     card (free_set s) \<le> card (free_set s') + 1 \<and>
     (\<forall>p. page_aligned p \<longrightarrow> kernel_frame s p \<longrightarrow> kernel_frame s' p)"

lemma fault_served:
  assumes ok: "spaces_ok s" and n: "space_used s n" "n \<noteq> 0" "user_offset off" and free: "fault_frame s n off"
  defines "k \<equiv> page_ix off"
  shows "served s n k (if bit (entry_of s n k) 1 then s else un_wp_page (entry_addr s n k) s)"
proof -
  note k = ix_bounds(1) [OF n(3), folded k_def]
  show ?thesis
  proof (cases "bit (entry_of s n k) 1")
    case True
    then have "\<not> low_page s n k" using writable_high [OF ok n(1,2) k] by (simp add: low_page_def not_less)
    then show ?thesis using True ok by (simp add: served_def fun_upd_idem)
  next
    case False
    then have "has_free_page s" using free user_translate(2) [OF n(3)] by (simp add: fault_frame_def k_def)
    then have un: "unshared s n k (un_wp_page (entry_addr s n k) s)"
      using un_wp_page_unshares [OF ok n(1,2) k] by simp
    show ?thesis
      using False un unshared_contents [OF un k] unshared_low_page [OF un]
      unfolding served_def by (simp add: unshared_def)
  qed
qed

lemma user_write_refines:
  fixes v :: u32
  assumes ok: "spaces_ok s" and n: "space_used s n" "n \<noteq> 0" "user_offset off" and free: "fault_frame s n off"
  defines "s' \<equiv> user_write (child_base n + off) v s"
  shows "spaces_ok s'" "mem_write n off v (contents s) (contents s')" "space_used s' = space_used s"
    "card (free_set s) \<le> card (free_set s') + 1" "page_aligned p \<Longrightarrow> kernel_frame s p \<Longrightarrow> kernel_frame s' p"
    "low_page s' = (low_page s)(n := (low_page s n)(page_ix off := False))"
proof -
  let ?k = "page_ix off"
  define s1 where "s1 = (if bit (entry_of s n ?k) 1 then s else un_wp_page (entry_addr s n ?k) s)"
  note k = ix_bounds(1) [OF n(3)]
  have s': "s' = store s1 (page_of (entry_of s1 n ?k) + 4 * of_nat (word_ix off)) v"
    by (simp add: s'_def user_write_def Let_def user_translate [OF n(3)] do_wp_page_user [OF n(3)] s1_def)
  have "served s n ?k s1" unfolding s1_def using fault_served [OF ok n free] .
  then have s1: "spaces_ok s1" "space_used s1 = space_used s" "bit (entry_of s1 n ?k) 1"
      "\<And>m. m \<noteq> n \<Longrightarrow> contents s1 m = contents s m" "\<And>x. contents s n x \<noteq> None \<Longrightarrow> contents s1 n x = contents s n x"
      "low_page s1 = (low_page s)(n := (low_page s n)(?k := False))" "card (free_set s) \<le> card (free_set s1) + 1"
      "\<And>p. page_aligned p \<Longrightarrow> kernel_frame s p \<Longrightarrow> kernel_frame s1 p"
    unfolding served_def by blast+
  have u1: "space_used s1 n" using n(1) s1(2) by simp
  note st = store_contents [where v = v, OF s1(1) u1 n(2,3) s1(3), folded s']
    and sp = store_spaces [where v = v, OF s1(1) u1 n(2) k ix_bounds(2) [of off] s1(3), folded s']
  show "spaces_ok s'" using st(1) .
  show "mem_write n off v (contents s) (contents s')"
    using st(2) s1(4,5) unfolding mem_write_def by metis
  show "space_used s' = space_used s" using sp(2) s1(2) by simp
  show "kernel_frame s' p" if "page_aligned p" "kernel_frame s p" using s1(8) [OF that] sp(5) by blast
  have "free_set s' = free_set s1" by (simp add: s' store_def free_set_def)
  then show "card (free_set s) \<le> card (free_set s') + 1" using s1(7) by simp
  have "low_page s' = low_page s1"
    using sp(2,4) user_page_less by (auto simp: low_page_def fun_eq_iff)
  then show "low_page s' = (low_page s)(n := (low_page s n)(?k := False))" using s1(6) by simp
qed

text \<open>Stores of task 0, to pages that hold neither the page directory nor its page table.\<close>

lemma task_0_frame:
  assumes "spaces_ok s" "user_offset off"
  shows "page_of (pte_of off s) = 4096 * of_nat (page_ix off)" "bit (pte_of off s) 1"
proof -
  have u: "space_used s 0" using tables_invD(1) [OF spaces_okD(1) [OF assms(1)]] .
  have "pte_of off s = entry_of s 0 (page_ix off)" using user_translate(2) [OF assms(2), of 0] by (simp add: child_base_def)
  then show "page_of (pte_of off s) = 4096 * of_nat (page_ix off)" "bit (pte_of off s) 1"
    using entries_invD(1) [OF spaces_okD(2) [OF assms(1)] u ix_bounds(1) [OF assms(2)]]
    unfolding entry_inv_def by auto
qed

lemma low_page_frame:
  assumes "spaces_ok s" "space_used s m" "j < USER_PAGES"
  shows "low_page s m j \<longleftrightarrow> page_of (entry_of s m j) = 4096 * of_nat j"
  using entries_invD(1) [OF spaces_okD(2) [OF assms(1)] assms(2,3)] low_frame [OF assms(3)] assms(2,3)
  unfolding entry_inv_def low_page_def by (metis not_less)

lemma frame_inject:
  assumes "j < USER_PAGES" "k < USER_PAGES"
  shows "(4096 * of_nat j :: u32) = 4096 * of_nat k \<longleftrightarrow> j = k"
proof -
  have "unat (4096 * of_nat i :: u32) = 4096 * i" if "i < USER_PAGES" for i
    using that by (simp add: USER_PAGES_def unat_word_ariths unat_of_nat)
  then show ?thesis using assms by (metis mult_left_cancel zero_neq_numeral)
qed

definition task_0_word :: "u32 \<Rightarrow> bool" where
  "task_0_word off \<longleftrightarrow> user_offset off \<and> page_of off \<noteq> 0 \<and> page_of off \<noteq> 0x1000"

lemma task_0_write_spaces:
  fixes v :: u32
  assumes ok: "spaces_ok s" and off: "task_0_word off"
  defines "s' \<equiv> user_write off v s" and "a \<equiv> page_of off + 4 * of_nat (word_ix off)"
  shows "spaces_ok s'" "space_used s' = space_used s" "free_set s' = free_set s" "kernel_frame s p \<Longrightarrow> kernel_frame s' p"
    "pmem s' = (pmem s)(a := v)" "space_used s m \<Longrightarrow> j < 1024 \<Longrightarrow> entry_of s' m j = entry_of s m j"
proof -
  have o: "user_offset off" "page_of off \<noteq> 0" "page_of off \<noteq> 0x1000" using off by (simp_all add: task_0_word_def)
  note k = ix_bounds(1) [OF o(1)]
  have w: "off AND 0xffc = 4 * of_nat (word_ix off)" using user_translate(3) [OF o(1), of 0] by (simp add: child_base_def)
  have pa: "page_of a = page_of off" using page_of_word [OF page_of_aligned ix_bounds(2)] by (simp add: a_def)
  have s': "s' = store s a v"
    using task_0_frame [OF ok o(1)] page_ix_page w by (simp add: s'_def user_write_def Let_def a_def)
  show mem: "pmem s' = (pmem s)(a := v)" by (simp add: s' store_def fun_upd_def)
  have "keeps s a s'" by (simp add: keeps_def mem)
  from keeps_dir [OF this] pa o(2) have d: "space_used s' = space_used s" "table_of s' = table_of s" "entry_addr s' = entry_addr s"
    by simp_all
  show "space_used s' = space_used s" using d(1) .
  have tb: "table_of s m \<noteq> page_of off" if "space_used s m" for m
    using tables_invD(5) [OF spaces_okD(1) [OF ok] that] tables_invD(8) [OF spaces_okD(1) [OF ok]] o(3)
      low_frame [OF k] page_ix_page [of off] by (cases "m = 0") (simp, metis not_less)
  show E: "entry_of s' m j = entry_of s m j" if "space_used s m" "j < 1024" for m j
    using entry_addr_page [OF that(2), of s m] tb [OF that(1)] pa by (auto simp: entry_of_addr d(3) mem)
  have R: "page_refs s' = page_refs s" by (simp add: s' store_def page_refs_def fun_eq_iff)
  have "entries_inv (space_used s) (table_of s) (entry_of s') (page_refs s)"
    using entries_inv_cong [OF spaces_okD(2) [OF ok] E] .
  then show "spaces_ok s'" using spaces_okD(1) [OF ok] d R by (simp add: spaces_ok_def)
  show "kernel_frame s p \<Longrightarrow> kernel_frame s' p"
    using d(1,2) R E user_page_less by (auto simp: kernel_frame_def)
  show "free_set s' = free_set s" by (simp add: s' store_def free_set_def)
qed

lemma task_0_write_refines:
  fixes v :: u32
  assumes ok: "spaces_ok s" and off: "task_0_word off"
  defines "s' \<equiv> user_write off v s"
  shows "low_page s' = low_page s" "task_0_write off v (low_page s) (contents s) (contents s')"
proof -
  note t = task_0_write_spaces [where v = v, OF ok off, folded s'_def]
  have o: "user_offset off" "page_of off \<noteq> 0" using off by (simp_all add: task_0_word_def)
  note k = ix_bounds(1) [OF o(1)]
  show "low_page s' = low_page s" using t(2,6) user_page_less by (auto simp: low_page_def fun_eq_iff)
  have "contents s' m x = (if x = off \<and> low_page s m (page_ix off) then Some v else contents s m x)" for m x
  proof (cases "space_used s m \<and> user_offset x")
    case True
    then have x: "page_ix x < USER_PAGES" "space_used s m" "user_offset x" using ix_bounds(1) by blast+
    let ?e = "page_of (entry_of s m (page_ix x))"
    have e: "entry_of s' m (page_ix x) = entry_of s m (page_ix x)" using t(6) x user_page_less by blast
    have pe: "page_of (?e + 4 * of_nat (word_ix x)) = ?e" "page_of (page_of off + 4 * of_nat (word_ix off)) = page_of off"
      using page_of_word [OF page_of_aligned ix_bounds(2)] by blast+
    have "?e + 4 * of_nat (word_ix x) = page_of off + 4 * of_nat (word_ix off) \<longleftrightarrow> x = off \<and> low_page s m (page_ix off)"
    proof
      assume a: "?e + 4 * of_nat (word_ix x) = page_of off + 4 * of_nat (word_ix off)"
      then have eo: "?e = 4096 * of_nat (page_ix off)" using pe page_ix_page by metis
      then have "?e < LOW_MEM" using low_frame [OF k] by simp
      then have l: "low_page s m (page_ix x)" using x by (simp add: low_page_def)
      then have "page_ix x = page_ix off" using low_page_frame [OF ok x(2,1)] eo frame_inject [OF x(1) k] by simp
      moreover have "word_ix x = word_ix off"
        using a eo page_ix_page word_offset_inject [OF ix_bounds(2) ix_bounds(2)] by simp
      ultimately show "x = off \<and> low_page s m (page_ix off)" using ix_inject [OF x(3) o(1)] l by simp
    next
      assume "x = off \<and> low_page s m (page_ix off)"
      then show "?e + 4 * of_nat (word_ix x) = page_of off + 4 * of_nat (word_ix off)"
        using low_page_frame [OF ok x(2) k] page_ix_page by simp
    qed
    moreover have "?e \<noteq> 0" if "x = off \<and> low_page s m (page_ix off)"
      using that low_page_frame [OF ok x(2) k] page_ix_page o(2) by simp
    ultimately show ?thesis using x e t(2,5) by (auto simp: contents_eq user_word_def)
  next
    case False
    then show ?thesis using t(2) o(1) by (auto simp: contents_eq low_page_def)
  qed
  then show "task_0_write off v (low_page s) (contents s) (contents s')" by (simp add: task_0_write_def)
qed

section \<open>Fork\<close>

text \<open>
  What a fork of task \<open>n\<close> into slot \<open>c\<close> needs: the parent's segments lie at its place and the slot
  has no page table; three frames are free (for the descriptor, the page table and the child's stack); the stack
  pointer is inside the 640 KB of the segment.
\<close>

definition fork_space_ready :: "nat \<Rightarrow> nat \<Rightarrow> syscall_frame \<Rightarrow> kernel \<Rightarrow> bool" where
  "fork_space_ready n c r k \<longleftrightarrow>
     space_used (kmm k) n \<and> parent_base k = child_base n \<and> c < NR_TASKS \<and> \<not> space_used (kmm k) c \<and>
     segments_ok k \<and> family_ok k \<and> 3 \<le> card (free_set (kmm k)) \<and> 0 < r_esp r \<and> r_esp r \<le> 0xA0000"

lemma fork_space_fork_ready:
  assumes "spaces_ok (kmm k)" "fork_space_ready n c r k"
  shows "fork_ready c k"
proof -
  note t = spaces_ok_tables [OF assms(1), of n, unfolded table_of_def]
  have "has_free_page (kmm k)" "2 \<le> card (free_set (kmm k) - {last_free (kmm k)})"
    using free_set_least [of 2 "kmm k"] assms(2) by (auto simp: fork_space_ready_def)
  moreover from this have "has_free_page (snd (get_free_page (kmm k)))"
    using free_set_least(1) [of 1 "snd (get_free_page (kmm k))"] by (simp add: free_set_alloc)
  ultimately show ?thesis
    using assms(2) t
    by (auto simp: fork_ready_def fork_space_ready_def tables_ok_def space_used_def)
qed

lemma stack_page_user:
  assumes "0 < esp" "esp \<le> 0xA0000"
  shows "user_offset (stack_page esp)"
proof -
  have "stack_page esp \<le> esp - 1" by (simp add: stack_page_def word_and_le2)
  also have "esp - 1 < esp" using uint_minus [of 1 esp] assms(1) by (simp add: word_less_def word_le_def)
  finally have "stack_page esp < 0xA0000" using assms(2) by simp
  moreover have "stack_page esp AND 3 = 0"
    unfolding stack_page_def u32_bitwise by (simp add: bit_simps)
  ultimately show ?thesis by (simp add: user_offset_def)
qed

lemma same_words_contents:
  assumes "same_words s n s' m" "space_used s n" "space_used s' m"
  shows "contents s' m = contents s n"
  using assms ix_bounds unfolding same_words_def contents_eq fun_eq_iff by auto

lemma unused_contents: "\<not> space_used s n \<Longrightarrow> contents s n = (\<lambda>_. None)"
  by (simp add: contents_eq fun_eq_iff)

lemma get_free_page_contents:
  assumes "spaces_ok s" "has_free_page s"
  shows "contents (snd (get_free_page s)) = contents s"
proof -
  note a = get_free_page_spaces [OF assms]
  show ?thesis
    using a(2-4) ix_bounds user_page_less unfolding contents_eq fun_eq_iff by auto
qed

lemma copied_low_page:
  assumes "space_used s1 = space_used s" "\<And>i j. space_used s i \<Longrightarrow> j < USER_PAGES \<Longrightarrow> entry_of s1 i j = entry_of s i j"
    and "space_used s n" "\<forall>i. space_used m i \<longleftrightarrow> i = c \<or> space_used s i"
    and "same_words s1 n m c" "\<forall>i. space_used s i \<longrightarrow> same_words s1 i m i" and "\<not> space_used s c"
  shows "low_page m = (low_page s)(c := low_page s n)"
proof -
  have "low_page m i j = ((low_page s)(c := low_page s n)) i j" for i j
    using assms unfolding low_page_def same_words_def by (cases "i = c") auto
  then show ?thesis by (simp add: fun_eq_iff)
qed

lemma copy_process_spaces:
  assumes ok: "spaces_ok (kmm k)" and ready: "fork_space_ready n c r k"
  shows "\<exists>k'. copy_process c r k = Inr (last_pid k, k') \<and> spaces_ok (kmm k') \<and>
    (\<forall>m. space_used (kmm k') m \<longleftrightarrow> m = c \<or> space_used (kmm k) m) \<and>
    mem_fork n c (contents (kmm k)) (contents (kmm k')) \<and>
    bit (pte_of (child_base c + stack_page (r_esp r)) (kmm k')) 1 \<and>
    (\<forall>p. page_aligned p \<longrightarrow> kernel_frame (kmm k) p \<or> p = fst (get_free_page (kmm k)) \<longrightarrow>
       kernel_frame (kmm k') p) \<and>
    card (free_set (kmm k)) \<le> card (free_set (kmm k')) + 3 \<and>
    low_page (kmm k') = (low_page (kmm k))(c := (low_page (kmm k) n)(page_ix (stack_page (r_esp r)) := False))"
proof -
  let ?s = "kmm k" and ?sp = "stack_page (r_esp r)"
  let ?s1 = "snd (get_free_page ?s)"
  have r: "space_used ?s n" "parent_base k = child_base n" "c < NR_TASKS" "\<not> space_used ?s c"
    "drop_bit 22 (parent_limit k + 0x3fffff) = 1" "0 < r_esp r" "r_esp r \<le> 0xA0000" "2 < card (free_set ?s)"
    using ready by (auto simp: fork_space_ready_def segments_ok_def)
  note f = free_set_least(1) [OF r(8)] free_set_least(2) [OF r(8), of "last_free ?s"]
  note a = get_free_page_spaces [OF ok f(1)]
  have c1: "1 < card (free_set ?s1)" using f(2) by (simp add: free_set_alloc [OF f(1)])
  obtain m where m: "copy_page_tables (child_base n) (child_base c) (parent_limit k) ?s1 = Inr (0, m)"
      "spaces_ok m" "\<forall>i. space_used m i \<longleftrightarrow> i = c \<or> space_used ?s i"
      "same_words ?s1 n m c" "\<forall>i. space_used ?s i \<longrightarrow> same_words ?s1 i m i"
      "card (free_set ?s1) \<le> card (free_set m) + 1"
      "\<forall>p. page_aligned p \<longrightarrow> kernel_frame ?s1 p \<longrightarrow> kernel_frame m p"
    using copy_page_tables_spaces [OF a(1) _ r(3) _ r(5) free_set_least(1) [OF c1], unfolded a(2), OF r(1,4)]
    by blast
  have fm: "has_free_page m" using free_set_least(1) [of 0 m] c1 m(6) by simp
  obtain k' where k': "copy_process c r k = Inr (last_pid k, k')"
      "kmm k' = un_wp_page (lin2phy (stack_address (r_esp r) (child_base c)) m) m"
    using copy_process_eq [OF fork_space_fork_ready [OF ok ready], of m r] m(1) r(2) by auto
  note sp = stack_page_user [OF r(6,7)]
  have e: "r_esp r \<le> 0x400000" using r(7) by (simp add: word_le_nat_alt)
  have km: "kmm k' = un_wp_page (entry_addr m c (page_ix ?sp)) m"
    using k'(2) stack_address_eq(1) [OF r(6) e] user_translate(1) [OF sp] by simp
  have c0: "c \<noteq> 0" using r(4) tables_invD(1) [OF spaces_okD(1) [OF ok]] by metis
  note um = un_wp_page_unshares [OF m(2) _ c0 ix_bounds(1) [OF sp] fm, folded km]
  have u: "unshared m c (page_ix ?sp) (kmm k')" using um m(3) by blast
  note uc = unshared_contents [OF u ix_bounds(1) [OF sp]]
  note ac = get_free_page_contents [OF ok f(1)]
  have "contents m c = contents ?s n"
    using same_words_contents [OF m(4)] a(2) r(1) m(3) ac by simp
  moreover have "contents m i = contents ?s i" if "i \<noteq> c" for i
    using same_words_contents [of ?s1 i m i] a(2) m(3,5) that ac unused_contents by metis
  ultimately have "mem_fork n c (contents ?s) (contents (kmm k'))"
    using uc unused_contents [OF r(4)] unfolding mem_fork_def by metis
  moreover have "card (free_set ?s) \<le> card (free_set (kmm k')) + 3"
    using f(2) m(6) u r(8) free_set_alloc [OF f(1)] free_set_finite [of ?s]
    by (auto simp: unshared_def card_Diff_singleton_if split: if_splits)
  moreover have "kernel_frame (kmm k') p" if "page_aligned p" "kernel_frame ?s p \<or> p = fst (get_free_page ?s)" for p
    using a(5) [OF that] m(7) that(1) u unfolding unshared_def by blast
  moreover have "low_page (kmm k') = (low_page ?s)(c := (low_page ?s n)(page_ix ?sp := False))"
    using unshared_low_page [OF u] copied_low_page [OF _ _ _ m(3-5)] a(2,4) r(1,4) user_page_less by simp
  moreover have "spaces_ok (kmm k')" "\<forall>i. space_used (kmm k') i \<longleftrightarrow> i = c \<or> space_used ?s i"
      "bit (pte_of (child_base c + ?sp) (kmm k')) 1"
    using u m(3) user_translate(2) [OF sp] unfolding unshared_def by simp_all
  ultimately show ?thesis using k'(1) by blast
qed

section \<open>Sequences of stores and forks\<close>

text \<open>
  Any order of stores of processes to words of their own 640 KB (of task 0: neither to the page directory nor to
  its page table), forks, and steps of the kernel that leave its memory management alone.  A store that faults
  needs a free frame.
\<close>

datatype space_event = Store nat u32 u32 | Forks nat nat | Elsewhere

definition can_store :: "mm \<Rightarrow> nat \<Rightarrow> u32 \<Rightarrow> bool" where
  "can_store s n off \<longleftrightarrow> (if n = 0 then task_0_word off else user_offset off \<and> fault_frame s n off)"

inductive space_step :: "kernel \<Rightarrow> space_event \<Rightarrow> kernel \<Rightarrow> bool" where
  store: "space_used (kmm k) n \<Longrightarrow> can_store (kmm k) n off \<Longrightarrow>
    space_step k (Store n off v) (k\<lparr>kmm := user_write (child_base n + off) v (kmm k)\<rparr>)"
| fork: "fork_space_ready n c r k \<Longrightarrow> copy_process c r k = Inr (pid, k') \<Longrightarrow> space_step k (Forks n c) k'"
| elsewhere: "kmm k' = kmm k \<Longrightarrow> space_step k Elsewhere k'"

inductive_cases space_step_cases: "space_step k e k'"

text \<open>The specification: the memories, and which pages are still those of task 0.\<close>

type_synonym views = "memories \<times> (nat \<Rightarrow> nat \<Rightarrow> bool)"

definition views_of :: "mm \<Rightarrow> views" where
  "views_of s = (contents s, low_page s)"

fun mem_step :: "views \<Rightarrow> space_event \<Rightarrow> views \<Rightarrow> bool" where
  "mem_step (A, Z) (Store n off v) (A', Z') =
     (if n = 0 then task_0_write off v Z A A' \<and> Z' = Z
      else mem_write n off v A A' \<and> Z' = Z(n := (Z n)(page_ix off := False)))"
| "mem_step (A, Z) (Forks n c) (A', Z') = (mem_fork n c A A' \<and> (\<exists>sp. Z' = Z(c := (Z n)(sp := False))))"
| "mem_step (A, Z) Elsewhere (A', Z') = (A' = A \<and> Z' = Z)"

lemma store_step:
  fixes v :: u32
  assumes "spaces_ok s" "space_used s n" "can_store s n off"
  defines "s' \<equiv> user_write (child_base n + off) v s"
  shows "spaces_ok s'" "mem_step (views_of s) (Store n off v) (views_of s')" "space_used s' = space_used s"
    "page_aligned p \<Longrightarrow> kernel_frame s p \<Longrightarrow> kernel_frame s' p"
proof -
  have "spaces_ok s' \<and> mem_step (views_of s) (Store n off v) (views_of s') \<and> space_used s' = space_used s \<and>
    (page_aligned p \<longrightarrow> kernel_frame s p \<longrightarrow> kernel_frame s' p)"
  proof (cases "n = 0")
    case True
    then have t: "task_0_word off" "s' = user_write off v s"
      using assms(3) by (simp_all add: can_store_def s'_def child_base_def)
    then show ?thesis
      using True task_0_write_spaces [OF assms(1) t(1)] task_0_write_refines [OF assms(1) t(1)] by (simp add: views_of_def)
  next
    case False
    then have "user_offset off" "fault_frame s n off" using assms(3) by (simp_all add: can_store_def)
    then show ?thesis
      using False user_write_refines [where v = v and off = off, OF assms(1,2) False] by (simp add: views_of_def s'_def)
  qed
  then show "spaces_ok s'" "mem_step (views_of s) (Store n off v) (views_of s')" "space_used s' = space_used s"
    "page_aligned p \<Longrightarrow> kernel_frame s p \<Longrightarrow> kernel_frame s' p" by blast+
qed

lemma space_step_refines:
  assumes "space_step k e k'" "spaces_ok (kmm k)"
  shows "spaces_ok (kmm k')" "mem_step (views_of (kmm k)) e (views_of (kmm k'))"
proof -
  have "spaces_ok (kmm k') \<and> mem_step (views_of (kmm k)) e (views_of (kmm k'))"
    using assms(1)
  proof cases
    case (store n off v)
    then show ?thesis using store_step(1,2) [OF assms(2)] by simp
  next
    case (fork n c r pid)
    then show ?thesis using copy_process_spaces [OF assms(2) fork(2)] by (auto simp: views_of_def)
  qed (use assms(2) in \<open>simp_all add: views_of_def\<close>)
  then show "spaces_ok (kmm k')" "mem_step (views_of (kmm k)) e (views_of (kmm k'))" by blast+
qed

interpretation spaces: event_refinement space_step "\<lambda>k. spaces_ok (kmm k)" "\<lambda>k. views_of (kmm k)" mem_step
  by unfold_locales (simp_all add: space_step_refines)

text \<open>
  The value of a word of process \<open>n\<close> after a sequence of events, when it was \<open>x\<close> before and the page was that of task
  0 or not (\<open>z\<close>): the last store counts that \<open>n\<close> itself made there, or task 0 while the page was its own.  With its
  first store to the page \<open>n\<close> gets a page of its own.
\<close>

fun last_store :: "nat \<Rightarrow> u32 \<Rightarrow> bool \<Rightarrow> u32 \<Rightarrow> space_event list \<Rightarrow> u32" where
  "last_store n off z x [] = x"
| "last_store n off z x (Store m y v # es) =
     last_store n off (z \<and> \<not> (m = n \<and> m \<noteq> 0 \<and> page_ix y = page_ix off))
       (if y = off \<and> (if m = 0 then z else m = n) then v else x) es"
| "last_store n off z x (Forks m c # es) = last_store n off z x es"
| "last_store n off z x (Elsewhere # es) = last_store n off z x es"

lemma mem_write_word:
  assumes "mem_write m y v A A'" "A n off = Some x"
  shows "A' n off = Some (if m = n \<and> y = off then v else x)"
proof (cases "n = m")
  case True
  then show ?thesis using assms unfolding mem_write_def by (cases "off = y") simp_all
qed (use assms in \<open>simp add: mem_write_def\<close>)

lemma mem_step_last_store:
  assumes "mem_step (A, Z) e (A1, Z1)" "A n off = Some x"
  obtains y where "A1 n off = Some y"
    "last_store n off (Z n (page_ix off)) x (e # es) = last_store n off (Z1 n (page_ix off)) y es"
proof (cases e)
  case (Store m y v)
  show ?thesis
  proof (cases "m = 0")
    case True
    then have "A1 n off = Some (if y = off \<and> Z n (page_ix off) then v else x)" "Z1 = Z"
      using assms Store by (auto simp: task_0_write_def)
    then show ?thesis using that True Store by simp
  next
    case False
    then have w: "mem_write m y v A A1" and "Z1 = Z(m := (Z m)(page_ix y := False))"
      using assms(1) Store by simp_all
    moreover note mem_write_word [OF w assms(2)]
    ultimately have "A1 n off = Some (if m = n \<and> y = off then v else x)" "Z1 = Z(m := (Z m)(page_ix y := False))"
      by blast+
    then show ?thesis using that False Store by (auto simp: conj_commute)
  qed
next
  case (Forks m c)
  then have f: "mem_fork m c A A1" "\<exists>sp. Z1 = Z(c := (Z m)(sp := False))" using assms(1) by simp_all
  then have "n \<noteq> c" using assms(2) by (auto simp: mem_fork_def)
  then have "A1 n off = Some x" "Z1 n = Z n" using f assms(2) by (auto simp: mem_fork_def)
  then show ?thesis using that Forks by simp
next
  case Elsewhere
  then show ?thesis using that assms by simp
qed

lemma mem_run_last_store:
  "events_run mem_step V es V' \<Longrightarrow> fst V n off = Some x \<Longrightarrow>
     fst V' n off = Some (last_store n off (snd V n (page_ix off)) x es)"
proof (induction arbitrary: x rule: events_run.induct)
  case (run_cons V e V1 es V')
  obtain A Z A1 Z1 where v: "V = (A, Z)" "V1 = (A1, Z1)" by fastforce
  obtain y where "A1 n off = Some y"
      "last_store n off (Z n (page_ix off)) x (e # es) = last_store n off (Z1 n (page_ix off)) y es"
    using mem_step_last_store [of A Z e A1 Z1 n off x es] run_cons.hyps(1) run_cons.prems v by auto
  then show ?case using run_cons.IH [of y] v by simp
qed simp

text \<open>On a page of its own only the stores of the process itself count.\<close>

lemma last_store_own:
  assumes "n \<noteq> 0" "\<forall>e \<in> set es. \<forall>v. e \<noteq> Store n off v"
  shows "last_store n off False x es = x"
  using assms(2) by (induction n off False x es rule: last_store.induct) (auto split: if_splits)

section \<open>The state after boot\<close>

lemma fresh_entry: "(of_nat (4096 * k + 7) :: u32) = 4096 * of_nat k OR 7"
proof -
  have "(of_nat (4096 * k + 7) :: u32) = push_bit 12 (of_nat k) + 7" by (simp add: push_bit_eq_mult mult.commute)
  also have "\<dots> = push_bit 12 (of_nat k) OR 7"
    by (rule disjunctive_add_eq_or) (unfold u32_bitwise, simp add: bit_simps)
  finally show ?thesis by (simp add: push_bit_eq_mult mult.commute)
qed

lemma page_number_aligned: "page_aligned (4096 * of_nat k)"
proof -
  have "page_aligned (push_bit 12 (of_nat k))" by (simp add: page_aligned_bits bit_simps)
  then show ?thesis by (simp add: push_bit_eq_mult mult.commute)
qed

text \<open>The tables that \<^verbatim>\<open>boot/head.s\<close> leaves: only task 0 has a space, and its pages are those below 640 KB.\<close>

definition fresh_tables :: "mm \<Rightarrow> bool" where
  "fresh_tables s \<longleftrightarrow>
     (\<forall>n < NR_TASKS. n \<noteq> 0 \<longrightarrow> \<not> bit (pmem s (dir_index (child_base n))) 0) \<and> pmem s 0 = 0x1007 \<and>
     (\<forall>k < USER_PAGES. pmem s (0x1000 + 4 * of_nat k) = of_nat (4096 * k + 7))"

lemma fresh_spaces:
  assumes "fresh_tables s"
  shows "space_used s n \<longleftrightarrow> n = 0" "spaces_ok s"
    "k < USER_PAGES \<Longrightarrow> page_of (entry_of s 0 k) = 4096 * of_nat k"
proof -
  have dir: "\<And>n. n < NR_TASKS \<Longrightarrow> n \<noteq> 0 \<Longrightarrow> \<not> bit (pmem s (dir_index (child_base n))) 0"
    and 0: "pmem s 0 = 0x1007"
    and ent: "\<And>k. k < USER_PAGES \<Longrightarrow> pmem s (0x1000 + 4 * of_nat k) = of_nat (4096 * k + 7)"
    using assms unfolding fresh_tables_def by blast+
  have d: "dir_index (child_base 0) = 0" by (simp add: dir_index_def child_base_def)
  show u: "space_used s n \<longleftrightarrow> n = 0" for n
    using dir [of n] 0 d by (cases "n = 0") (auto simp: space_used_def)
  have t: "table_of s 0 = 0x1000" using 0 d by (simp add: table_of_def page_of_def)
  have e: "entry_of s 0 k = 4096 * of_nat k OR 7" if "k < USER_PAGES" for k
    using ent [OF that] fresh_entry by (simp add: entry_of_def pte_at_def t)
  show p: "page_of (entry_of s 0 k) = 4096 * of_nat k" if "k < USER_PAGES" for k
    using e [OF that] page_of_OR7 [OF page_number_aligned] by simp
  have "entry_inv (space_used s) (entry_of s) (page_refs s) 0 k" if "k < USER_PAGES" for k
    using p [OF that] e [OF that] bit_OR7 by (simp add: entry_inv_def)
  moreover have "\<not> LOW_MEM \<le> page_of (entry_of s 0 k)" if "k < USER_PAGES" for k
    using p [OF that] low_frame [OF that] by (simp add: not_le)
  ultimately have "entries_inv (space_used s) (table_of s) (entry_of s) (page_refs s)"
    using u unfolding entries_inv_def by simp
  moreover have "tables_inv (space_used s) (table_of s) (page_refs s)"
    using u t by (simp add: tables_inv_def)
  ultimately show "spaces_ok s" by (simp add: spaces_ok_def)
qed

lemma boot_fresh: "fresh_tables boot_mm"
proof -
  have "\<not> bit (pmem boot_mm (dir_index (child_base n))) 0" if "n < NR_TASKS" "n \<noteq> 0" for n
  proof -
    have "unat (0x40 * of_nat n :: u32) = 64 * n" using that by (simp add: unat_word_ariths unat_of_nat)
    then show ?thesis
      using that by (simp add: dir_index_child boot_mm_simps boot_pmem_def word_less_nat_alt word_le_nat_alt)
  qed
  moreover have "pmem boot_mm (0x1000 + 4 * of_nat k) = of_nat (4096 * k + 7)" if "k < USER_PAGES" for k
  proof -
    have u: "unat (4 * of_nat k :: u32) = 4 * k" "k < 1024"
      using user_page_less [OF that] by (simp_all add: unat_word_ariths unat_of_nat)
    then show ?thesis
      by (simp add: boot_mm_simps boot_pmem_def word_less_nat_alt word_le_nat_alt unat_word_ariths unat_of_nat)
  qed
  moreover have "pmem boot_mm 0 = 0x1007" by (simp add: boot_mm_simps boot_pmem_def)
  ultimately show ?thesis unfolding fresh_tables_def by blast
qed

lemmas boot_spaces = fresh_spaces [OF boot_fresh]

lemma boot_contents:
  assumes "user_offset off" "0x5000 \<le> off"
  shows "contents boot_mm 0 off = Some 0"
proof -
  let ?k = "page_ix off"
  note k = user_page_less [OF ix_bounds(1) [OF assms(1)]]
  note p = boot_spaces(3) [OF ix_bounds(1) [OF assms(1)]]
  have u: "unat (4096 * of_nat ?k + 4 * of_nat (word_ix off) :: u32) = 4096 * ?k + 4 * word_ix off"
  proof -
    have "(4096 * of_nat ?k + 4 * of_nat (word_ix off) :: u32) = of_nat (4096 * ?k + 4 * word_ix off)" by simp
    also have "unat \<dots> = 4096 * ?k + 4 * word_ix off"
      using k ix_bounds(2) [of off] by (simp add: unat_of_nat del: of_nat_add of_nat_mult)
    finally show ?thesis .
  qed
  have "5 \<le> ?k" using assms(2) by (simp add: page_ix_def drop_bit_eq_div unat_div word_le_nat_alt)
  then have "pmem boot_mm (4096 * of_nat ?k + 4 * of_nat (word_ix off)) = 0"
    using u by (simp add: boot_mm_simps boot_pmem_def word_le_nat_alt word_less_nat_alt)
  moreover have "(4096 * of_nat ?k :: u32) \<noteq> 0"
  proof -
    have "unat (of_nat (4096 * ?k) :: u32) = 4096 * ?k" using k by (simp add: unat_of_nat del: of_nat_mult)
    then show ?thesis using \<open>5 \<le> ?k\<close> by auto
  qed
  ultimately show ?thesis using assms(1) boot_spaces(1) by (simp add: contents_eq user_word_def p)
qed

lemma boot_free: "card (free_set boot_mm) = 3072"
proof -
  have "free_set boot_mm = {768..<3840}" by (auto simp: free_set_def boot_mm_simps)
  then show ?thesis by simp
qed

lemma boot_fork_space_ready: "fork_space_ready 0 1 boot_frame boot_kernel"
  using boot_fork_ready
  by (simp add: fork_space_ready_def fork_ready_def boot_kernel_simps boot_spaces(1) boot_parent boot_free
      child_base_def boot_frame_def)

section \<open>Stores and forks refine the memories\<close>

text \<open>
  C6: a store of a process other than task 0 to a word of its 640 KB, with the page fault it may raise, for which a
  frame is free.  The
  invariant of the address spaces is kept, the process reads the value back, every other word of it that has
  contents and every word of all other processes are as before, whether the page was shared or not.
\<close>

theorem store_refines:
  fixes v :: u32
  assumes "spaces_ok s" "space_used s n" "n \<noteq> 0" "user_offset off"
    and "bit (pte_of (child_base n + off) s) 1 \<or> has_free_page s"
  defines "s' \<equiv> user_write (child_base n + off) v s"
  shows "spaces_ok s' \<and> contents s' n off = Some v \<and> (\<forall>m. m \<noteq> n \<longrightarrow> contents s' m = contents s m) \<and>
    (\<forall>x. x \<noteq> off \<longrightarrow> contents s n x \<noteq> None \<longrightarrow> contents s' n x = contents s n x)"
  using user_write_refines(1,2) [OF assms(1-4) assms(5) [folded fault_frame_def], of v] unfolding mem_write_def s'_def by blast

theorem store_refines_witness:
  "\<exists>k'. copy_process 1 boot_frame boot_kernel = Inr (1, k') \<and>
     contents (user_write 0x4005000 42 (kmm k')) 1 0x5000 = Some 42 \<and>
     contents (user_write 0x4005000 42 (kmm k')) 0 0x5000 = Some 0 \<and>
     contents (user_write 0x4005000 42 (kmm k')) 1 0x5004 = Some 0"
proof -
  have o: "user_offset 0x5000" "user_offset 0x5004" by (simp_all add: user_offset_def)
  have c: "contents boot_mm 0 x = Some 0" if "x \<in> {0x5000, 0x5004}" for x
    using boot_contents that o by fastforce
  obtain k' where k': "copy_process 1 boot_frame boot_kernel = Inr (1, k')" "spaces_ok (kmm k')"
      "space_used (kmm k') 1" "mem_fork 0 1 (contents boot_mm) (contents (kmm k'))"
      "card (free_set boot_mm) \<le> card (free_set (kmm k')) + 3"
    using copy_process_spaces [OF _ boot_fork_space_ready] boot_spaces(2) by (auto simp: boot_kernel_simps)
  have "has_free_page (kmm k')" using k'(5) free_set_least(1) [of 0] by (simp add: boot_free)
  from store_refines [OF k'(2,3) _ o(1) disjI2 [OF this], of 42] k'(1,4) c show ?thesis
    by (intro exI [of _ k']) (auto simp: child_base_def mem_fork_def)
qed

text \<open>
  C7: a fork of task \<open>n\<close> into the unused slot \<open>c\<close>, from any state that keeps the invariant of the address
  spaces.  \<^verbatim>\<open>copy_process\<close> succeeds and keeps the invariant; the child's memory is the parent's, all other
  memories are as they were, the child may write its stack page without a fault, and at most three frames are
  used.
\<close>

theorem fork_refines:
  assumes "spaces_ok (kmm k)" "fork_space_ready n c r k"
  shows "\<exists>k'. copy_process c r k = Inr (last_pid k, k') \<and> spaces_ok (kmm k') \<and>
    (\<forall>m. space_used (kmm k') m \<longleftrightarrow> m = c \<or> space_used (kmm k) m) \<and>
    (\<forall>m. m \<noteq> c \<longrightarrow> contents (kmm k') m = contents (kmm k) m) \<and>
    (\<forall>x. contents (kmm k) n x \<noteq> None \<longrightarrow> contents (kmm k') c x = contents (kmm k) n x) \<and>
    bit (pte_of (child_base c + stack_page (r_esp r)) (kmm k')) 1 \<and>
    card (free_set (kmm k)) \<le> card (free_set (kmm k')) + 3"
  using copy_process_spaces [OF assms] unfolding mem_fork_def by blast

theorem fork_refines_witness:
  "\<exists>k'. copy_process 1 boot_frame boot_kernel = Inr (1, k') \<and> spaces_ok (kmm k') \<and>
     contents (kmm k') 1 0x5000 = Some 0 \<and> contents (kmm k') 0 0x5000 = Some 0 \<and>
     bit (pte_of 0x4026000 (kmm k')) 1"
proof -
  have "contents boot_mm 0 0x5000 = Some 0" by (rule boot_contents) (simp_all add: user_offset_def)
  then show ?thesis
    using fork_refines [OF _ boot_fork_space_ready] boot_spaces(2)
    by (auto simp: boot_kernel_simps child_base_def stack_page_def boot_frame_def)
qed

section \<open>The memory of task 0\<close>

text \<open>
  C31: copy on write does not protect a child from task 0.  The pages of task 0 lie below 1 MB, where
  \<^verbatim>\<open>copy_page_tables\<close> leaves the parent's entry writable: a child that has not yet written such a page reads
  what task 0 stores there after the fork.  (Pages 0 and 1 hold the page directory and the page table of task 0.)
\<close>

theorem task_0_store_shared:
  assumes ok: "spaces_ok s" and c: "space_used s c" "c \<noteq> 0" and off: "user_offset off"
    and page: "page_of off \<noteq> 0" "page_of off \<noteq> 0x1000" and shared: "page_of (pte_of (child_base c + off) s) < LOW_MEM"
  shows "user_read (child_base c + off) (user_write off v s) = v"
proof -
  let ?k = "page_ix off" and ?a = "page_of off + (off AND 0xffc)"
  define s' where "s' = user_write off v s"
  note k = ix_bounds(1) [OF off] and t = user_translate [OF off]
  have w: "off AND 0xffc = 4 * of_nat (word_ix off)" using t(3) [of 0] by (simp add: child_base_def)
  have pa: "page_of ?a = page_of off" using page_of_word [OF page_of_aligned ix_bounds(2)] w by simp
  have s': "s' = store s ?a v"
    using task_0_frame [OF ok off] page_ix_page by (simp add: s'_def user_write_def Let_def)
  have kp: "keeps s ?a s'" by (simp add: s' keeps_def store_def)
  note d = keeps_dir [OF kp]
  have "page_of (entry_addr s c ?k) = table_of s c" using entry_addr_page [OF user_page_less [OF k]] .
  moreover have "table_of s c \<noteq> page_of off"
    using tables_invD(5) [OF spaces_okD(1) [OF ok] c] low_frame [OF k] page_ix_page [of off] by (metis not_less)
  ultimately have "entry_addr s c ?k \<noteq> ?a" using pa by metis
  then have e: "entry_of s' c ?k = entry_of s c ?k"
    using d(3) page(1) pa by (simp add: entry_of_addr s' store_def)
  have "\<not> LOW_MEM \<le> page_of (entry_of s c ?k)" using shared t(2) by (simp only: not_le)
  then have "page_of (entry_of s c ?k) = page_of off"
    using entries_invD(1) [OF spaces_okD(2) [OF ok] c(1) k] page_ix_page [of off] unfolding entry_inv_def by metis
  then have "user_read (child_base c + off) s' = pmem s' ?a"
    using e t(2,3) w by (simp only: user_read_def)
  then show ?thesis by (simp add: s'_def [symmetric]) (simp add: s' store_def)
qed

theorem task_0_store_shared_witness:
  "\<exists>k'. copy_process 1 boot_frame boot_kernel = Inr (1, k') \<and>
     user_read 0x4005000 (user_write 0x5000 42 (kmm k')) = 42"
proof -
  obtain k' where k': "copy_process 1 boot_frame boot_kernel = Inr (1, k')" "pte_of 0x4005000 (kmm k') = 0x5005"
    using fork_memory_example by blast
  then have "spaces_ok (kmm k')" "space_used (kmm k') 1"
    using copy_process_spaces [OF _ boot_fork_space_ready] boot_spaces(2) by (auto simp: boot_kernel_simps)
  from task_0_store_shared [OF this, of "0x5000" 42] k' show ?thesis
    by (intro exI [of _ k']) (simp add: child_base_def user_offset_def page_of_def)
qed

end
