(* ===== verification/System.thy ===== *)
theory System
  imports User_Mode Isolation
begin

unbundle bit_operations_syntax

text \<open>
  The kernel as a whole while it runs: the scheduler and the mutexes (\<^verbatim>\<open>Mutex\<close>), process creation (\<^verbatim>\<open>Fork\<close>) and the
  address spaces (\<^verbatim>\<open>Isolation\<close>) over one state, with all interleavings of system calls, timer interrupts,
  stores and forks.  A step is taken by the task that has the processor.  The scheduler changes nothing
  of the descriptors but the states of tasks, a fork changes nothing of the queues and adds a task that
  waits for nothing, a store changes only memory: so the invariants of the three parts hold together,
  from the start of the kernel on.
\<close>

section \<open>The scheduler leaves the descriptors alone\<close>

text \<open>Only the states of tasks change.\<close>

definition restated :: "sched \<Rightarrow> sched \<Rightarrow> bool" where
  "restated s s' \<longleftrightarrow>
     task s' = task s \<and> init_task s' = init_task s \<and>
     (\<forall>p. tasks s' p = (tasks s p)\<lparr>ts_state := ts_state (tasks s' p)\<rparr>)"

lemma restated_refl: "tasks s' = tasks s \<Longrightarrow> task s' = task s \<Longrightarrow> init_task s' = init_task s \<Longrightarrow> restated s s'"
  by (simp add: restated_def)

lemma restated_trans: "restated s s1 \<Longrightarrow> restated s1 s2 \<Longrightarrow> restated s s2"
  unfolding restated_def by (metis task_struct.update_convs(1) task_struct.surjective)

lemma restated_set_state: "restated s (set_state s t v)"
  by (simp add: restated_def set_state_def)

lemma restated_schedule: "schedule s = Some (Inr s') \<Longrightarrow> restated s s'"
  using schedule_frame by (auto intro: restated_refl)


lemma restated_set_waitq: "restated s (set_waitq s p t)"
  by (rule restated_refl) (simp_all add: set_waitq_def)

lemma restated_printk: "restated s (printk m s)"
  by (rule restated_refl) (simp_all add: printk_def)

lemma restated_mutex: "restated s (s\<lparr>mutex_lock := f\<rparr>)" "restated s (s\<lparr>cr0_ts := b\<rparr>)"
  by (simp_all add: restated_refl)

lemmas restated_intros = restated_set_state restated_set_waitq restated_printk restated_mutex restated_refl
  restated_trans [OF _ restated_set_state] restated_trans [OF _ restated_set_waitq]
  restated_trans [OF _ restated_printk] restated_trans [OF _ restated_mutex(1)]

lemma restated_wake: "restated s (wake_task t s)"
  by (auto simp: wake_task_def Let_def intro!: restated_intros)

lemma restated_klock_loop:
  "klock_loop n s = Some (Inr (Acquired s')) \<Longrightarrow> restated s s'"
  "klock_loop n s = Some (Inr (Asleep tmp s')) \<Longrightarrow> restated s s'"
  by (auto simp: klock_loop_eq push_sleeper_def split: if_splits intro!: restated_intros)

lemma restated_resume:
  assumes "sleep_on_resume p tmp s = x" "x = Returned s' \<or> x = At_repeat tmp' s'"
  shows "restated s s'"
  using assms by (auto simp: sleep_on_resume_def Let_def split: if_splits intro!: restated_intros)

lemma restated_klock_resume:
  assumes "klock_resume n tmp s = Some (Inr e)" "e = Acquired s' \<or> e = Asleep tmp' s'"
  shows "restated s s'"
proof (cases "sleep_on_resume (WQ_mutex n) tmp s")
  case (Returned s1)
  then have "restated s1 s'" using assms restated_klock_loop by (auto simp: klock_resume_def)
  then show ?thesis using restated_trans restated_resume [OF Returned] by blast
next
  case (At_repeat t s1)
  then show ?thesis using assms restated_resume [OF At_repeat] by (auto simp: klock_resume_def)
qed

lemma restated_sys_klock:
  assumes "sys_klock n s = Some (Inr e)" "e = Acquired s' \<or> e = Asleep tmp' s'"
  shows "restated s s'"
  using assms restated_klock_loop by (auto simp: sys_klock_def split: if_splits)

lemma restated_kunlock: "kunlock_release n s = Inr s' \<Longrightarrow> restated s s'"
  by (auto simp: kunlock_release_def split: if_splits intro!: restated_intros)

lemma restated_pause: "sys_pause s = Some (Inr (r, s')) \<Longrightarrow> restated s s'"
  using restated_trans [OF restated_set_state restated_schedule]
  by (auto simp: sys_pause_def split: option.splits sum.splits)

lemma kstep_restated: "kstep k k' \<Longrightarrow> restated (sch k) (sch k')"
proof (induction rule: kstep.induct)
  case (klock_waits k n tmp s s')
  then show ?case using restated_trans [OF restated_sys_klock restated_schedule] by auto
next
  case (resume_waits k n tmp tmp' s s')
  then show ?case using restated_trans [OF restated_klock_resume restated_schedule] by auto
qed (auto simp: take_lock_def do_timer_def kunlock_wake_def switch_to_resumed_def
    intro: restated_sys_klock restated_klock_resume restated_schedule restated_wake restated_kunlock
      restated_pause restated_mutex restated_refl)

lemma kstep_others:
  assumes "kstep k k'" "t \<noteq> cur k"
  shows "pc k' t = pc k t" "holds k' t = holds k t"
  using assms by (induction rule: kstep.induct) (simp_all add: take_lock_def)

section \<open>The state of the kernel\<close>

text \<open>
  The process table and the address spaces together: the slots in use are those with an address space; every
  descriptor lies in a frame of the kernel, its segments are 640 KB long and its youngest child, if any, is another task of the
  table.
\<close>

definition desc_ok :: "kernel \<Rightarrow> nat \<Rightarrow> bool" where
  "desc_ok k n \<longleftrightarrow>
     (let d = task (ksched k) n; t = task_at k d
      in kernel_frame (kmm k) (page_of d) \<and>
         get_limit (ts_ldt t 1) = 0xA0000 \<and> get_limit (ts_ldt t 2) = 0xA0000 \<and>
         (ts_p_cptr t = NULL \<or> (\<exists>m. used_slot k m \<and> m \<noteq> n \<and> ts_p_cptr t = task (ksched k) m)))"

definition kernel_ok :: "kernel \<Rightarrow> bool" where
  "kernel_ok k \<longleftrightarrow>
     procs_ok k \<and> spaces_ok (kmm k) \<and> (\<forall>n. used_slot k n \<longleftrightarrow> space_used (kmm k) n) \<and>
     (\<forall>n. used_slot k n \<longrightarrow> desc_ok k n)"

lemma kernel_okD:
  assumes "kernel_ok k"
  shows "procs_ok k" "spaces_ok (kmm k)" "used_slot k n \<longleftrightarrow> space_used (kmm k) n" "used_slot k n \<Longrightarrow> desc_ok k n"
  using assms by (auto simp: kernel_ok_def)

lemma kernel_frame_live: "kernel_frame s p \<Longrightarrow> live s p"
  by (auto simp: kernel_frame_def live_def)

text \<open>
  A fork that finds a slot needs three frames (for the descriptor, the page table and the child's stack) and a
  stack pointer inside the segment.
\<close>

definition fork_resources :: "syscall_frame \<Rightarrow> kernel \<Rightarrow> bool" where
  "fork_resources r k \<longleftrightarrow> 3 \<le> card (free_set (kmm k)) \<and> 0 < r_esp r \<and> r_esp r \<le> 0xA0000"

lemma kernel_fork_ready:
  assumes ok: "kernel_ok k" and n: "used_slot k n" "task (ksched k) n = current (ksched k)"
    and c: "c < NR_TASKS" "task (ksched k) c = NULL" and r: "fork_resources r k"
  shows "fork_space_ready n c r k"
proof -
  note ko = kernel_okD [OF ok]
  have slot: "slot_ok k n" using ko(1) n(1) unfolding procs_ok_def by blast
  have nc: "\<not> used_slot k c" using c(2) by (simp add: used_slot_def)
  let ?c = "current (ksched k)" and ?os = "ts_p_cptr (task_at k (current (ksched k)))"
  have d: "kernel_frame (kmm k) (page_of ?c)"
      "get_limit (ts_ldt (task_at k ?c) 1) = 0xA0000" "get_limit (ts_ldt (task_at k ?c) 2) = 0xA0000"
      "?os = NULL \<or> (\<exists>m. used_slot k m \<and> m \<noteq> n \<and> ?os = task (ksched k) m)"
    using ko(4) [OF n(1)] n(2) by (simp_all add: desc_ok_def Let_def)
  have b: "get_base (ts_ldt (task_at k ?c) 1) = child_base n" "get_base (ts_ldt (task_at k ?c) 2) = child_base n"
    using slot n(2) by (simp_all add: slot_ok_def Let_def)
  have seg: "segments_ok k"
    using d b child_base_aligned by (simp add: segments_ok_def parent_base_def parent_limit_def)
  have "live (kmm k) (page_of ?os) \<and> ?os \<noteq> ?c"
    using d(4)
  proof (elim disjE exE conjE)
    assume "?os = NULL"
    then show ?thesis using n by (auto simp: live_def page_of_def used_slot_def)
  next
    fix m assume m: "used_slot k m" "m \<noteq> n" "?os = task (ksched k) m"
    have "kernel_frame (kmm k) (page_of ?os)" using ko(4) [OF m(1)] m(3) by (simp add: desc_ok_def Let_def)
    moreover have "task (ksched k) m \<noteq> task (ksched k) n" using ko(1) m(1,2) n(1) unfolding procs_ok_def by blast
    ultimately show ?thesis using kernel_frame_live m(3) n(2) by auto
  qed
  then have "family_ok k" using kernel_frame_live [OF d(1)] by (simp add: family_ok_def Let_def)
  then show ?thesis
    using ko(3) n(1) nc c(1) seg r b by (simp add: fork_space_ready_def fork_resources_def parent_base_def)
qed

text \<open>A fork leaves queues and mutexes alone.\<close>

definition same_queues :: "kernel \<Rightarrow> kernel \<Rightarrow> bool" where
  "same_queues k k' \<longleftrightarrow>
     waitq (ksched k') = waitq (ksched k) \<and> mutex_lock (ksched k') = mutex_lock (ksched k)"

lemma same_queues_parts [simp]:
  "same_queues k (set_task p t k') = same_queues k k'" "same_queues k (save_fpu p k') = same_queues k k'"
  "same_queues k (count_files n t k') = same_queues k k'" "same_queues k (count_inode i k') = same_queues k k'"
  "same_queues k (set_descs n p k') = same_queues k k'" "same_queues k (k'\<lparr>kmm := m\<rparr>) = same_queues k k'"
  by (simp_all add: same_queues_def set_task_def save_fpu_def Let_def)

lemma same_queues_link [simp]: "same_queues k (link_child p k') = same_queues k k'"
  by (simp add: link_child_def Let_def)

lemma same_queues_copy_mem: "copy_mem n p k1 = Inr (e, k') \<Longrightarrow> same_queues k k1 \<Longrightarrow> same_queues k k'"
  by (auto simp: copy_mem_def Let_def split: if_splits sum.splits)

lemma copy_process_queues:
  assumes "copy_process c r k = Inr (x, k')"
  shows "same_queues k k'"
proof -
  have e: "same_queues k (fork_entry c p r k1)" if "same_queues k k1" for p k1
    using that by (simp add: fork_entry_def Let_def) (simp add: same_queues_def)
  have f: "same_queues k (fork_finish c p r k1)" if "same_queues k k1" for p k1
    using that by (simp add: fork_finish_def Let_def del: NR_OPEN_def)
  have "same_queues k (k\<lparr>kmm := m\<rparr>)" for m by (simp add: same_queues_def)
  then show ?thesis
    using assms same_queues_copy_mem [OF _ e] f
    by (auto simp: copy_process_def Let_def split: prod.splits if_splits sum.splits)
qed

text \<open>The fork keeps the state of the kernel in order.\<close>

lemma forked_youngest:
  assumes p: "p = fst (get_free_page (kmm k))" "p \<noteq> NULL" and c: "c < NR_TASKS" "\<not> used_slot k c"
    and k': "task (ksched k') = (task (ksched k))(c := p)" "task_at k' = forked_tasks c r k"
    and d: "d = task (ksched k) m" "d \<noteq> p" "used_slot k m"
    and y: "ts_p_cptr (task_at k d) = NULL \<or>
      (\<exists>i. used_slot k i \<and> i \<noteq> m \<and> ts_p_cptr (task_at k d) = task (ksched k) i)"
  shows "ts_p_cptr (task_at k' d) = NULL \<or>
      (\<exists>i. used_slot k' i \<and> i \<noteq> m \<and> ts_p_cptr (task_at k' d) = task (ksched k') i)"
proof -
  have U: "used_slot k' c" "\<And>i. used_slot k i \<Longrightarrow> used_slot k' i \<and> task (ksched k') i = task (ksched k) i"
    using k'(1) p(2) c by (auto simp: used_slot_def)
  have cp: "ts_p_cptr (task_at k' d) = (if d = current (ksched k) then p else ts_p_cptr (task_at k d))"
    using d(2) p(1) k'(2) by (simp add: forked_tasks_def Let_def)
  show ?thesis
  proof (cases "d = current (ksched k)")
    case True
    moreover have "c \<noteq> m" using c(2) d(3) by blast
    ultimately show ?thesis using cp U(1) k'(1) by (intro disjI2 exI [of _ c]) simp
  next
    case False
    then show ?thesis using y cp U(2) by metis
  qed
qed

lemma forked_desc_ok:
  assumes ok: "kernel_ok k" and n: "used_slot k n" "task (ksched k) n = current (ksched k)"
    and c: "c < NR_TASKS" "task (ksched k) c = NULL"
    and p: "p = fst (get_free_page (kmm k))" "has_free_page (kmm k)"
    and k': "task (ksched k') = (task (ksched k))(c := p)" "task_at k' = forked_tasks c r k"
    and frames: "\<And>q. page_aligned q \<Longrightarrow> kernel_frame (kmm k) q \<or> q = p \<Longrightarrow> kernel_frame (kmm k') q"
    and fresh: "\<And>i. used_slot k i \<Longrightarrow> task (ksched k) i \<noteq> p"
    and m: "used_slot k' m"
  shows "desc_ok k' m"
proof -
  note ko = kernel_okD [OF ok]
  have al: "page_aligned p" "p \<noteq> NULL"
    using gfp.alloc_aligned [OF p(2)] new_page_high [OF p(2)] by (auto simp: p(1))
  have U: "used_slot k' i \<longleftrightarrow> i = c \<or> used_slot k i" for i
    using k'(1) c al(2) by (auto simp: used_slot_def)
  have nc: "\<not> used_slot k c" using c(2) by (simp add: used_slot_def)
  show ?thesis
  proof (cases "m = c")
    case True
    have "kernel_frame (kmm k') p" using frames al(1) by blast
    then show ?thesis
      using True k' al(1) ko(4) [OF n(1)] n(2) forked_tasks_child [of c r k, folded p(1)] page_of_entry(3) [OF al(1)]
      by (simp add: desc_ok_def Let_def forked_child_def child_task_def)
  next
    case False
    then have mu: "used_slot k m" using U m by blast
    let ?d = "task (ksched k) m"
    have d: "desc_ok k m" using ko(4) [OF mu] .
    have nd: "?d \<noteq> p" using fresh [OF mu] .
    have t: "ts_ldt (task_at k' ?d) = ts_ldt (task_at k ?d)"
      using forked_tasks_other(1) [of ?d k c r] nd p(1) k'(2) by simp
    have "ts_p_cptr (task_at k' ?d) = NULL \<or>
        (\<exists>i. used_slot k' i \<and> i \<noteq> m \<and> ts_p_cptr (task_at k' ?d) = task (ksched k') i)"
      using forked_youngest [OF p(1) al(2) c(1) nc k' refl nd mu] d by (simp add: desc_ok_def Let_def)
    moreover have "kernel_frame (kmm k') (page_of ?d)"
      using frames d page_of_aligned by (simp add: desc_ok_def Let_def)
    ultimately show ?thesis
      using d t False k'(1) by (simp add: desc_ok_def Let_def)
  qed
qed


lemma kernel_fork:
  assumes ok: "kernel_ok k" and n: "used_slot k n" "task (ksched k) n = current (ksched k)"
    and c: "c < NR_TASKS" "task (ksched k) c = NULL" and r: "fork_resources r k"
    and pid: "last_pid k \<notin> used_pids (ksched k)"
  shows "\<exists>k'. copy_process c r k = Inr (last_pid k, k') \<and> kernel_ok k' \<and> same_queues k k' \<and>
    task (ksched k') = (task (ksched k))(c := fst (get_free_page (kmm k))) \<and>
    current (ksched k') = current (ksched k) \<and> init_task (ksched k') = init_task (ksched k) \<and>
    task_at k' = forked_tasks c r k \<and> mem_step (views_of (kmm k)) (Forks n c) (views_of (kmm k')) \<and>
    card (free_set (kmm k)) \<le> card (free_set (kmm k')) + 3"
proof -
  let ?p = "fst (get_free_page (kmm k))"
  note ko = kernel_okD [OF ok] and ready = kernel_fork_ready [OF ok n c r]
  have fr: "fork_ready c k" using fork_space_fork_ready [OF ko(2) ready] .
  then have free: "has_free_page (kmm k)" by (simp add: fork_ready_def)
  obtain k' where k': "copy_process c r k = Inr (last_pid k, k')" "spaces_ok (kmm k')"
      "\<forall>m. space_used (kmm k') m \<longleftrightarrow> m = c \<or> space_used (kmm k) m"
      "mem_step (views_of (kmm k)) (Forks n c) (views_of (kmm k'))"
      "\<forall>p. page_aligned p \<longrightarrow> kernel_frame (kmm k) p \<or> p = ?p \<longrightarrow> kernel_frame (kmm k') p"
      "card (free_set (kmm k)) \<le> card (free_set (kmm k')) + 3"
    using copy_process_spaces [OF ko(2) ready] by (auto simp: views_of_def)
  obtain m where m: "copy_page_tables (parent_base k) (child_base c) (parent_limit k) (snd (get_free_page (kmm k))) = Inr (0, m)"
    using fork_entry_tables [OF fr] by blast
  have t: "task (ksched k') = (task (ksched k))(c := ?p)" "current (ksched k') = current (ksched k)"
      "init_task (ksched k') = init_task (ksched k)"
      "gdt (kcpu k') = gdt (kcpu (set_descs c ?p k))" "task_at k' = forked_tasks c r k"
    using copy_process_eq [OF fr m, of r] k'(1) by auto
  have fresh: "task (ksched k) i \<noteq> ?p" if "used_slot k i" for i
    using new_page_not_object [OF free] kernel_frame_live ko(4) [OF that] by (auto simp: desc_ok_def Let_def)
  have "procs_ok k'" using forked_procs_ok [OF ko(1) pid t(1,4,5) fresh c(2)] .
  moreover have "used_slot k' m \<longleftrightarrow> space_used (kmm k') m" for m
    using k'(3) ko(3) [of m] t(1) c new_page_high [OF free] by (auto simp: used_slot_def)
  moreover have "desc_ok k' m" if "used_slot k' m" for m
    using forked_desc_ok [OF ok n c refl free t(1,5) _ fresh that] k'(5) by blast
  ultimately have "kernel_ok k'" using k'(2) by (simp add: kernel_ok_def)
  then show ?thesis using k'(1,4,6) t copy_process_queues [OF k'(1)] by blast
qed

section \<open>The running system\<close>

text \<open>The kernel, where each task is in a call on a mutex, and the mutexes it holds.\<close>

record system =
  skern :: kernel
  spc :: "ptr \<Rightarrow> kpc"
  sholds :: "ptr \<Rightarrow> int set"

definition ksys_of :: "system \<Rightarrow> ksys" where
  "ksys_of y = \<lparr>sch = ksched (skern y), pc = spc y, holds = sholds y\<rparr>"

lemma ksys_of_simps [simp]:
  "sch (ksys_of y) = ksched (skern y)" "pc (ksys_of y) = spc y" "holds (ksys_of y) = sholds y"
  by (simp_all add: ksys_of_def)

text \<open>Task \<open>n\<close> has the processor and is in user mode.\<close>

definition runs_user :: "system \<Rightarrow> nat \<Rightarrow> bool" where
  "runs_user y n \<longleftrightarrow>
     used_slot (skern y) n \<and> task (ksched (skern y)) n = current (ksched (skern y)) \<and>
     spc y (current (ksched (skern y))) = User"

text \<open>
  A step: of the scheduler, the mutexes and the timer (\<open>kstep\<close>; any task may release any mutex); a store by the task that
  has the processor, through its own segment, to a word where its page table and free frames allow it
  (\<open>can_store\<close>); \<^verbatim>\<open>sys_fork\<close> by that task, into the slot that \<^verbatim>\<open>find_empty_process\<close> gives or without effect on the
  address spaces when there is none.  \<^verbatim>\<open>sys_kdebug\<close>, page faults that find no frame and disk interrupts are no
  steps.
\<close>

inductive sys_step :: "system \<Rightarrow> space_event \<Rightarrow> system \<Rightarrow> bool" where
  schedules: "kstep (ksys_of y) \<lparr>sch = s, pc = p, holds = h\<rparr> \<Longrightarrow>
    sys_step y Elsewhere \<lparr>skern = (skern y)\<lparr>ksched := s\<rparr>, spc = p, sholds = h\<rparr>"
| stores: "runs_user y n \<Longrightarrow> can_store (kmm (skern y)) n off \<Longrightarrow>
    sys_step y (Store n off v) (y\<lparr>skern := (skern y)\<lparr>kmm := user_write (child_base n + off) v (kmm (skern y))\<rparr>\<rparr>)"
| forks: "runs_user y n \<Longrightarrow> fork_resources r (skern y) \<Longrightarrow> sys_fork r (skern y) = Some (Inr (pid, k')) \<Longrightarrow>
    find_empty_process (skern y) = Some (nr, k1) \<Longrightarrow>
    sys_step y (if 0 \<le> sint nr then Forks n (unat nr) else Elsewhere) (y\<lparr>skern := k'\<rparr>)"

text \<open>A pointer to no task of the table is waiting for nothing and holds nothing.\<close>

definition absent :: "kernel \<Rightarrow> ptr \<Rightarrow> bool" where
  "absent k t \<longleftrightarrow> (\<forall>n. used_slot k n \<longrightarrow> task (ksched k) n \<noteq> t)"

definition sys_ok :: "system \<Rightarrow> bool" where
  "sys_ok y \<longleftrightarrow>
     kinv (ksys_of y) \<and> kernel_ok (skern y) \<and> (\<forall>t. absent (skern y) t \<longrightarrow> spc y t = User \<and> sholds y t = {})"

lemma sys_okD:
  assumes "sys_ok y"
  shows "kinv (ksys_of y)" "kernel_ok (skern y)" "absent (skern y) t \<Longrightarrow> spc y t = User"
    "absent (skern y) t \<Longrightarrow> sholds y t = {}"
  using assms by (simp_all add: sys_ok_def)

text \<open>The steps of the scheduler.\<close>

lemma restated_simps:
  assumes "restated (ksched k) s"
  shows "used_slot (k\<lparr>ksched := s\<rparr>) = used_slot k" "absent (k\<lparr>ksched := s\<rparr>) = absent k"
    "procs_ok (k\<lparr>ksched := s\<rparr>) = procs_ok k" "desc_ok (k\<lparr>ksched := s\<rparr>) = desc_ok k"
proof -
  have t: "task s = task (ksched k)" "tasks s p = (tasks (ksched k) p)\<lparr>ts_state := ts_state (tasks s p)\<rparr>" for p
    using assms unfolding restated_def by blast+
  have f: "ts_ldt (tasks s p) = ts_ldt (tasks (ksched k) p)" "ts_tss (tasks s p) = ts_tss (tasks (ksched k) p)"
     "ts_pid (tasks s p) = ts_pid (tasks (ksched k) p)" "ts_p_cptr (tasks s p) = ts_p_cptr (tasks (ksched k) p)" for p
    by (subst t(2), simp)+
  show u: "used_slot (k\<lparr>ksched := s\<rparr>) = used_slot k" by (simp add: used_slot_def t(1) fun_eq_iff)
  show "absent (k\<lparr>ksched := s\<rparr>) = absent k" by (simp add: absent_def u t(1) fun_eq_iff)
  show "procs_ok (k\<lparr>ksched := s\<rparr>) = procs_ok k" by (simp add: procs_ok_def u slot_ok_def task_at_def t(1) f)
  show "desc_ok (k\<lparr>ksched := s\<rparr>) = desc_ok k" by (simp add: desc_ok_def Let_def u task_at_def t(1) f fun_eq_iff)
qed

lemma kinv_current:
  assumes "kinv (ksys_of y)"
  shows "\<exists>n. used_slot (skern y) n \<and> task (ksched (skern y)) n = current (ksched (skern y))"
  using kinv_parts(1) [OF assms] by (auto simp: tab_wf_def used_slot_def)

lemma sys_ok_schedules:
  assumes ok: "sys_ok y" and step: "kstep (ksys_of y) \<lparr>sch = s, pc = p, holds = h\<rparr>"
  shows "sys_ok \<lparr>skern = (skern y)\<lparr>ksched := s\<rparr>, spc = p, sholds = h\<rparr>"
proof -
  note o = sys_okD [OF ok]
  have r: "restated (ksched (skern y)) s" using kstep_restated [OF step] by simp
  have "\<not> absent (skern y) (current (ksched (skern y)))" using kinv_current [OF o(1)] by (auto simp: absent_def)
  then have "p t = User \<and> h t = {}" if "absent (skern y) t" for t
    using kstep_others [OF step, of t] o(3,4) [OF that] that by auto
  moreover have "kernel_ok ((skern y)\<lparr>ksched := s\<rparr>)"
    using o(2) by (simp add: kernel_ok_def restated_simps [OF r])
  ultimately show ?thesis
    using kinv_step [OF step o(1)] by (simp add: sys_ok_def ksys_of_def restated_simps [OF r])
qed

text \<open>The stores.\<close>

lemma sys_ok_stores:
  fixes v :: u32
  assumes ok: "sys_ok y" and run: "runs_user y n" and n: "can_store (kmm (skern y)) n off"
  shows "sys_ok (y\<lparr>skern := (skern y)\<lparr>kmm := user_write (child_base n + off) v (kmm (skern y))\<rparr>\<rparr>)"
    "mem_step (views_of (kmm (skern y))) (Store n off v) (views_of (user_write (child_base n + off) v (kmm (skern y))))"
proof -
  let ?m = "user_write (child_base n + off) v (kmm (skern y))" and ?k = "skern y"
  note o = sys_okD [OF ok] and k = kernel_okD [OF sys_okD(2) [OF ok]]
  have "space_used (kmm ?k) n" using run k(3) by (simp add: runs_user_def)
  note w = store_step [where v = v, OF k(2) this n]
  have same: "used_slot (?k\<lparr>kmm := ?m\<rparr>) = used_slot ?k" "task_at (?k\<lparr>kmm := ?m\<rparr>) = task_at ?k"
    by (simp_all add: used_slot_def task_at_def fun_eq_iff)
  have "desc_ok (?k\<lparr>kmm := ?m\<rparr>) i" if "used_slot ?k i" for i
    using k(4) [OF that] w(4) page_of_aligned by (simp add: desc_ok_def Let_def same)
  moreover have "procs_ok (?k\<lparr>kmm := ?m\<rparr>)" using k(1) by (simp add: procs_ok_def slot_ok_def same)
  ultimately have "kernel_ok (?k\<lparr>kmm := ?m\<rparr>)"
    using w(1,3) k(3) by (simp add: kernel_ok_def same)
  then show "sys_ok (y\<lparr>skern := ?k\<lparr>kmm := ?m\<rparr>\<rparr>)"
    using ok by (simp add: sys_ok_def ksys_of_def absent_def same)
  show "mem_step (views_of (kmm ?k)) (Store n off v) (views_of ?m)" using w(2) .
qed

text \<open>The forks.\<close>

lemma last_pid_simps:
  "kernel_ok (k\<lparr>last_pid := l\<rparr>) = kernel_ok k" "used_slot (k\<lparr>last_pid := l\<rparr>) = used_slot k"
  "absent (k\<lparr>last_pid := l\<rparr>) = absent k" "fork_resources r (k\<lparr>last_pid := l\<rparr>) = fork_resources r k"
proof -
  let ?k = "k\<lparr>last_pid := l\<rparr>"
  have s: "used_slot ?k = used_slot k" "task_at ?k = task_at k" by (simp_all add: used_slot_def task_at_def fun_eq_iff)
  have "desc_ok ?k = desc_ok k" "procs_ok ?k = procs_ok k"
    by (simp_all add: desc_ok_def procs_ok_def slot_ok_def Let_def s fun_eq_iff)
  then show "kernel_ok ?k = kernel_ok k" "used_slot ?k = used_slot k" "absent ?k = absent k"
      "fork_resources r ?k = fork_resources r k"
    by (simp_all add: kernel_ok_def absent_def fork_resources_def s fun_eq_iff)
qed

lemma forked_state:
  assumes "task_at k' = forked_tasks c r k" "q \<noteq> fst (get_free_page (kmm k))"
  shows "task_state (ksched k') q = task_state (ksched k) q"
proof -
  have "task_state (ksched k') q = ts_state (forked_tasks c r k q)"
    by (simp add: task_state_def assms(1) [symmetric] task_at_def)
  then show ?thesis using assms(2) by (simp add: forked_tasks_def Let_def task_state_def task_at_def)
qed

lemma new_page_absent:
  assumes "kernel_ok k" "has_free_page (kmm k)"
  shows "absent k (fst (get_free_page (kmm k)))"
  using new_page_not_object [OF assms(2)] kernel_frame_live kernel_okD(4) [OF assms(1)]
  unfolding absent_def desc_ok_def Let_def by metis

lemma forked_kinv:
  fixes k k' c
  defines "p \<equiv> fst (get_free_page (kmm k))" and "s' \<equiv> ksched k'"
  assumes inv: "kinv \<lparr>sch = ksched k, pc = pc0, holds = h\<rparr>" and ok': "procs_ok k'" and q: "same_queues k k'"
    and t: "task s' = (task (ksched k))(c := p)" "current s' = current (ksched k)" "init_task s' = init_task (ksched k)"
      "task_at k' = forked_tasks c r k"
    and p: "absent k p" "pc0 p = User" and c: "task (ksched k) c = NULL"
  shows "kinv \<lparr>sch = s', pc = pc0, holds = h\<rparr>"
proof -
  let ?s = "ksched k"
  note i = kinv_parts [OF inv, simplified]
  have st: "task_state s' u = task_state ?s u" if "u \<noteq> p" for u
    using forked_state [OF t(4)] that by (simp add: p_def s'_def)
  have old: "task s' j = task ?s j" if "task ?s j \<noteq> NULL" for j using t(1) c that by auto
  have w: "\<exists>j < NR_TASKS. task ?s j = current ?s" "\<exists>j < NR_TASKS. task ?s j = init_task ?s"
      "current ?s \<noteq> NULL" "init_task ?s \<noteq> NULL" "task_state ?s (init_task ?s) = TASK_RUNNING"
    using i(1) unfolding tab_wf_def by blast+
  have ne: "current ?s \<noteq> p" "init_task ?s \<noteq> p"
    using w(1-4) p(1) unfolding absent_def used_slot_def by metis+
  have "\<exists>j < NR_TASKS. task s' j = current s'" "\<exists>j < NR_TASKS. task s' j = init_task s'"
    using w(1-4) old t(2,3) by metis+
  moreover have "j = l" if "j < NR_TASKS" "l < NR_TASKS" "task s' j \<noteq> NULL" "task s' j = task s' l" for j l
    using ok' that unfolding procs_ok_def used_slot_def s'_def by metis
  ultimately have "tab_wf s'" using w(3-5) t(2,3) st [OF ne(2)] unfolding tab_wf_def by auto
  moreover have "cur_running s'" using i(2) t(2) st [OF ne(1)] by (simp add: cur_running_def)
  moreover have "chain_ok s' pc0 n ch" if "chain_ok ?s pc0 n ch" for n ch
  proof -
    have "task_state s' u = task_state ?s u" if "u \<in> waiters pc0 n" for u
      using st [of u] that p(2) by (cases "u = p") (auto simp: waiters_def)
    then have "wakeup_due ?s pc0 n \<Longrightarrow> wakeup_due s' pc0 n" by (metis wakeup_due_mono)
    then show ?thesis using that q by (auto simp: chain_ok_def same_queues_def s'_def)
  qed
  ultimately show ?thesis using i(3,4) t(3) unfolding kinv_def chains_ok_def by simp metis
qed

lemma sys_ok_forks:
  assumes ok: "sys_ok y" and run: "runs_user y n" and r: "fork_resources r (skern y)"
    and find: "find_empty_process (skern y) = Some (nr, k1)" "0 \<le> sint nr"
  shows "\<exists>k'. sys_fork r (skern y) = Some (Inr (last_pid k1, k')) \<and> sys_ok (y\<lparr>skern := k'\<rparr>) \<and>
    (\<forall>i. used_slot k' i \<longleftrightarrow> i = unat nr \<or> used_slot (skern y) i) \<and> \<not> used_slot (skern y) (unat nr) \<and>
    current (ksched k') = current (ksched (skern y)) \<and>
    ts_pid (task_at k' (task (ksched k') (unat nr))) = last_pid k1 \<and>
    task_state (ksched k') (task (ksched k') (unat nr)) = TASK_RUNNING \<and>
    same_queues (skern y) k' \<and> mem_step (views_of (kmm (skern y))) (Forks n (unat nr)) (views_of (kmm k'))"
proof -
  let ?k = "skern y" and ?c = "unat nr"
  note o = sys_okD [OF ok] and f = found_slot [OF find]
  have k1: "ksched k1 = ksched ?k" "kmm k1 = kmm ?k" by (subst f(3), simp)+
  have ok1: "kernel_ok k1" and r1: "fork_resources r k1" and u1: "used_slot k1 = used_slot ?k" and a1: "absent k1 = absent ?k"
    using o(2) r by (subst f(3), simp add: last_pid_simps)+
  let ?p = "fst (get_free_page (kmm k1))"
  have n: "used_slot k1 n" "task (ksched k1) n = current (ksched k1)"
    using run k1 u1 by (simp_all add: runs_user_def)
  have c: "?c < NR_TASKS" "task (ksched k1) ?c = NULL" "last_pid k1 \<notin> used_pids (ksched k1)" using f k1 by simp_all
  obtain k' where k': "copy_process ?c r k1 = Inr (last_pid k1, k')" "kernel_ok k'" "same_queues k1 k'"
      "task (ksched k') = (task (ksched k1))(?c := ?p)"
      "current (ksched k') = current (ksched k1)" "init_task (ksched k') = init_task (ksched k1)"
      "task_at k' = forked_tasks ?c r k1" "mem_step (views_of (kmm k1)) (Forks n ?c) (views_of (kmm k'))"
    using kernel_fork [OF ok1 n c(1,2) r1 c(3)] by blast
  have free: "has_free_page (kmm k1)" using r1 free_set_least(1) [of 0 "kmm k1"] by (simp add: fork_resources_def)
  note p = new_page_absent [OF ok1 free]
  have p0: "?p \<noteq> NULL" using new_page_high [OF free] by auto
  have U: "used_slot k' i \<longleftrightarrow> i = ?c \<or> used_slot ?k i" for i
    using k'(4) c(1) p0 k1 by (auto simp: used_slot_def)
  have "task (ksched k') i = task (ksched ?k) i" if "used_slot ?k i" for i
    using that k'(4) c(2) k1(1) by (auto simp: used_slot_def)
  then have "absent k' t \<Longrightarrow> absent ?k t" for t
    using U unfolding absent_def by metis
  moreover have "kinv (ksys_of (y\<lparr>skern := k'\<rparr>))"
    using forked_kinv [OF _ kernel_okD(1) [OF k'(2)] k'(3-7) p _ c(2), of "spc y" "sholds y"] o(1,3) p
    by (simp add: ksys_of_def k1 a1)
  ultimately have "sys_ok (y\<lparr>skern := k'\<rparr>)"
    using k'(2) o(3,4) by (simp add: sys_ok_def)
  moreover have "sys_fork r ?k = Some (Inr (last_pid k1, k'))" using find k'(1) by (simp add: sys_fork_def)
  moreover have "ts_pid (task_at k' ?p) = last_pid k1" "ts_state (task_at k' ?p) = TASK_RUNNING"
    unfolding k'(7) forked_tasks_child by (simp_all add: forked_child_def child_task_def Let_def)
  ultimately show ?thesis
    using U k'(3,4,5,8) f(2) k1 by (auto simp: used_slot_def task_state_def task_at_def same_queues_def)
qed

lemma sys_ok_fork_again:
  assumes ok: "sys_ok y" and find: "find_empty_process (skern y) = Some (nr, k1)" "\<not> 0 \<le> sint nr"
  shows "sys_fork r (skern y) = Some (Inr (nr, k1))" "sys_ok (y\<lparr>skern := k1\<rparr>)" "kmm k1 = kmm (skern y)"
    "ksched k1 = ksched (skern y)"
proof -
  obtain l where l: "k1 = (skern y)\<lparr>last_pid := l\<rparr>" using find_empty_process_spec [of "skern y"] find(1) by auto
  show "sys_fork r (skern y) = Some (Inr (nr, k1))" using find by (simp add: sys_fork_def)
  show "sys_ok (y\<lparr>skern := k1\<rparr>)" "kmm k1 = kmm (skern y)" "ksched k1 = ksched (skern y)"
    using ok by (simp_all add: sys_ok_def ksys_of_def l last_pid_simps)
qed

text \<open>Every step keeps the invariant and refines the memories; a step that releases a mutex only if it is held keeps the owners.\<close>

lemma sys_step_refines:
  assumes "sys_step y e y'" "sys_ok y"
  shows "sys_ok y' \<and> mem_step (views_of (kmm (skern y))) e (views_of (kmm (skern y')))"
  using assms(1)
proof cases
  case (schedules s p h)
  then show ?thesis using sys_ok_schedules [OF assms(2)] by (simp add: views_of_def)
next
  case (stores n off v)
  then show ?thesis using sys_ok_stores [OF assms(2), where v = v] by simp
next
  case (forks n r pid k' nr k1)
  show ?thesis
  proof (cases "0 \<le> sint nr")
    case True
    then show ?thesis using sys_ok_forks [OF assms(2) forks(3,4,6) True] forks by auto
  next
    case False
    then show ?thesis
      using sys_ok_fork_again(1) [OF assms(2) forks(6) False, of r] sys_ok_fork_again(2,3) [OF assms(2) forks(6) False] forks
      by (auto simp: views_of_def)
  qed
qed

interpretation sys: event_refinement sys_step sys_ok "\<lambda>y. views_of (kmm (skern y))" mem_step
  by unfold_locales (simp_all add: sys_step_refines)

definition sys_owner_step :: "system \<Rightarrow> space_event \<Rightarrow> system \<Rightarrow> bool" where
  "sys_owner_step y e y' \<longleftrightarrow> sys_step y e y' \<and> releases_held (ksys_of y) (ksys_of y')"

definition sys_owned :: "system \<Rightarrow> bool" where
  "sys_owned y \<longleftrightarrow> sys_ok y \<and> lock_ok (ksched (skern y)) (sholds y)"

lemma sys_step_owned:
  assumes "sys_owner_step y e y'" "sys_owned y"
  shows "sys_owned y'"
proof -
  have step: "sys_step y e y'" and held: "releases_held (ksys_of y) (ksys_of y')"
    and ok: "sys_ok y" "lock_ok (ksched (skern y)) (sholds y)"
    using assms by (simp_all add: sys_owner_step_def sys_owned_def)
  from step have "lock_ok (ksched (skern y')) (sholds y')"
  proof cases
    case (schedules s p h)
    then have "owner_step (ksys_of y) (ksys_of y')" using held by (simp add: owner_step_def ksys_of_def)
    from owner_step_lock [OF this sys_okD(1) [OF ok(1)]] ok(2) show ?thesis by simp
  next
    case (forks n r pid k' nr k1)
    have "mutex_lock (ksched k') = mutex_lock (ksched (skern y))"
    proof (cases "0 \<le> sint nr")
      case True
      then show ?thesis using sys_ok_forks [OF ok(1) forks(3,4,6) True] forks(5) by (auto simp: same_queues_def)
    next
      case False
      then show ?thesis
        using sys_ok_fork_again(1) [OF ok(1) forks(6) False, of r] sys_ok_fork_again(4) [OF ok(1) forks(6) False] forks(5) by simp
    qed
    from lock_ok_cong [OF this] show ?thesis using forks(2) ok(2) by simp
  qed (use ok(2) in simp)
  then show ?thesis using sys_step_refines [OF step ok(1)] by (simp add: sys_owned_def)
qed

interpretation sys_owner: event_refinement sys_owner_step sys_owned "\<lambda>y. views_of (kmm (skern y))" mem_step
  by unfold_locales (use sys_step_owned sys_step_refines in \<open>auto simp: sys_owner_step_def sys_owned_def\<close>)

text \<open>What the invariants say of mutexes.\<close>

lemma sys_owned_mutex:
  assumes "sys_owned y"
  shows "n \<in> sholds y t \<Longrightarrow> n \<in> sholds y u \<Longrightarrow> t = u"
    "mutex_lock (ksched (skern y)) n \<noteq> 0 \<longleftrightarrow> (\<exists>t. n \<in> sholds y t)"
  using assms unfolding sys_owned_def lock_ok_def by blast+

lemma sys_ok_mutex:
  assumes "sys_ok y"
  shows "\<exists>c. linked (spc y) n c (waitq (ksched (skern y)) (WQ_mutex n)) \<and> distinct c \<and>
       set c = {t. \<exists>tmp. spc y t = In_klock n tmp}"
    "mutex_lock (ksched (skern y)) n = 0 \<Longrightarrow> spc y t = In_klock n tmp \<Longrightarrow>
       (\<exists>u tmp'. spc y u = In_klock n tmp' \<and> task_state (ksched (skern y)) u = TASK_RUNNING) \<or>
       (\<exists>u. spc y u = In_kunlock n) \<or> (\<exists>u h tmp'. spc y u = In_wake n h \<and> spc y h = In_klock n tmp')"
    "task_state (ksched (skern y)) (current (ksched (skern y))) = TASK_RUNNING"
proof -
  note k = sys_okD(1) [OF assms]
  note w = kinv_wakeup [OF k, simplified] and c = kinv_parts(2) [OF k, simplified]
  show "\<exists>c. linked (spc y) n c (waitq (ksched (skern y)) (WQ_mutex n)) \<and> distinct c \<and>
       set c = {t. \<exists>tmp. spc y t = In_klock n tmp}"
    using kinv_queue [OF k, simplified] .
  show "mutex_lock (ksched (skern y)) n = 0 \<Longrightarrow> spc y t = In_klock n tmp \<Longrightarrow>
       (\<exists>u tmp'. spc y u = In_klock n tmp' \<and> task_state (ksched (skern y)) u = TASK_RUNNING) \<or>
       (\<exists>u. spc y u = In_kunlock n) \<or> (\<exists>u h tmp'. spc y u = In_wake n h \<and> spc y h = In_klock n tmp')"
    using w by simp
  show "task_state (ksched (skern y)) (current (ksched (skern y))) = TASK_RUNNING"
    using c unfolding cur_running_def .
qed

text \<open>A fork in a state of the system: the child of the first free slot, or \<^verbatim>\<open>-EAGAIN\<close>.\<close>

definition forked :: "kernel \<Rightarrow> nat \<Rightarrow> u32 \<Rightarrow> nat \<Rightarrow> kernel \<Rightarrow> bool" where
  "forked k n pid c k' \<longleftrightarrow>
     (\<forall>i. used_slot k' i \<longleftrightarrow> i = c \<or> used_slot k i) \<and> \<not> used_slot k c \<and> procs_ok k' \<and> 0 \<le> sint pid \<and>
     ts_pid (task_at k' (task (ksched k') c)) = pid \<and>
     task_state (ksched k') (task (ksched k') c) = TASK_RUNNING \<and> mem_fork n c (contents (kmm k)) (contents (kmm k'))"

lemma first_slot:
  "\<exists>nr l. find_empty_process k = Some (nr, k\<lparr>last_pid := l\<rparr>) \<and> 0 \<le> sint l \<and>
     (if \<exists>i. 1 \<le> i \<and> i < NR_TASKS \<and> \<not> used_slot k i then 0 \<le> sint nr else nr = - EAGAIN)"
proof -
  let ?P = "\<lambda>i. 1 \<le> i \<and> i < NR_TASKS \<and> task (ksched k) i = NULL"
  have P: "?P i \<longleftrightarrow> 1 \<le> i \<and> i < NR_TASKS \<and> \<not> used_slot k i" for i by (auto simp: used_slot_def)
  obtain l where l: "find_empty_process k =
      Some (if \<exists>i. ?P i then of_nat (LEAST i. ?P i) else - EAGAIN, k\<lparr>last_pid := l\<rparr>)" "0 \<le> sint l"
    using find_empty_process_spec [of k] by (elim exE conjE)
  have s: "0 \<le> sint (of_nat (LEAST i. ?P i) :: u32)" if "\<exists>i. ?P i"
  proof -
    have "(LEAST i. ?P i) < 64" using LeastI_ex [OF that] by simp
    then show ?thesis by (simp add: sint_of_nat_small)
  qed
  have D: "(\<exists>i. 1 \<le> i \<and> i < NR_TASKS \<and> \<not> used_slot k i) \<longleftrightarrow> (\<exists>i. ?P i)" by (simp only: P)
  show ?thesis
  proof (cases "\<exists>i. ?P i")
    case True
    then show ?thesis unfolding D if_P [OF True] using l(1) [unfolded if_P [OF True]] l(2) s by blast
  next
    case False
    then show ?thesis unfolding D if_not_P [OF False] using l(1) [unfolded if_not_P [OF False]] l(2) by blast
  qed
qed

lemma sys_fork_available:
  assumes ok: "sys_ok y" and run: "runs_user y n" and r: "fork_resources r (skern y)"
  shows "if \<exists>i. 1 \<le> i \<and> i < NR_TASKS \<and> \<not> used_slot (skern y) i
    then \<exists>pid c k'. sys_fork r (skern y) = Some (Inr (pid, k')) \<and> forked (skern y) n pid c k'
    else \<exists>l. sys_fork r (skern y) = Some (Inr (- EAGAIN, (skern y)\<lparr>last_pid := l\<rparr>))"
proof -
  obtain nr l where l: "find_empty_process (skern y) = Some (nr, (skern y)\<lparr>last_pid := l\<rparr>)" "0 \<le> sint l"
      "if \<exists>i. 1 \<le> i \<and> i < NR_TASKS \<and> \<not> used_slot (skern y) i then 0 \<le> sint nr else nr = - EAGAIN"
    using first_slot by blast
  show ?thesis
  proof (cases "0 \<le> sint nr")
    case True
    then obtain k' where "sys_fork r (skern y) = Some (Inr (l, k'))" "sys_ok (y\<lparr>skern := k'\<rparr>)"
        "forked (skern y) n l (unat nr) k'"
      using sys_ok_forks [OF ok run r l(1)] l(2) kernel_okD(1) [OF sys_okD(2)]
      unfolding forked_def views_of_def by fastforce
    moreover have "nr \<noteq> - EAGAIN" using True by auto
    ultimately show ?thesis using l(3) by (auto split: if_splits)
  next
    case False
    then show ?thesis
      using sys_ok_fork_again(1) [OF ok l(1) False, of r] l(3) by (auto split: if_splits)
  qed
qed

section \<open>The start\<close>

lemma setup_paging_fresh: "fresh_tables (setup_paging s)"
proof -
  let ?m = "pmem (setup_paging s)"
  have "?m (dir_index (child_base n)) = 0" if "n < NR_TASKS" "n \<noteq> 0" for n
  proof -
    have "dir_index (child_base n) = of_nat (4 * (16 * n))" using that(1) by (simp add: dir_index_child)
    then show ?thesis using that by (simp only:) (subst setup_paging_words; simp)
  qed
  moreover have "?m 0 = 0x1007" using setup_paging_words [of 0 s] by simp
  moreover have "?m (0x1000 + 4 * of_nat k) = of_nat (4096 * k + 7)" if "k < USER_PAGES" for k
  proof -
    have "(0x1000 + 4 * of_nat k :: u32) = of_nat (4 * (1024 + k))" by simp
    then show ?thesis using user_page_less [OF that] by (simp only:) (subst setup_paging_words; simp)
  qed
  ultimately show ?thesis by (simp add: fresh_tables_def)
qed

lemma kernel_start_spaces:
  assumes "kernel_start a20 inb e m = Some m'"
  shows "fresh_tables (kmm (mk m'))" "card (free_set (kmm (mk m'))) = 3072"
proof -
  note k = kernel_start_tables(6) [OF assms]
  show "fresh_tables (kmm (mk m'))"
    using setup_paging_fresh [of "kmm (mk m)"] unfolding k fresh_tables_def mem_init_main(2) .
  have "free_set (kmm (mk m')) = {768..<3840}"
    using mem_init_main(1) [of "setup_paging (kmm (mk m))", folded k]
    by (auto simp: free_set_def frames_free_from_def)
  then show "card (free_set (kmm (mk m'))) = 3072" by simp
qed

text \<open>
  The data of \<^verbatim>\<open>kernel/sched.c\<close> and of the mutexes as the image has them: task 0 is the current task and in slot 0, its
  descriptor lies below 1 MB, all kernel mutexes are free.
\<close>

definition linked_data :: "sched \<Rightarrow> bool" where
  "linked_data s \<longleftrightarrow>
     task s 0 = init_task s \<and> current s = init_task s \<and> tasks s (init_task s) = INIT_TASK (init_task s) 0 \<and>
     init_task s \<noteq> NULL \<and> page_of (init_task s) < LOW_MEM \<and>
     (\<forall>n. mutex_lock s n = 0) \<and> (\<forall>n. waitq s (WQ_mutex n) = NULL)"

definition started :: "machine \<Rightarrow> system" where
  "started m = \<lparr>skern = mk m, spc = (\<lambda>_. User), sholds = (\<lambda>_. {})\<rparr>"

lemma started_owned: "sys_ok (started m) \<Longrightarrow> (\<And>n. mutex_lock (ksched (mk m)) n = 0) \<Longrightarrow> sys_owned (started m)"
  by (simp add: sys_owned_def started_def lock_ok_def)

lemma started_ok:
  assumes image: "linked_data (ksched (mk m))" and start: "kernel_start a20 inb e m = Some m'"
  shows "sys_ok (started m')" "sys_owned (started m')"
proof -
  note fresh = kernel_start_spaces(1) [OF start]
  let ?k = "mk m'" and ?s = "ksched (mk m')" and ?t = "init_task (ksched (mk m))"
  note k = kernel_start_tables [OF start]
  have s: "task ?s = (\<lambda>i. if 1 \<le> i \<and> i < NR_TASKS then NULL else task (ksched (mk m)) i)"
      "task ?s 0 = ?t" "current ?s = ?t" "init_task ?s = ?t" "tasks ?s ?t = INIT_TASK ?t 0" "?t \<noteq> NULL" "page_of ?t < LOW_MEM"
      "mutex_lock ?s n = 0" "waitq ?s (WQ_mutex n) = NULL" for n
    using k image by (simp_all add: linked_data_def)
  have u: "used_slot ?k i \<longleftrightarrow> i = 0" for i using s(2,6) unfolding used_slot_def s(1) by auto
  have st: "slot_ok ?k 0"
    using k(3,7) s(2,5)
    by (simp add: slot_ok_def Let_def task_at_def INIT_TASK_def INIT_TSS_def INIT_LDT_segments [unfolded One_nat_def]
        set_tssldt_desc_fields FIRST_TSS_ENTRY_def FIRST_LDT_ENTRY_def child_base_def)
  have "desc_ok ?k 0"
    using s(2,5,7) by (simp add: desc_ok_def Let_def task_at_def kernel_frame_def INIT_TASK_def INIT_LDT_segments [unfolded One_nat_def])
  then have "kernel_ok ?k"
    using u st fresh_spaces(1,2) [OF fresh] by (simp add: kernel_ok_def procs_ok_def)
  moreover have "kstart (ksys_of (started m'))"
  proof -
    have "task ?s i = NULL" if "i \<noteq> 0" "i < NR_TASKS" for i using that s(1) by simp
    then have "i = j" if "i < NR_TASKS" "j < NR_TASKS" "task ?s i \<noteq> NULL" "task ?s i = task ?s j" for i j
      using that by metis
    moreover have "\<exists>i < NR_TASKS. task ?s i = ?t" using s(2) by (intro exI [of _ 0]) simp
    moreover have "task_state ?s ?t = TASK_RUNNING" using s(5) by (simp add: task_state_def INIT_TASK_def)
    ultimately have "tab_wf ?s" unfolding tab_wf_def s(3,4) using s(6) by blast
    then show ?thesis using s by (simp add: kstart_def started_def cur_running_def task_state_def INIT_TASK_def)
  qed
  ultimately show ok: "sys_ok (started m')"
    using kstart_kinv by (simp add: sys_ok_def) (simp add: started_def)
  show "sys_owned (started m')" using started_owned [OF ok] s(8) by blast
qed

end
