(* ===== verification/String_Laws.thy ===== *)
theory String_Laws
  imports Strings "HOL-Library.Sublist"
begin

text \<open>
  The string functions of \<^verbatim>\<open>include/string.h\<close> against lists of bytes: strings in memory, what each
  scan and loop computes on a string that ends, and the results of the functions.
\<close>

section \<open>Strings in memory\<close>

text \<open>\<open>arr m p xs\<close>: the bytes from \<open>p\<close> on are \<open>xs\<close>; \<open>cstr\<close>: and then comes the first zero byte.\<close>

fun arr :: "bmem \<Rightarrow> u32 \<Rightarrow> u8 list \<Rightarrow> bool" where
  "arr m p [] \<longleftrightarrow> True"
| "arr m p (x # xs) \<longleftrightarrow> m p = x \<and> arr m (p + 1) xs"

fun cstr :: "bmem \<Rightarrow> u32 \<Rightarrow> u8 list \<Rightarrow> bool" where
  "cstr m p [] \<longleftrightarrow> m p = 0"
| "cstr m p (x # xs) \<longleftrightarrow> m p = x \<and> x \<noteq> 0 \<and> cstr m (p + 1) xs"

lemma cstr_arr: "cstr m p xs \<Longrightarrow> arr m p xs"
  by (induction xs arbitrary: p) auto

lemma cstr_nonzero: "cstr m p xs \<Longrightarrow> 0 \<notin> set xs"
  by (induction xs arbitrary: p) auto

lemma cstr_append: "cstr m p (xs @ ys) \<longleftrightarrow> arr m p xs \<and> 0 \<notin> set xs \<and> cstr m (p + of_nat (length xs)) ys"
  by (induction xs arbitrary: p) (auto simp: algebra_simps)

lemma arr_append: "arr m p (xs @ ys) \<longleftrightarrow> arr m p xs \<and> arr m (p + of_nat (length xs)) ys"
  by (induction xs arbitrary: p) (auto simp: algebra_simps)

lemma arr_nth: "arr m p xs \<longleftrightarrow> (\<forall>i < length xs. m (p + of_nat i) = xs ! i)"
proof (induction xs arbitrary: p)
  case (Cons x xs)
  then show ?case by (auto simp: nth_Cons algebra_simps split: nat.splits)
qed simp

lemma arr_cong: "(\<And>i. i < length xs \<Longrightarrow> m' (p + of_nat i) = m (p + of_nat i)) \<Longrightarrow> arr m' p xs \<longleftrightarrow> arr m p xs"
  by (simp add: arr_nth)

lemma cstr_iff: "cstr m p xs \<longleftrightarrow> arr m p xs \<and> 0 \<notin> set xs \<and> m (p + of_nat (length xs)) = 0"
  using cstr_append [of m p xs "[]"] by simp

section \<open>The scans\<close>

lemma u32_of_nat_0: "n < 2 ^ 32 \<Longrightarrow> (of_nat n :: u32) = 0 \<longleftrightarrow> n = 0"
  using nat_dvd_not_less [of n "2 ^ 32"] by (auto simp: word_of_nat_eq_0_iff)

lemma scan_arr:
  assumes "length xs < 2 ^ 32" and "arr m p xs"
  shows "repne_scasb c m (of_nat (length xs)) p zf =
    (if c \<in> set xs
     then (of_nat (length xs) - of_nat (length (takeWhile (\<lambda>x. x \<noteq> c) xs)) - 1,
           p + of_nat (length (takeWhile (\<lambda>x. x \<noteq> c) xs)) + 1, True)
     else (0, p + of_nat (length xs), if xs = [] then zf else False))"
  using assms
proof (induction xs arbitrary: p zf)
  case (Cons x xs)
  have n: "(of_nat (length (x # xs)) :: u32) \<noteq> 0" using u32_of_nat_0 [OF Cons.prems(1)] by simp
  have IH: "repne_scasb c m (of_nat (length xs)) (p + 1) False =
    (if c \<in> set xs
     then (of_nat (length xs) - of_nat (length (takeWhile (\<lambda>x. x \<noteq> c) xs)) - 1,
           p + 1 + of_nat (length (takeWhile (\<lambda>x. x \<noteq> c) xs)) + 1, True)
     else (0, p + 1 + of_nat (length xs), False))"
    using Cons.IH [of "p + 1" False] Cons.prems by simp
  show ?case
    using n Cons.prems(2) IH by (subst repne_scasb.simps) (auto simp: algebra_simps)
qed (simp add: repne_scasb.simps)


lemma scan_cstr:
  "cstr m p xs \<Longrightarrow> length xs < unat ecx \<Longrightarrow>
     repne_scasb 0 m ecx p zf = (ecx - of_nat (length xs) - 1, p + of_nat (length xs) + 1, True)"
proof (induction xs arbitrary: p ecx zf)
  case Nil
  then have "ecx \<noteq> 0" by auto
  then show ?case using Nil.prems(1) by (subst repne_scasb.simps) simp
next
  case (Cons x xs)
  then have n: "ecx \<noteq> 0" by auto
  then have "length xs < unat (ecx - 1)" using Cons.prems(2) by (simp add: unat_minus_one)
  then have "repne_scasb 0 m (ecx - 1) (p + 1) False =
      (ecx - 1 - of_nat (length xs) - 1, p + 1 + of_nat (length xs) + 1, True)"
    using Cons.IH Cons.prems(1) by simp
  then show ?case using n Cons.prems(1) by (subst repne_scasb.simps) (auto simp: algebra_simps)
qed

lemma scan_cstr_max:
  assumes "cstr m p xs" and "length xs < 2 ^ 32 - 1"
  shows "repne_scasb 0 m 0xffffffff p zf = (0xffffffff - of_nat (length xs) - 1, p + of_nat (length xs) + 1, True)"
  using assms by (intro scan_cstr) simp_all

lemma scan_len_cstr:
  assumes "cstr m p xs" and "length xs < 2 ^ 32 - 1"
  shows "scan_len p m = of_nat (length xs)"
proof -
  have "(0xffffffff :: u32) = - 1" by simp
  then show ?thesis unfolding scan_len_def scan_cstr_max [OF assms] by (simp add: not_eq_complement del: word_eq_numeral_iff_iszero)
qed

lemma scan_end_cstr:
  assumes "cstr m p xs" and "length xs < 2 ^ 32 - 1"
  shows "scan_end p m = p + of_nat (length xs)"
  unfolding scan_end_def scan_cstr_max [OF assms] by simp

lemma in_set_cstr:
  assumes "cstr m p xs" and "length xs < 2 ^ 32 - 1"
  shows "in_set m p (scan_len p m) c \<longleftrightarrow> c \<in> set xs"
  unfolding in_set_def scan_len_cstr [OF assms]
  using scan_arr [of xs m p c False] cstr_arr [OF assms(1)] assms(2) by simp

section \<open>Searching\<close>

lemma strchr_loop_cstr:
  assumes "cstr m p xs"
  shows "strchr_loop m c p =
    Some (if c \<in> set (xs @ [0]) then p + of_nat (length (takeWhile (\<lambda>x. x \<noteq> c) (xs @ [0]))) else 0)"
  using assms
proof (induction xs arbitrary: p)
  case Nil
  then show ?case by (subst strchr_loop.simps) (simp add: Let_def)
next
  case (Cons x xs)
  then show ?case by (subst strchr_loop.simps) (auto simp: Let_def algebra_simps)
qed

text \<open>The position of the last element that satisfies a predicate.\<close>

fun last_pos :: "('a \<Rightarrow> bool) \<Rightarrow> 'a list \<Rightarrow> nat option" where
  "last_pos P [] = None"
| "last_pos P (x # xs) =
     (case last_pos P xs of
        Some i \<Rightarrow> Some (Suc i)
      | None \<Rightarrow> if P x then Some 0 else None)"

lemma strrchr_loop_cstr:
  assumes "cstr m p xs"
  shows "strrchr_loop m c p e =
    Some (case last_pos (\<lambda>x. x = c) (xs @ [0]) of Some i \<Rightarrow> p + of_nat i | None \<Rightarrow> e)"
  using assms
proof (induction xs arbitrary: p e)
  case Nil
  then show ?case by (subst strrchr_loop.simps) (simp add: Let_def)
next
  case (Cons x xs)
  then show ?case by (subst strrchr_loop.simps) (auto simp: Let_def algebra_simps split: option.splits)
qed

section \<open>Spans\<close>

text \<open>
  The loops of \<^verbatim>\<open>strspn\<close>, \<^verbatim>\<open>strcspn\<close>, \<^verbatim>\<open>strpbrk\<close> and \<^verbatim>\<open>strtok\<close> have one shape: they read bytes while
  \<open>P\<close> holds, and end with \<open>stop\<close> at the terminator or with \<open>hit\<close> at the first other byte.
\<close>

locale span_loop =
  fixes loop :: "u32 \<Rightarrow> 'a option" and m :: bmem and P :: "u8 \<Rightarrow> bool" and stop hit :: "u32 \<Rightarrow> 'a"
  assumes step: "loop esi =
    (if m esi = 0 then Some (stop (esi + 1)) else if P (m esi) then loop (esi + 1) else Some (hit (esi + 1)))"
begin

lemma span:
  "cstr m p xs \<Longrightarrow> loop p =
     Some ((if takeWhile P xs = xs then stop else hit) (p + of_nat (length (takeWhile P xs)) + 1))"
proof (induction xs arbitrary: p)
  case Nil
  then show ?case by (subst step) simp
next
  case (Cons x xs)
  then show ?case by (subst step) (auto simp: algebra_simps)
qed

end

interpretation spn: span_loop "strspn_loop m ct edx" m "in_set m ct edx" id id for m ct edx
  by unfold_locales (subst strspn_loop.simps, simp add: Let_def)

interpretation cspn: span_loop "strcspn_loop m ct edx" m "\<lambda>x. \<not> in_set m ct edx x" id id for m ct edx
  by unfold_locales (subst strcspn_loop.simps, simp add: Let_def)

interpretation pbrk: span_loop "strpbrk_loop m ct edx" m "\<lambda>x. \<not> in_set m ct edx x" "\<lambda>_. 0" "\<lambda>e. e - 1" for m ct edx
  by unfold_locales (subst strpbrk_loop.simps, simp add: Let_def)

interpretation skip: span_loop "strtok_skip m ct edx" m "in_set m ct edx" Inl Inr for m ct edx
  by unfold_locales (subst strtok_skip.simps, simp add: Let_def)

interpretation scan: span_loop "strtok_scan m ct edx" m "\<lambda>x. \<not> in_set m ct edx x" Inl Inr for m ct edx
  by unfold_locales (subst strtok_scan.simps, simp add: Let_def)

lemma takeWhile_all: "takeWhile P xs = xs \<longleftrightarrow> (\<forall>x \<in> set xs. P x)"
  by (induction xs) auto

lemma span_loops_cstr:
  assumes s: "cstr m p xs" and t: "cstr m ct ys" "length ys < 2 ^ 32 - 1"
  defines "edx \<equiv> scan_len ct m" and "k \<equiv> length (takeWhile (\<lambda>x. x \<in> set ys) xs)"
    and "l \<equiv> length (takeWhile (\<lambda>x. x \<notin> set ys) xs)"
  shows "strspn_loop m ct edx p = Some (p + of_nat k + 1)"
    "strcspn_loop m ct edx p = Some (p + of_nat l + 1)"
    "strpbrk_loop m ct edx p = Some (if set xs \<inter> set ys = {} then 0 else p + of_nat l)"
    "strtok_skip m ct edx p = Some ((if takeWhile (\<lambda>x. x \<in> set ys) xs = xs then Inl else Inr) (p + of_nat k + 1))"
    "strtok_scan m ct edx p = Some ((if takeWhile (\<lambda>x. x \<notin> set ys) xs = xs then Inl else Inr) (p + of_nat l + 1))"
proof -
  have i: "in_set m ct edx = (\<lambda>x. x \<in> set ys)" using in_set_cstr [OF t] by (auto simp: edx_def)
  have d: "set xs \<inter> set ys = {} \<longleftrightarrow> takeWhile (\<lambda>x. x \<notin> set ys) xs = xs" unfolding takeWhile_all by blast
  show "strspn_loop m ct edx p = Some (p + of_nat k + 1)"
    "strcspn_loop m ct edx p = Some (p + of_nat l + 1)"
    "strpbrk_loop m ct edx p = Some (if set xs \<inter> set ys = {} then 0 else p + of_nat l)"
    "strtok_skip m ct edx p = Some ((if takeWhile (\<lambda>x. x \<in> set ys) xs = xs then Inl else Inr) (p + of_nat k + 1))"
    "strtok_scan m ct edx p = Some ((if takeWhile (\<lambda>x. x \<notin> set ys) xs = xs then Inl else Inr) (p + of_nat l + 1))"
    unfolding spn.span [OF s] cspn.span [OF s] pbrk.span [OF s] skip.span [OF s] scan.span [OF s] i d k_def l_def
    by simp_all
qed

section \<open>Substrings\<close>

lemma cmpsb_prefix:
  "arr m p ys \<Longrightarrow> arr m q ys \<Longrightarrow> length ys < 2 ^ 32 \<Longrightarrow>
     repe_cmpsb m (of_nat (length ys)) p q fl = (p + of_nat (length ys), if ys = [] then fl else (True, False))"
proof (induction ys arbitrary: p q fl)
  case (Cons y ys)
  have "(of_nat (length (y # ys)) :: u32) \<noteq> 0" using u32_of_nat_0 [OF Cons.prems(3)] by simp
  then show ?case using Cons by (subst repe_cmpsb.simps) (auto simp: algebra_simps)
qed (simp add: repe_cmpsb.simps)

lemma cmpsb_differ:
  "cstr m p xs \<Longrightarrow> arr m q ys \<Longrightarrow> 0 \<notin> set ys \<Longrightarrow> length ys < 2 ^ 32 \<Longrightarrow> \<not> prefix ys xs \<Longrightarrow>
     \<exists>k lt. repe_cmpsb m (of_nat (length ys)) p q fl = (p + of_nat k + 1, (False, lt)) \<and>
       (if m (p + of_nat k) = 0 then length xs < length ys else xs \<noteq> [])"
proof (induction ys arbitrary: p q xs fl)
  case (Cons y ys)
  have n: "(of_nat (length (y # ys)) :: u32) \<noteq> 0" using u32_of_nat_0 [OF Cons.prems(4)] by simp
  show ?case
  proof (cases "m p = y")
    case False
    then have "repe_cmpsb m (of_nat (length (y # ys))) p q fl = (p + of_nat 0 + 1, (False, sint (m p) < sint y))"
      using n Cons.prems(2) by (subst repe_cmpsb.simps) simp
    moreover have "if m (p + of_nat 0) = 0 then length xs < length (y # ys) else xs \<noteq> []"
      using Cons.prems(1) by (cases xs) auto
    ultimately show ?thesis by blast
  next
    case True
    then obtain zs where xs: "xs = y # zs" "cstr m (p + 1) zs" using Cons.prems(1,3) by (cases xs) auto
    then have "\<not> prefix ys zs" using Cons.prems(5) by simp
    then obtain k lt where k: "repe_cmpsb m (of_nat (length ys)) (p + 1) (q + 1) (True, False) =
        (p + 1 + of_nat k + 1, (False, lt))"
      "if m (p + 1 + of_nat k) = 0 then length zs < length ys else zs \<noteq> []"
      using Cons.IH [OF xs(2), of "q + 1" "(True, False)"] Cons.prems by auto
    have "repe_cmpsb m (of_nat (length (y # ys))) p q fl = (p + of_nat (Suc k) + 1, (False, lt))"
      using n True Cons.prems(2) k(1) by (subst repe_cmpsb.simps) (simp add: algebra_simps)
    moreover have "if m (p + of_nat (Suc k)) = 0 then length xs < length (y # ys) else xs \<noteq> []"
      using k(2) xs(1) by (auto simp: algebra_simps split: if_splits)
    ultimately show ?thesis by blast
  qed
qed simp

text \<open>The position of the first occurrence of \<open>ys\<close> in \<open>xs\<close>.\<close>

fun first_occ :: "'a list \<Rightarrow> 'a list \<Rightarrow> nat option" where
  "first_occ ys [] = (if ys = [] then Some 0 else None)"
| "first_occ ys (x # xs) = (if prefix ys (x # xs) then Some 0 else map_option Suc (first_occ ys xs))"

lemma first_occ_short: "length xs < length ys \<Longrightarrow> first_occ ys xs = None"
  by (induction xs) (auto dest: prefix_length_le)

lemma first_occ_None: "first_occ ys xs = None \<longleftrightarrow> \<not> sublist ys xs"
  by (induction xs) (auto simp: sublist_Cons_right)

lemma first_occ_Some:
  "first_occ ys xs = Some i \<Longrightarrow> i \<le> length xs \<and> prefix ys (drop i xs) \<and> (\<forall>j < i. \<not> prefix ys (drop j xs))"
proof (induction xs arbitrary: i)
  case (Cons x xs)
  show ?case
  proof (cases "prefix ys (x # xs)")
    case False
    then obtain j where j: "i = Suc j" "first_occ ys xs = Some j" using Cons.prems by auto
    show ?thesis using Cons.IH [OF j(2)] j(1) False by (auto simp: less_Suc_eq_0_disj)
  qed (use Cons.prems in auto)
qed (auto split: if_splits)

lemma strstr_loop_cstr:
  assumes t: "arr m ct ys" "0 \<notin> set ys" "length ys < 2 ^ 32"
  shows "cstr m cs xs \<Longrightarrow> zf = (ys = []) \<Longrightarrow>
    strstr_loop m ct (of_nat (length ys)) zf cs =
      Some (case first_occ ys xs of None \<Rightarrow> 0 | Some i \<Rightarrow> cs + of_nat i)"
proof (induction xs arbitrary: cs zf)
  case Nil
  show ?case
  proof (cases "ys = []")
    case True
    then show ?thesis using Nil by (subst strstr_loop.simps) (simp add: repe_cmpsb.simps)
  next
    case False
    then have "\<not> prefix ys []" by simp
    from cmpsb_differ [OF Nil.prems(1) t this, of "(zf, False)"] obtain k lt where
      "repe_cmpsb m (of_nat (length ys)) cs ct (zf, False) = (cs + of_nat k + 1, (False, lt))" "m (cs + of_nat k) = 0"
      by (auto split: if_splits)
    then show ?thesis using False by (subst strstr_loop.simps) simp
  qed
next
  case (Cons x xs)
  show ?case
  proof (cases "prefix ys (x # xs)")
    case True
    then obtain zs where "x # xs = ys @ zs" by (auto simp: prefix_def)
    then have "arr m cs ys" using Cons.prems(1) cstr_arr arr_append by metis
    from cmpsb_prefix [OF this t(1,3), of "(zf, False)"] show ?thesis
      using True Cons.prems(2) by (subst strstr_loop.simps) simp
  next
    case False
    from cmpsb_differ [OF Cons.prems(1) t this, of "(zf, False)"] obtain k lt where k:
      "repe_cmpsb m (of_nat (length ys)) cs ct (zf, False) = (cs + of_nat k + 1, (False, lt))"
      "if m (cs + of_nat k) = 0 then length (x # xs) < length ys else x # xs \<noteq> []" by blast
    show ?thesis
    proof (cases "m (cs + of_nat k) = 0")
      case True
      then have "first_occ ys (x # xs) = None" using k(2) first_occ_short [of "x # xs" ys] by simp
      then show ?thesis using k(1) True by (subst strstr_loop.simps) simp
    next
      case nz: False
      have "ys \<noteq> []" using False by auto
      then have "strstr_loop m ct (of_nat (length ys)) False (cs + 1) =
          Some (case first_occ ys xs of None \<Rightarrow> 0 | Some i \<Rightarrow> cs + 1 + of_nat i)"
        using Cons.IH [of "cs + 1" False] Cons.prems(1) by simp
      then show ?thesis using k(1) nz False
        by (subst strstr_loop.simps) (auto simp: algebra_simps split: option.splits)
    qed
  qed
qed

lemma strstr_cstr:
  assumes "cstr m cs xs" and "cstr m ct ys" and "length ys < 2 ^ 32 - 1"
  shows "strstr cs ct m = Some (case first_occ ys xs of None \<Rightarrow> 0 | Some i \<Rightarrow> cs + of_nat i)"
proof -
  have "(of_nat (length ys) :: u32) = 0 \<longleftrightarrow> ys = []" using assms(3) by (subst u32_of_nat_0) simp_all
  then show ?thesis
    using strstr_loop_cstr [OF cstr_arr [OF assms(2)] cstr_nonzero [OF assms(2)] _ assms(1)] assms(3)
    unfolding strstr_def scan_len_cstr [OF assms(2,3)] Let_def by simp
qed

section \<open>Comparing\<close>

definition cmp_signed :: "u8 list \<Rightarrow> u8 list \<Rightarrow> u32" where
  "cmp_signed a b =
     (if a = b then 0
      else if (map sint a, map sint b) \<in> lexord {(u, v). u < v} then - 1 else 1)"

lemma cmp_signed_Cons [simp]:
  "cmp_signed (x # a) (y # b) = (if x = y then cmp_signed a b else if sint x < sint y then - 1 else 1)"
  by (auto simp: cmp_signed_def dest: signed_word_eqI)

lemma cmp_signed_Nil [simp]: "cmp_signed [] [] = 0"
  by (simp add: cmp_signed_def)

lemma sint_neq_less: "x \<noteq> (y :: u8) \<Longrightarrow> \<not> sint x < sint y \<Longrightarrow> sint y < sint x"
  using signed_word_eqI linorder_neqE by metis

lemma strcmp_loop_cstr:
  "cstr m cs xs \<Longrightarrow> cstr m ct ys \<Longrightarrow> strcmp_loop m ct cs = Some (cmp_signed (xs @ [0]) (ys @ [0]))"
proof (induction xs arbitrary: cs ct ys)
  case Nil
  then show ?case by (subst strcmp_loop.simps, cases ys) (auto simp: Let_def dest: sint_neq_less)
next
  case (Cons x xs)
  then show ?case
  proof (cases ys)
    case Nil
    then show ?thesis using Cons.prems by (subst strcmp_loop.simps) (auto simp: Let_def dest: sint_neq_less)
  next
    case (Cons y zs)
    then show ?thesis using Cons.prems Cons.IH [of "cs + 1" "ct + 1" zs] \<open>cstr m cs (x # xs)\<close>
      by (subst strcmp_loop.simps) (auto simp: Let_def dest: sint_neq_less signed_word_eqI)
  qed
qed


lemma sint_count_Suc: "Suc n < 2 ^ 31 \<Longrightarrow> \<not> sint (of_nat (Suc n) - 1 :: u32) < 0"
  using sint_of_nat_small [of n] by simp

lemma sint_count_0: "sint (of_nat 0 - 1 :: u32) < 0"
  by simp

lemma strncmp_loop_arr:
  "n < 2 ^ 31 \<Longrightarrow> cstr m cs xs \<Longrightarrow> cstr m ct ys \<Longrightarrow>
     strncmp_loop m (of_nat n) ct cs = cmp_signed (take n (xs @ [0])) (take n (ys @ [0]))"
proof (induction n arbitrary: cs ct xs ys)
  case 0
  then show ?case by (subst strncmp_loop.simps) simp
next
  case (Suc n)
  have pos: "\<not> sint (of_nat (Suc n) - 1 :: u32) < 0" by (rule sint_count_Suc [OF Suc.prems(1)])
  have dec: "(of_nat (Suc n) - 1 :: u32) = of_nat n" by simp
  have IH: "cstr m (cs + 1) (tl xs) \<Longrightarrow> cstr m (ct + 1) (tl ys) \<Longrightarrow>
      strncmp_loop m (of_nat n) (ct + 1) (cs + 1) = cmp_signed (take n (tl xs @ [0])) (take n (tl ys @ [0]))"
    using Suc by simp
  show ?case
    using Suc.prems(2,3) IH pos unfolding dec
    by (subst strncmp_loop.simps, cases xs; cases ys)
      (auto simp: Let_def dest: sint_neq_less signed_word_eqI)
qed

lemma cmpsb_arr:
  "length xs = length ys \<Longrightarrow> length xs < 2 ^ 32 \<Longrightarrow> xs \<noteq> [] \<or> fl = (True, lt) \<Longrightarrow> arr m cs xs \<Longrightarrow> arr m ct ys \<Longrightarrow>
     memcmp fl cs ct (of_nat (length xs)) m = cmp_signed xs ys"
proof (induction xs ys arbitrary: cs ct fl lt rule: list_induct2)
  case Nil
  then show ?case by (simp add: memcmp_def repe_cmpsb.simps)
next
  case (Cons x xs y ys)
  have n: "(of_nat (length (x # xs)) :: u32) \<noteq> 0" using u32_of_nat_0 [OF Cons.prems(1)] by simp
  have d: "(of_nat (length (x # xs)) - 1 :: u32) = of_nat (length xs)" by simp
  have IH: "memcmp (True, False) (cs + 1) (ct + 1) (of_nat (length xs)) m = cmp_signed xs ys"
    using Cons.IH [of "(True, False)" False "cs + 1" "ct + 1"] Cons.prems by simp
  show ?case
    using n IH Cons.prems(3,4) unfolding memcmp_def
    by (subst repe_cmpsb.simps) (auto simp: Let_def d dest: sint_neq_less signed_word_eqI split: if_splits)
qed

section \<open>Copying\<close>

text \<open>
  \<open>blit d s n m\<close> is \<open>m\<close> with the \<open>n\<close> bytes from \<open>d\<close> on replaced by those from \<open>s\<close> on, as they were in \<open>m\<close>;
  distances are taken modulo \<open>2\<^sup>3\<^sup>2\<close>.  A copy upwards may overlap the source from below, one downwards
  from above.
\<close>

definition blit :: "u32 \<Rightarrow> u32 \<Rightarrow> u32 \<Rightarrow> bmem \<Rightarrow> bmem" where
  "blit d s n m = (\<lambda>q. if q - d < n then m (s + (q - d)) else m q)"

definition copy_up_ok :: "u32 \<Rightarrow> u32 \<Rightarrow> u32 \<Rightarrow> bool" where
  "copy_up_ok d s n \<longleftrightarrow> d = s \<or> n \<le> d - s"

lemma blit_0 [simp]: "blit d s 0 m = m"
  by (simp add: blit_def)

lemma unat_Suc_minus_one: "n \<noteq> 0 \<Longrightarrow> unat n = Suc (unat (n - 1 :: u32))"
  by (simp add: unat_minus_one unat_gt_0)

lemma word_less_minus_one: "d \<noteq> 0 \<Longrightarrow> n \<noteq> 0 \<Longrightarrow> d - 1 < n - 1 \<longleftrightarrow> d < (n :: u32)"
  using unat_Suc_minus_one [of d] unat_Suc_minus_one [of n] by (simp add: word_less_nat_alt)

lemma blit_step_up:
  assumes n: "n \<noteq> 0" and ok: "copy_up_ok d s n"
  shows "blit (d + 1) (s + 1) (n - 1) (m(d := m s)) = blit d s n m"
proof
  fix q
  show "blit (d + 1) (s + 1) (n - 1) (m(d := m s)) q = blit d s n m q"
  proof (cases "q = d")
    case True
    then show ?thesis using n by (simp add: blit_def word_gt_0)
  next
    case False
    then have q: "q - d \<noteq> 0" by simp
    have l: "q - (d + 1) < n - 1 \<longleftrightarrow> q - d < n" using word_less_minus_one [OF q n] by (simp add: algebra_simps)
    have "s + (q - d) \<noteq> d" if "q - d < n"
    proof
      assume "s + (q - d) = d"
      then have "q - d = d - s" by (metis add_diff_cancel_left')
      then show False using ok that q by (auto simp: copy_up_ok_def)
    qed
    then show ?thesis using False l by (auto simp: blit_def algebra_simps)
  qed
qed

lemma copy_up_ok_step:
  assumes "copy_up_ok d s n" and "n \<noteq> 0"
  shows "copy_up_ok (d + 1) (s + 1) (n - 1)"
proof -
  have "n - 1 \<le> n" using assms(2) by (simp add: word_le_nat_alt unat_minus_one)
  then show ?thesis using assms(1) by (auto simp: copy_up_ok_def)
qed

lemma rep_movsb_up:
  "copy_up_ok edi esi ecx \<Longrightarrow> rep_movsb False ecx esi edi m = blit edi esi ecx m"
proof (induction "unat ecx" arbitrary: ecx esi edi m)
  case 0
  then have "ecx = 0" by (simp add: unat_eq_zero)
  then show ?case by (subst rep_movsb.simps) simp
next
  case (Suc k)
  then have n: "ecx \<noteq> 0" by auto
  then have "unat (ecx - 1) = k" using Suc(2) by (simp add: unat_minus_one)
  then have "rep_movsb False (ecx - 1) (esi + 1) (edi + 1) (m(edi := m esi)) =
      blit (edi + 1) (esi + 1) (ecx - 1) (m(edi := m esi))"
    using Suc(1) copy_up_ok_step [OF Suc.prems n] by simp
  then show ?case using n blit_step_up [OF n Suc.prems] by (subst rep_movsb.simps) (simp add: Let_def)
qed

text \<open>Downwards, the last byte first.\<close>

lemma blit_step_down:
  assumes n: "n \<noteq> 0" and ok: "copy_up_ok s d n"
  shows "blit d s (n - 1) (m(d + (n - 1) := m (s + (n - 1)))) = blit d s n m"
proof
  fix q
  have lt: "q - d < n \<longleftrightarrow> q - d < n - 1 \<or> q - d = n - 1"
  proof -
    have "unat n = Suc (unat (n - 1))" using n by (rule unat_Suc_minus_one)
    then show ?thesis by (auto simp: word_less_nat_alt word_unat_eq_iff less_Suc_eq)
  qed
  show "blit d s (n - 1) (m(d + (n - 1) := m (s + (n - 1)))) q = blit d s n m q"
  proof (cases "q - d = n - 1")
    case True
    then have "q = d + (n - 1)" by (metis add.commute diff_add_cancel)
    then show ?thesis using lt True by (simp add: blit_def)
  next
    case False
    then have "q \<noteq> d + (n - 1)" by auto
    moreover have "s + (q - d) \<noteq> d + (n - 1)" if l: "q - d < n - 1"
    proof
      assume "s + (q - d) = d + (n - 1)"
      then have e: "s - d = (n - 1) - (q - d)" by (simp add: algebra_simps)
      have "(n - 1) - (q - d) < n" "(n - 1) - (q - d) \<noteq> 0"
      proof -
        have u: "unat n = Suc (unat (n - 1))" using n by (rule unat_Suc_minus_one)
        have "unat ((n - 1) - (q - d)) = unat (n - 1) - unat (q - d)"
          using l by (intro unat_sub) simp
        then show "(n - 1) - (q - d) < n" using u by (simp add: word_less_nat_alt)
        show "(n - 1) - (q - d) \<noteq> 0" using False by simp
      qed
      then have "s - d < n" "s - d \<noteq> 0" unfolding e .
      then show False using ok unfolding copy_up_ok_def by auto
    qed
    ultimately show ?thesis using lt False by (simp add: blit_def)
  qed
qed

lemma rep_movsb_down:
  "copy_up_ok s d n \<Longrightarrow> rep_movsb True n (s + n - 1) (d + n - 1) m = blit d s n m"
proof (induction "unat n" arbitrary: n m)
  case 0
  then have "n = 0" by (simp add: unat_eq_zero)
  then show ?case by (subst rep_movsb.simps) simp
next
  case (Suc k)
  then have n: "n \<noteq> 0" by auto
  have le: "n - 1 \<le> n" using n by (simp add: word_le_nat_alt unat_minus_one)
  have ok: "copy_up_ok s d (n - 1)" using Suc.prems le by (auto simp: copy_up_ok_def)
  have k: "k = unat (n - 1)" using Suc(2) n by (simp add: unat_minus_one)
  have step: "rep_movsb True n a b m = rep_movsb True (n - 1) (a - 1) (b - 1) (m(b := m a))" for a b
    using n by (subst rep_movsb.simps) (simp add: Let_def)
  have e: "d + n - 1 = d + (n - 1)" "s + n - 1 = s + (n - 1)" by (simp_all add: algebra_simps)
  have "rep_movsb True n (s + n - 1) (d + n - 1) m =
      rep_movsb True (n - 1) (s + (n - 1) - 1) (d + (n - 1) - 1) (m(d + (n - 1) := m (s + (n - 1))))"
    unfolding step e ..
  also have "\<dots> = blit d s (n - 1) (m(d + (n - 1) := m (s + (n - 1))))"
    by (rule Suc(1) [OF k ok])
  finally show ?case using blit_step_down [OF n Suc.prems] by simp
qed

lemma memmove_blit:
  assumes "unat dest + unat n \<le> 2 ^ 32" and "unat src + unat n \<le> 2 ^ 32"
  shows "memmove dest src n m = (dest, blit dest src n m, src \<le> dest)"
proof -
  have ok: "copy_up_ok a b n" if "a < b" "unat b + unat n \<le> 2 ^ 32" for a b
  proof -
    have "unat (a - b) = unat a + 2 ^ 32 - unat b" using that(1) by (simp add: unat_sub_if' word_less_nat_alt)
    then have "unat n \<le> unat (a - b)" using that(2) by linarith
    then show ?thesis by (simp add: copy_up_ok_def word_le_nat_alt)
  qed
  show ?thesis
  proof (cases "dest < src")
    case True
    then show ?thesis using rep_movsb_up [OF ok [OF True assms(2)]] by (simp add: memmove_def)
  next
    case False
    then have "copy_up_ok src dest n"
      using ok [of src dest] assms(1) by (cases "src = dest") (auto simp: copy_up_ok_def)
    then show ?thesis using False rep_movsb_down by (simp add: memmove_def)
  qed
qed

lemma rep_stosb_set: "rep_stosb al ecx edi m = (\<lambda>q. if q - edi < ecx then al else m q)"
proof (induction "unat ecx" arbitrary: ecx edi m)
  case 0
  then have "ecx = 0" by (simp add: unat_eq_zero)
  then show ?case by (subst rep_stosb.simps) simp
next
  case (Suc k)
  then have n: "ecx \<noteq> 0" by auto
  then have "unat (ecx - 1) = k" using Suc(2) by (simp add: unat_minus_one)
  then have IH: "rep_stosb al (ecx - 1) (edi + 1) (m(edi := al)) =
      (\<lambda>q. if q - (edi + 1) < ecx - 1 then al else (m(edi := al)) q)" using Suc(1) by blast
  have "(if q - (edi + 1) < ecx - 1 then al else (m(edi := al)) q) = (if q - edi < ecx then al else m q)" for q
  proof (cases "q = edi")
    case True
    then show ?thesis using n by (simp add: word_gt_0)
  next
    case False
    then have "q - edi - 1 < ecx - 1 \<longleftrightarrow> q - edi < ecx" using n by (intro word_less_minus_one) simp_all
    then show ?thesis using False by (simp add: algebra_simps)
  qed
  then show ?case using n IH by (subst rep_stosb.simps) simp
qed

text \<open>The copy of a string, with its terminator.\<close>

lemma cstr_upd:
  assumes "\<And>i. i \<le> length xs \<Longrightarrow> p + of_nat i \<noteq> d"
  shows "cstr (m(d := v)) p xs \<longleftrightarrow> cstr m p xs"
proof -
  have "arr (m(d := v)) p xs \<longleftrightarrow> arr m p xs" using assms by (intro arr_cong) simp
  then show ?thesis using assms [of "length xs"] by (simp add: cstr_iff)
qed

lemma copy_up_apart:
  assumes "copy_up_ok d s (of_nat n)" and "i < n" and "n < 2 ^ 32" and "d \<noteq> s"
  shows "s + of_nat i \<noteq> d"
proof
  assume "s + of_nat i = d"
  then have "d - s = of_nat i" by (metis add_diff_cancel_left')
  then have "(of_nat n :: u32) \<le> of_nat i" using assms(1,4) by (simp add: copy_up_ok_def)
  then show False using assms(2,3) by (simp add: word_le_nat_alt unat_of_nat)
qed

lemma cstr_after_write:
  assumes "cstr m s (x # xs)" and "copy_up_ok d s (of_nat n)" and "Suc (length xs) < n \<or> n = Suc (Suc (length xs))" and "n < 2 ^ 32"
  shows "cstr (m(d := x)) (s + 1) xs"
proof (cases "d = s")
  case True
  then have "m(d := x) = m" using assms(1) by auto
  then show ?thesis using assms(1) by simp
next
  case False
  have "s + 1 + of_nat i \<noteq> d" if "i \<le> length xs" for i
    using copy_up_apart [OF assms(2) _ assms(4) False, of "Suc i"] that assms(3) by (auto simp: algebra_simps)
  then show ?thesis using assms(1) cstr_upd by simp
qed

lemma copy_string_blit:
  "cstr m src xs \<Longrightarrow> length xs + 1 < 2 ^ 32 \<Longrightarrow> copy_up_ok dest src (of_nat (length xs + 1)) \<Longrightarrow>
     copy_string src dest m = Some (blit dest src (of_nat (length xs + 1)) m)"
proof (induction xs arbitrary: src dest m)
  case Nil
  have "blit dest src 1 m = m(dest := 0)" using Nil by (auto simp: blit_def fun_eq_iff)
  then show ?case using Nil by (subst copy_string.simps) (simp add: Let_def)
next
  case (Cons x xs)
  let ?n = "of_nat (length (x # xs) + 1) :: u32"
  have n: "?n \<noteq> 0" using u32_of_nat_0 [OF Cons.prems(2)] by simp
  have n1: "?n - 1 = of_nat (length xs + 1)" by simp
  have c: "cstr (m(dest := x)) (src + 1) xs"
    using cstr_after_write [OF Cons.prems(1,3)] Cons.prems(2) by simp
  have x: "m src = x" "x \<noteq> 0" using Cons.prems(1) by simp_all
  have "copy_string (src + 1) (dest + 1) (m(dest := x)) =
      Some (blit (dest + 1) (src + 1) (?n - 1) (m(dest := x)))"
    unfolding n1 using Cons.prems(2) copy_up_ok_step [OF Cons.prems(3) n, unfolded n1] by (intro Cons.IH [OF c]) simp_all
  then show ?case using blit_step_up [OF n Cons.prems(3), of m] x by (subst copy_string.simps) (simp add: Let_def)
qed

lemma strncat_loop_blit:
  "cstr m src xs \<Longrightarrow> n < 2 ^ 31 \<Longrightarrow> length xs + 1 < 2 ^ 32 \<Longrightarrow> copy_up_ok edi src (of_nat (length xs + 1)) \<Longrightarrow>
     strncat_loop (of_nat n) src edi m =
       (let k = (if n \<le> length xs then n else length xs + 1) in (edi + of_nat k, blit edi src (of_nat k) m))"
proof (induction xs arbitrary: src edi m n)
  case Nil
  have b: "blit edi src 1 m = m(edi := 0)" using Nil by (auto simp: blit_def fun_eq_iff)
  show ?case
  proof (cases n)
    case 0
    then show ?thesis by (subst strncat_loop.simps) simp
  next
    case (Suc k)
    then have "\<not> sint (of_nat n - 1 :: u32) < 0" using sint_count_Suc [of k] Nil.prems(2) by simp
    then show ?thesis using Nil.prems(1) Suc b by (subst strncat_loop.simps) (simp add: Let_def)
  qed
next
  case (Cons x xs)
  let ?n = "of_nat (length (x # xs) + 1) :: u32"
  show ?case
  proof (cases n)
    case 0
    then show ?thesis by (subst strncat_loop.simps) simp
  next
    case (Suc k)
    then have pos: "\<not> sint (of_nat n - 1 :: u32) < 0" using sint_count_Suc [of k] Cons.prems(2) by simp
    have n0: "?n \<noteq> 0" using u32_of_nat_0 [OF Cons.prems(3)] by simp
    have n1: "?n - 1 = of_nat (length xs + 1)" by simp
    have c: "cstr (m(edi := x)) (src + 1) xs" using cstr_after_write [OF Cons.prems(1,4)] Cons.prems(3) by simp
    let ?k = "if k \<le> length xs then k else length xs + 1"
    have IH: "strncat_loop (of_nat k) (src + 1) (edi + 1) (m(edi := x)) =
        (edi + 1 + of_nat ?k, blit (edi + 1) (src + 1) (of_nat ?k) (m(edi := x)))"
      by (rule Cons.IH [OF c, of k "edi + 1", unfolded Let_def])
        (use Cons.prems(2,3) Suc copy_up_ok_step [OF Cons.prems(4) n0, unfolded n1] in simp_all)
    have k1: "(if n \<le> length (x # xs) then n else length (x # xs) + 1) = Suc ?k" using Suc by simp
    have kb: "Suc ?k \<le> length (x # xs) + 1" by simp
    have nz: "(of_nat (Suc ?k) :: u32) \<noteq> 0" using Cons.prems(3) kb by (subst u32_of_nat_0) auto
    have le: "(of_nat (Suc ?k) :: u32) \<le> ?n"
      using Cons.prems(3) kb by (subst word_le_nat_alt, subst (1 2) unat_of_nat) auto
    have ok: "copy_up_ok edi src (of_nat (Suc ?k))" using Cons.prems(4) le by (auto simp: copy_up_ok_def)
    have "blit (edi + 1) (src + 1) (of_nat ?k) (m(edi := x)) = blit edi src (of_nat (Suc ?k)) m"
      using blit_step_up [OF nz ok, of m] Cons.prems(1) by simp
    then show ?thesis
      unfolding k1 Let_def using IH pos Cons.prems(1) Suc
      by (subst strncat_loop.simps) (simp add: Let_def algebra_simps)
  qed
qed

section \<open>Tokens\<close>

lemma strtok_6_token: "ebx \<noteq> 0 \<Longrightarrow> m ebx \<noteq> 0 \<Longrightarrow> strtok_6 ebx esi m = (ebx, esi, m)"
  by (simp add: strtok_6_def strtok_7_def)

text \<open>One call on the rest \<open>xs\<close> of the string: the leading delimiters, the token, what follows it.\<close>

definition next_token :: "u8 set \<Rightarrow> u8 list \<Rightarrow> u8 list \<times> u8 list \<times> u8 list" where
  "next_token D xs =
     (let zs = dropWhile (\<lambda>x. x \<in> D) xs
      in (takeWhile (\<lambda>x. x \<in> D) xs, takeWhile (\<lambda>x. x \<notin> D) zs, dropWhile (\<lambda>x. x \<notin> D) zs))"

lemma next_token_parts:
  assumes "next_token D xs = (ds, tok, rest)"
  shows "xs = ds @ tok @ rest" and "tok \<noteq> [] \<longleftrightarrow> ds \<noteq> xs"
proof -
  have d: "ds = takeWhile (\<lambda>x. x \<in> D) xs" "tok = takeWhile (\<lambda>x. x \<notin> D) (dropWhile (\<lambda>x. x \<in> D) xs)"
    "rest = dropWhile (\<lambda>x. x \<notin> D) (dropWhile (\<lambda>x. x \<in> D) xs)"
    using assms by (auto simp: next_token_def Let_def)
  show "xs = ds @ tok @ rest" unfolding d by simp
  show "tok \<noteq> [] \<longleftrightarrow> ds \<noteq> xs"
  proof (cases "dropWhile (\<lambda>x. x \<in> D) xs")
    case Nil
    have "tok = []" unfolding d(2) Nil by simp
    moreover have "ds = xs" using takeWhile_dropWhile_id [of "\<lambda>x. x \<in> D" xs] unfolding d(1) Nil by simp
    ultimately show ?thesis by simp
  next
    case (Cons z zs)
    then have "z \<notin> D" using hd_dropWhile [of "\<lambda>x. x \<in> D" xs] by simp
    then have "tok \<noteq> []" using Cons d by simp
    moreover have "ds \<noteq> xs" using takeWhile_dropWhile_id [of "\<lambda>x. x \<in> D" xs] Cons d by (metis append_self_conv list.distinct(1))
    ultimately show ?thesis by simp
  qed
qed

lemma strtok_1_cstr:
  assumes s: "cstr m s xs" "s \<noteq> 0" "unat s + length xs < 2 ^ 32"
    and t: "cstr m ct ys" "length ys < 2 ^ 32 - 1" "ys \<noteq> []"
    and n: "next_token (set ys) xs = (ds, tok, rest)"
  defines "p \<equiv> s + of_nat (length ds)" and "e \<equiv> s + of_nat (length ds + length tok)"
  shows "strtok_1 s ct m =
    Some (if tok = [] then (0, 0, m) else if rest = [] then (p, 0, m) else (p, e + 1, m(e := 0)))"
proof -
  have edx: "scan_len ct m \<noteq> 0" using t u32_of_nat_0 [of "length ys"] by (simp add: scan_len_cstr)
  have xs: "xs = ds @ tok @ rest" and tk: "tok \<noteq> [] \<longleftrightarrow> ds \<noteq> xs" using next_token_parts [OF n] by simp_all
  have tw: "takeWhile (\<lambda>x. x \<in> set ys) xs = ds" using n by (auto simp: next_token_def Let_def)
  note skip = span_loops_cstr(4) [OF s(1) t(1,2), unfolded tw]
  show ?thesis
  proof (cases "tok = []")
    case True
    then have "ds = xs" using tk by simp
    then show ?thesis using True edx skip by (simp add: strtok_1_def Let_def strtok_7_def)
  next
    case False
    then have len: "ds \<noteq> xs" using tk by simp
    obtain y zs where y: "tok @ rest = y # zs" using False by (cases tok) auto
    have p: "cstr m p (tok @ rest)" using s(1) unfolding xs cstr_append p_def by simp
    then have my: "m p \<noteq> 0" unfolding y by simp
    have up: "unat p = unat s + length ds"
      using s(3) xs unfolding p_def by (subst unat_add_lem [THEN iffD1]) (simp_all add: unat_of_nat)
    then have p0: "p \<noteq> 0" using s(2) by (auto simp: unat_eq_zero)
    have tw2: "takeWhile (\<lambda>x. x \<notin> set ys) (tok @ rest) = tok"
    proof -
      have "tok @ rest = dropWhile (\<lambda>x. x \<in> set ys) xs"
        using tw xs takeWhile_dropWhile_id [of "\<lambda>x. x \<in> set ys" xs] by (metis same_append_eq)
      then show ?thesis using n by (auto simp: next_token_def Let_def)
    qed
    note scan = span_loops_cstr(5) [OF p t(1,2), unfolded tw2]
    have e: "e = p + of_nat (length tok)" by (simp add: e_def p_def algebra_simps)
    have "strtok_1 s ct m = strtok_3 p ct (scan_len ct m) m"
      using edx skip len my by (simp add: strtok_1_def Let_def p_def)
    also have "\<dots> = Some (if rest = [] then (p, 0, m) else (p, e + 1, m(e := 0)))"
    proof (cases "rest = []")
      case True
      then show ?thesis using scan p0 my by (simp add: strtok_3_def strtok_6_token)
    next
      case False
      then have "m e \<noteq> 0" using p unfolding cstr_append e by (cases rest) simp_all
      moreover have "e \<noteq> p" using \<open>tok \<noteq> []\<close> s(3) xs u32_of_nat_0 [of "length tok"] by (simp add: e)
      ultimately show ?thesis using scan False p0 my by (simp add: strtok_3_def strtok_6_token e)
    qed
    finally show ?thesis using False by simp
  qed
qed

lemma blit_in: "i < n \<Longrightarrow> n < 2 ^ 32 \<Longrightarrow> blit d s (of_nat n) m (d + of_nat i) = m (s + of_nat i)"
  by (simp add: blit_def word_less_nat_alt unat_of_nat)

section \<open>Properties\<close>

text \<open>A memory with the strings \<open>abcab\<close> at \<^verbatim>\<open>0x100\<close>, \<open>ca\<close> at \<^verbatim>\<open>0x200\<close>, and zero bytes elsewhere.\<close>

definition abc_mem :: bmem where
  "abc_mem q =
     (if q = 0x100 then 97 else if q = 0x101 then 98 else if q = 0x102 then 99 else if q = 0x103 then 97
      else if q = 0x104 then 98 else if q = 0x200 then 99 else if q = 0x201 then 97 else 0)"

lemma abc_strings: "cstr abc_mem 0x100 [97, 98, 99, 97, 98]" "cstr abc_mem 0x200 [99, 97]"
  by (simp_all add: abc_mem_def)

text \<open>
  C28: the searches through a string that ends.  \<^verbatim>\<open>strlen\<close> is its length; \<^verbatim>\<open>strchr\<close> and \<^verbatim>\<open>strrchr\<close> return
  the first and the last position of the character, the terminator included, or \<^verbatim>\<open>NULL\<close>; \<^verbatim>\<open>strspn\<close> and
  \<^verbatim>\<open>strcspn\<close> are the lengths of the longest prefix inside and outside a set of characters, and
  \<^verbatim>\<open>strpbrk\<close> points behind the latter, or is \<^verbatim>\<open>NULL\<close> when no character is in the set.
\<close>

theorem string_search:
  assumes "cstr m s xs" and "length xs < 2 ^ 32 - 1" and "cstr m ct ys" and "length ys < 2 ^ 32 - 1"
  shows "strlen s m = of_nat (length xs) \<and>
    strchr s c m =
      Some (if c \<in> set (xs @ [0]) then s + of_nat (length (takeWhile (\<lambda>x. x \<noteq> c) (xs @ [0]))) else NULL) \<and>
    strrchr s c m =
      Some (case last_pos (\<lambda>x. x = c) (xs @ [0]) of Some i \<Rightarrow> s + of_nat i | None \<Rightarrow> NULL) \<and>
    strspn s ct m = Some (of_nat (length (takeWhile (\<lambda>x. x \<in> set ys) xs))) \<and>
    strcspn s ct m = Some (of_nat (length (takeWhile (\<lambda>x. x \<notin> set ys) xs))) \<and>
    strpbrk s ct m =
      Some (if set xs \<inter> set ys = {} then NULL else s + of_nat (length (takeWhile (\<lambda>x. x \<notin> set ys) xs)))"
  by (simp add: span_loops_cstr [OF assms(1,3,4)] strlen_def strchr_def strrchr_def strspn_def strcspn_def strpbrk_def
      scan_len_cstr [OF assms(1,2)] strchr_loop_cstr [OF assms(1)] strrchr_loop_cstr [OF assms(1)] del: set_append)

theorem string_search_witness:
  "strlen 0x100 abc_mem = 5 \<and> strchr 0x100 98 abc_mem = Some 0x101 \<and> strrchr 0x100 98 abc_mem = Some 0x104 \<and>
   strspn 0x100 0x200 abc_mem = Some 1 \<and> strcspn 0x100 0x200 abc_mem = Some 0 \<and>
   strpbrk 0x100 0x200 abc_mem = Some 0x100"
  using string_search [OF abc_strings(1) _ abc_strings(2), of 98] by simp

text \<open>
  C27: \<^verbatim>\<open>strstr\<close> returns, and its result is where the second string occurs in the first for the first
  time, or \<^verbatim>\<open>NULL\<close> when it does not occur.
\<close>

theorem strstr_first:
  assumes "cstr m cs xs" and "cstr m ct ys" and "length ys < 2 ^ 32 - 1"
  shows "\<exists>r. strstr cs ct m = Some r \<and>
    (if sublist ys xs
     then \<exists>i. r = cs + of_nat i \<and> i \<le> length xs \<and> prefix ys (drop i xs) \<and> (\<forall>j < i. \<not> prefix ys (drop j xs))
     else r = NULL)"
proof (cases "first_occ ys xs")
  case None
  then show ?thesis using strstr_cstr [OF assms] first_occ_None [of ys xs] by auto
next
  case (Some i)
  then have "sublist ys xs" using first_occ_None [of ys xs] by auto
  then show ?thesis using strstr_cstr [OF assms] Some first_occ_Some [OF Some] by auto
qed

theorem strstr_first_witness: "strstr 0x100 0x200 abc_mem = Some 0x102"
proof -
  have "sublist [99, 97 :: u8] [97, 98, 99, 97, 98]" by (simp add: sublist_Cons_right)
  then obtain i where i: "strstr 0x100 0x200 abc_mem = Some (0x100 + of_nat i)" "i \<le> 5"
    "prefix [99, 97] (drop i [97, 98, 99, 97, 98 :: u8])"
    using strstr_first [OF abc_strings] by auto
  have "i = 0 \<or> i = 1 \<or> i = 2 \<or> i = 3 \<or> i = 4 \<or> i = 5" using i(2) by linarith
  then have "i = 2" using i(3) by (auto simp: eval_nat_numeral)
  then show ?thesis using i(1) by simp
qed

text \<open>
  C29: \<^verbatim>\<open>strcmp\<close>, \<^verbatim>\<open>strncmp\<close> and \<^verbatim>\<open>memcmp\<close> (with a count that is not zero) are \<open>0\<close> when the strings, their
  first \<open>n\<close> bytes or the blocks are equal, and otherwise \<open>- 1\<close> or \<open>1\<close> in lexicographic order, where
  the bytes are compared as signed numbers.
\<close>

theorem strcmp_order:
  assumes "cstr m cs xs" and "cstr m ct ys" and "n < 2 ^ 31"
    and "arr m p us" and "arr m q vs" and "length us = length vs" and "us \<noteq> []" and "length us < 2 ^ 32"
  shows "strcmp cs ct m = Some (cmp_signed (xs @ [0]) (ys @ [0])) \<and>
    strncmp cs ct (of_nat n) m = cmp_signed (take n (xs @ [0])) (take n (ys @ [0])) \<and>
    memcmp fl p q (of_nat (length us)) m = cmp_signed us vs"
  using strcmp_loop_cstr [OF assms(1,2)] strncmp_loop_arr [OF assms(3,1,2)] cmpsb_arr [OF assms(6,8) _ assms(4,5)]
    assms(7) by (simp add: strcmp_def strncmp_def)

theorem strcmp_order_witness:
  "strcmp 0x100 0x200 abc_mem = Some (- 1) \<and> strncmp 0x102 0x200 2 abc_mem = 0 \<and>
   memcmp (True, False) 0x200 0x100 2 abc_mem = 1"
proof -
  have "cstr abc_mem 0x102 [99, 97, 98]" "arr abc_mem 0x200 [99, 97]" "arr abc_mem 0x100 [97, 98]"
    by (simp_all add: abc_mem_def)
  then show ?thesis
    using strcmp_order [OF abc_strings, of 0 "0x200" "[99, 97]" "0x100" "[97, 98]" "(True, False)"]
      strcmp_order [OF _ abc_strings(2), of "0x102" "[99, 97, 98]" 2 "0x200" "[99, 97]" "0x100" "[97, 98]" "(True, False)"]
    by simp
qed

text \<open>
  C25: blocks of memory that do not wrap around the address space.  \<^verbatim>\<open>memmove\<close> copies its block as it was
  before the call, whatever the overlap, changes nothing else, and returns with the direction
  flag set when the destination is not below the source.  \<^verbatim>\<open>memcpy\<close> does the same upwards when the
  destination does not lie inside the source, and \<^verbatim>\<open>memset\<close> fills its block.
\<close>

theorem memmove_block:
  assumes "unat dest + unat n \<le> 2 ^ 32" and "unat src + unat n \<le> 2 ^ 32"
  shows "memmove dest src n m = (dest, blit dest src n m, src \<le> dest) \<and>
    (copy_up_ok dest src n \<longrightarrow> memcpy dest src n m = (dest, blit dest src n m)) \<and>
    memset dest c n m = (dest, \<lambda>q. if q - dest < n then c else m q)"
  using memmove_blit [OF assms] rep_movsb_up by (simp add: memcpy_def memset_def rep_stosb_set)

theorem memmove_block_witness:
  "memmove 0x101 0x100 4 abc_mem = (0x101, blit 0x101 0x100 4 abc_mem, True) \<and>
   memcpy 0x200 0x100 4 abc_mem = (0x200, blit 0x200 0x100 4 abc_mem)"
  using memmove_block [of "0x101" 4 "0x100" abc_mem] memmove_block [of "0x200" 4 "0x100" abc_mem]
  by (simp add: copy_up_ok_def)

text \<open>
  \<^verbatim>\<open>strcpy\<close> and \<^verbatim>\<open>strcat\<close> return when the target does not begin inside the source; they copy the
  source with its terminator, so that the target holds the string or the concatenation, and change
  no byte outside the copy.
\<close>

lemma strcat_concat:
  assumes "cstr m dest xs" and "cstr m src ys" and "length xs + length ys + 1 < 2 ^ 32"
    and "copy_up_ok (dest + of_nat (length xs)) src (of_nat (length ys + 1))" and "copy_up_ok dest src (of_nat (length ys + 1))"
  shows "\<exists>m1 m2. strcpy dest src m = Some (dest, m1) \<and> cstr m1 dest ys \<and> m1 = blit dest src (of_nat (length ys + 1)) m \<and>
    strcat dest src m = Some (dest, m2) \<and> cstr m2 dest (xs @ ys) \<and>
    m2 = blit (dest + of_nat (length xs)) src (of_nat (length ys + 1)) m"
proof -
  let ?n = "length ys + 1" and ?e = "dest + of_nat (length xs)"
  have n: "?n < 2 ^ 32" "length xs < 2 ^ 32 - 1" using assms(3) by simp_all
  have copied: "blit d src (of_nat ?n) m (d + of_nat i) = m (src + of_nat i)" if "i < ?n" for i d
    using blit_in [OF that n(1)] .
  have str: "cstr (blit d src (of_nat ?n) m) d ys" for d
    using assms(2) copied unfolding cstr_iff arr_nth by (simp add: less_Suc_eq)
  have keep: "blit ?e src (of_nat ?n) m (dest + of_nat i) = m (dest + of_nat i)" if i: "i < length xs" for i
  proof -
    obtain k where k: "length xs = i + k" "0 < k" using less_imp_add_positive [OF i] by metis
    have "dest + of_nat i - ?e = 0 - of_nat k" by (simp add: k(1))
    moreover have "unat (0 - of_nat k :: u32) = 2 ^ 32 - k"
      using k assms(3) unfolding unat_sub_if' by (simp add: unat_of_nat)
    ultimately have "\<not> dest + of_nat i - ?e < of_nat ?n"
      using k(1) assms(3) n(1) unfolding word_less_nat_alt by (simp add: unat_of_nat del: of_nat_add of_nat_Suc)
    then show ?thesis by (simp add: blit_def)
  qed
  have "arr (blit ?e src (of_nat ?n) m) dest xs"
    using cstr_arr [OF assms(1)] keep unfolding arr_nth by simp
  then have "cstr (blit ?e src (of_nat ?n) m) dest (xs @ ys)"
    using str cstr_nonzero [OF assms(1)] by (simp add: cstr_append)
  then show ?thesis
    using str copy_string_blit [OF assms(2) n(1) assms(4)] copy_string_blit [OF assms(2) n(1) assms(5)]
    by (simp add: strcpy_def strcat_def scan_end_cstr [OF assms(1) n(2)])
qed


lemma strcat_concat_example:
  "\<exists>m1 m2. strcpy 0x300 0x200 abc_mem = Some (0x300, m1) \<and> cstr m1 0x300 [99, 97] \<and>
    m1 = blit 0x300 0x200 3 abc_mem \<and>
    strcat 0x300 0x200 abc_mem = Some (0x300, m2) \<and> cstr m2 0x300 ([] @ [99, 97]) \<and> m2 = blit 0x300 0x200 3 abc_mem"
proof -
  have "cstr abc_mem 0x300 []" by (simp add: abc_mem_def)
  from strcat_concat [OF this abc_strings(2)] show ?thesis by (simp add: copy_up_ok_def)
qed

text \<open>
  \<^verbatim>\<open>strncat\<close> with a source that is shorter than the count writes two zero bytes behind the copy, one
  more than the terminator of the result; with a longer source it writes one.
\<close>

lemma strncat_overrun:
  assumes "cstr m dest xs" and "cstr m src ys" and "length xs < 2 ^ 32 - 1" and "length ys + 1 < 2 ^ 32" and "n < 2 ^ 31"
    and "copy_up_ok (dest + of_nat (length xs)) src (of_nat (length ys + 1))"
  shows "strncat dest src (of_nat n) m =
    (let e = dest + of_nat (length xs);
         k = (if n \<le> length ys then n else length ys + 1)
     in (dest, (blit e src (of_nat k) m)(e + of_nat k := 0)))"
  using strncat_loop_blit [OF assms(2,5,4,6)]
  unfolding strncat_def scan_end_cstr [OF assms(1,3)] by (simp add: Let_def)

lemma strncat_overrun_example:
  "strncat 0x300 0x200 9 abc_mem = (0x300, (blit 0x300 0x200 3 abc_mem)(0x303 := 0))"
proof -
  have "cstr abc_mem 0x300 []" by (simp add: abc_mem_def)
  from strncat_overrun [OF this abc_strings(2), of 9] show ?thesis by (simp add: copy_up_ok_def)
qed

text \<open>
  C26: a call of \<^verbatim>\<open>strtok\<close>, with a string or with \<^verbatim>\<open>NULL\<close> and a saved position, on the rest \<open>xs\<close> of a string.
  It returns \<^verbatim>\<open>NULL\<close> when only delimiters are left.  Otherwise it returns the longest run of other
  characters behind the leading delimiters, ended by a zero byte in place of the next delimiter,
  and saves the position behind that, or \<^verbatim>\<open>NULL\<close> at the end of the string.
\<close>

theorem strtok_token:
  assumes "cstr m p xs" and "p \<noteq> NULL" and "unat p + length xs < 2 ^ 32"
    and "cstr m ct ys" and "length ys < 2 ^ 32 - 1" and "ys \<noteq> []"
    and "next_token (set ys) xs = (ds, tok, rest)" and "s = p \<or> s = NULL \<and> saved = p"
  shows "\<exists>m'. strtok s ct saved m =
      Some (if tok = [] then (NULL, NULL, m)
            else (p + of_nat (length ds), if rest = [] then NULL else p + of_nat (length ds + length tok) + 1, m')) \<and>
    cstr m' (p + of_nat (length ds)) tok \<and>
    (rest = [] \<or> cstr m' (p + of_nat (length ds + length tok) + 1) (tl rest))"
proof -
  have call: "strtok s ct saved m = strtok_1 p ct m" using assms(2,8) by (auto simp: strtok_def)
  note one = strtok_1_cstr [OF assms(1-7)]
  have xs: "xs = ds @ tok @ rest" by (rule next_token_parts(1) [OF assms(7)])
  let ?p = "p + of_nat (length ds)" and ?e = "p + of_nat (length ds + length tok)"
  have str: "cstr m ?p (tok @ rest)" using assms(1) unfolding xs cstr_append by simp
  have e: "?e = ?p + of_nat (length tok)" by (simp add: algebra_simps)
  show ?thesis
  proof (cases "rest = []")
    case True
    then show ?thesis using call one str by (cases "tok = []") (auto intro!: exI [of _ m])
  next
    case False
    then obtain r rs where r: "rest = r # rs" by (cases rest) auto
    have t: "arr m ?p tok" "0 \<notin> set tok" "cstr m (?e + 1) rs"
      using str unfolding r cstr_append e by simp_all
    have len: "length tok + length rs + 1 < 2 ^ 32" using assms(3) unfolding xs r by simp
    have "?p + of_nat i \<noteq> ?e" if "i < length tok" for i
    proof -
      have "(of_nat (length tok - i) :: u32) \<noteq> 0" using that len by (subst u32_of_nat_0) simp_all
      then show ?thesis using that unfolding e by (simp add: of_nat_diff)
    qed
    then have "arr (m(?e := 0)) ?p tok" using t(1) by (subst arr_cong [of _ _ _ m]) simp_all
    then have "cstr (m(?e := 0)) ?p tok" using t(2) unfolding cstr_iff e by simp
    moreover have "?e + 1 + of_nat i \<noteq> ?e" if "i \<le> length rs" for i
    proof -
      have "(of_nat (Suc i) :: u32) \<noteq> 0" using that len by (subst u32_of_nat_0) simp_all
      then show ?thesis by (simp add: add.assoc)
    qed
    then have "cstr (m(?e := 0)) (?e + 1) rs" using t(3) by (subst cstr_upd) simp_all
    ultimately show ?thesis using call one False r by (intro exI [of _ "m(?e := 0)"]) simp
  qed
qed

theorem strtok_token_witness:
  "\<exists>m'. strtok 0x100 0x200 NULL abc_mem = Some (0x101, 0x103, m') \<and> cstr m' 0x101 [98] \<and> cstr m' 0x103 [97, 98]"
proof -
  have "next_token (set [99, 97]) [97, 98, 99, 97, 98 :: u8] = ([97], [98], [99, 97, 98])"
    by (simp add: next_token_def)
  from strtok_token [OF abc_strings(1) _ _ abc_strings(2) _ _ this, of "0x100" NULL] show ?thesis by simp
qed

end
