(* ===== verification/Printf.thy ===== *)
theory Printf
  imports Strings
begin

text \<open>
  Formatted output: \<^verbatim>\<open>kernel/vsprintf.c\<close> and the printing functions of \<^verbatim>\<open>kernel/printk.c\<close>.

  The words behind the last named parameter are a function \<open>args\<close>, read one after the other by
  \<^verbatim>\<open>va_arg\<close>; the arguments of \<^verbatim>\<open>%s\<close> and \<^verbatim>\<open>%n\<close> point into a memory of bytes.  An \<^verbatim>\<open>int\<close> is a 32-bit word whose
  arithmetic wraps around.  The output is collected as a string of characters and put into memory
  at the end, so that the buffer is taken not to overlap what is read meanwhile.

  The format is there twice.  \<open>vsprintf_c\<close> has it in memory and walks it with the pointer \<^verbatim>\<open>fmt\<close> as the
  code does, step by step, past the end if it is led there, and with the bytes that an earlier
  \<^verbatim>\<open>%n\<close> may have written.  \<open>vsprintf\<close> has it as a string without the terminating zero byte.
  \<^verbatim>\<open>Printf_Format\<close> shows that they agree.
\<close>

section \<open>Characters\<close>

definition char_of_byte :: "u8 \<Rightarrow> char" where
  "char_of_byte b = char_of (unat b)"

definition is_digit :: "char \<Rightarrow> bool" where
  "is_digit c \<longleftrightarrow> of_char CHR ''0'' \<le> (of_char c :: nat) \<and> of_char c \<le> (of_char CHR ''9'' :: nat)"

fun skip_atoi :: "string \<Rightarrow> u32 \<Rightarrow> u32 \<times> string" where
  "skip_atoi [] i = (i, [])"
| "skip_atoi (c # s) i =
     (if is_digit c then skip_atoi s (i * 10 + of_char c - of_char CHR ''0'') else (i, c # s))"

section \<open>\<^verbatim>\<open>number\<close>\<close>

definition ZEROPAD :: u32 where [simp, kconsts]: "ZEROPAD = 1"
definition SIGN :: u32 where [simp, kconsts]: "SIGN = 2"
definition PLUS :: u32 where [simp, kconsts]: "PLUS = 4"
definition SPACE :: u32 where [simp, kconsts]: "SPACE = 8"
definition LEFT :: u32 where [simp, kconsts]: "LEFT = 16"
definition SPECIAL :: u32 where [simp, kconsts]: "SPECIAL = 32"
definition SMALL :: u32 where [simp, kconsts]: "SMALL = 64"

definition has :: "u32 \<Rightarrow> u32 \<Rightarrow> bool" where
  "has type f \<longleftrightarrow> type AND f \<noteq> 0"

definition digits :: "u32 \<Rightarrow> string" where
  "digits type =
     (if has type SMALL then ''0123456789abcdefghijklmnopqrstuvwxyz''
      else ''0123456789ABCDEFGHIJKLMNOPQRSTUVWXYZ'')"

text \<open>\<^verbatim>\<open>do_div\<close>: the unsigned division of the processor; the quotient and the remainder.\<close>

definition do_div :: "u32 \<Rightarrow> u32 \<Rightarrow> u32 \<times> u32" where
  "do_div n base = (n div base, n mod base)"

text \<open>The digits as \<^verbatim>\<open>number\<close> puts them into \<^verbatim>\<open>tmp\<close>, the least significant first.\<close>

function number_digits :: "string \<Rightarrow> u32 \<Rightarrow> u32 \<Rightarrow> string" where
  "number_digits ds base num =
     (if num = 0 \<or> base < 2 then []
      else let (q, r) = do_div num base in ds ! unat r # number_digits ds base q)"
  by pat_completeness auto
termination
proof (relation "measure (\<lambda>(ds, base, num). unat num)", simp, goal_cases)
  case (1 ds base num x q r)
  then have "unat q = unat num div unat base" "0 < unat num" "1 < unat base"
    by (auto simp: do_div_def unat_div unat_gt_0 word_less_nat_alt)
  then show ?case by simp
qed

declare number_digits.simps [simp del]

lemma sint_dec: "- (2 ^ 31) < sint w \<Longrightarrow> sint (w - 1 :: u32) = sint w - 1"
  using sint_lt [of w] by (simp add: sint_word_ariths signed_take_bit_int_eq_self)

text \<open>\<^verbatim>\<open>while (lo < w--) *str++ = c;\<close> gives the final \<^verbatim>\<open>w\<close> and the output.\<close>

function pad_while :: "char \<Rightarrow> u32 \<Rightarrow> u32 \<Rightarrow> string \<Rightarrow> u32 \<times> string" where
  "pad_while c lo w out =
     (if sint lo < sint w then pad_while c lo (w - 1) (out @ [c]) else (w - 1, out))"
  by pat_completeness auto
termination
proof (relation "measure (\<lambda>(c, lo, w, out). nat (sint w + 2 ^ 31))", simp, goal_cases)
  case (1 c lo w out)
  have "- (2 ^ 31) \<le> sint lo" using sint_ge [of lo] by simp
  then have "- (2 ^ 31) < sint w" using 1 by linarith
  from sint_dec [OF this] show ?case using \<open>- (2 ^ 31) < sint w\<close> by simp
qed

declare pad_while.simps [simp del]

text \<open>The sign, where \<^verbatim>\<open>0\<close> is no sign, and the prefix of the base.\<close>

definition number_sign :: "u32 \<Rightarrow> u32 \<Rightarrow> string" where
  "number_sign type num =
     (if has type SIGN \<and> sint num < 0 then ''-''
      else if has type PLUS then ''+'' else if has type SPACE then '' '' else [])"

definition number_prefix :: "string \<Rightarrow> u32 \<Rightarrow> u32 \<Rightarrow> string" where
  "number_prefix ds base type =
     (if has type SPECIAL
      then if base = 8 then ''0'' else if base = 16 then [CHR ''0'', ds ! 33] else []
      else [])"

text \<open>What is left of the field once the sign and the prefix are taken off it.\<close>

definition number_room :: "u32 \<Rightarrow> u32 \<Rightarrow> string \<Rightarrow> u32 \<Rightarrow> u32" where
  "number_room type base sign sz =
     (let sz = (if sign \<noteq> [] then sz - 1 else sz)
      in if has type SPECIAL then if base = 16 then sz - 2 else if base = 8 then sz - 1 else sz else sz)"

text \<open>The output, from the line that compares \<^verbatim>\<open>i\<close> with the precision.\<close>

definition number_put :: "string \<Rightarrow> u32 \<Rightarrow> string \<Rightarrow> string \<Rightarrow> string \<Rightarrow> u32 \<Rightarrow> u32 \<Rightarrow> string" where
  "number_put str type sign pre tmp sz precision =
     (let c = (if has type ZEROPAD then CHR ''0'' else CHR '' '');
          i = of_nat (length tmp);
          precision = (if sint precision < sint i then i else precision);
          sz = sz - precision;
          (sz, str) = (if \<not> has type (ZEROPAD + LEFT) then pad_while CHR '' '' 0 sz str else (sz, str));
          str = str @ sign;
          str = str @ pre;
          (sz, str) = (if \<not> has type LEFT then pad_while c 0 sz str else (sz, str));
          (_, str) = pad_while CHR ''0'' i precision str;
          str = str @ rev tmp;
          (_, str) = pad_while CHR '' '' 0 sz str
      in str)"

text \<open>The result is \<^const>\<open>None\<close> where the function returns the null pointer.\<close>

definition number :: "string \<Rightarrow> u32 \<Rightarrow> u32 \<Rightarrow> u32 \<Rightarrow> u32 \<Rightarrow> u32 \<Rightarrow> string option" where
  "number str num base sz precision type =
     (let ds = digits type;
          type = (if has type LEFT then type AND NOT ZEROPAD else type)
      in if sint base < 2 \<or> 36 < sint base then None
         else
           let sign = number_sign type num;
               num = (if has type SIGN \<and> sint num < 0 then - num else num);
               sz = number_room type base sign sz;
               tmp = (if num = 0 then ''0'' else number_digits ds base num)
           in Some (number_put str type sign (number_prefix ds base type) tmp sz precision))"

section \<open>\<^verbatim>\<open>vsprintf\<close>\<close>

record pstate =
  pr_ap :: nat
  pr_mem :: bmem
  pr_out :: string

definition va_arg :: "(nat \<Rightarrow> u32) \<Rightarrow> pstate \<Rightarrow> u32 \<times> pstate" where
  "va_arg args p = (args (pr_ap p), p\<lparr>pr_ap := Suc (pr_ap p)\<rparr>)"

fun parse_flags :: "string \<Rightarrow> u32 \<Rightarrow> u32 \<times> string" where
  "parse_flags [] f = (f, [])"
| "parse_flags (c # s) f =
     (if c = CHR ''-'' then parse_flags s (f OR LEFT)
      else if c = CHR ''+'' then parse_flags s (f OR PLUS)
      else if c = CHR '' '' then parse_flags s (f OR SPACE)
      else if c = CHR ''#'' then parse_flags s (f OR SPECIAL)
      else if c = CHR ''0'' then parse_flags s (f OR ZEROPAD)
      else (f, c # s))"

definition next_is :: "char \<Rightarrow> string \<Rightarrow> bool" where
  "next_is c s \<longleftrightarrow> s \<noteq> [] \<and> hd s = c"

definition next_digit :: "string \<Rightarrow> bool" where
  "next_digit s \<longleftrightarrow> s \<noteq> [] \<and> is_digit (hd s)"

text \<open>A width or precision of \<^verbatim>\<open>*\<close> takes the next argument and does not move \<^verbatim>\<open>fmt\<close>.\<close>

definition parse_width :: "(nat \<Rightarrow> u32) \<Rightarrow> string \<Rightarrow> u32 \<Rightarrow> pstate \<Rightarrow> u32 \<times> u32 \<times> string \<times> pstate" where
  "parse_width args fmt flags p =
     (if next_digit fmt then let (w, fmt) = skip_atoi fmt 0 in (w, flags, fmt, p)
      else if next_is CHR ''*'' fmt
      then let (w, p) = va_arg args p
           in if sint w < 0 then (- w, flags OR LEFT, fmt, p) else (w, flags, fmt, p)
      else (- 1, flags, fmt, p))"

definition parse_precision :: "(nat \<Rightarrow> u32) \<Rightarrow> string \<Rightarrow> pstate \<Rightarrow> u32 \<times> string \<times> pstate" where
  "parse_precision args fmt p =
     (if next_is CHR ''.'' fmt
      then let fmt = tl fmt;
               (prec, fmt, p) =
                 (if next_digit fmt then let (n, fmt) = skip_atoi fmt 0 in (n, fmt, p)
                  else if next_is CHR ''*'' fmt then let (n, p) = va_arg args p in (n, fmt, p)
                  else (- 1, fmt, p))
           in (if sint prec < 0 then 0 else prec, fmt, p)
      else (- 1, fmt, p))"

definition parse_qualifier :: "string \<Rightarrow> string" where
  "parse_qualifier fmt =
     (if next_is CHR ''h'' fmt \<or> next_is CHR ''l'' fmt \<or> next_is CHR ''L'' fmt then tl fmt else fmt)"

text \<open>\<^verbatim>\<open>while (--w > 0) *str++ = ' ';\<close>\<close>

function pad_pre :: "u32 \<Rightarrow> string \<Rightarrow> u32 \<times> string" where
  "pad_pre w out =
     (let w' = w - 1 in if 0 < sint w' then pad_pre w' (out @ '' '') else (w', out))"
  by pat_completeness auto
termination
proof (relation "measure (\<lambda>(w, out). unat w)", simp, goal_cases)
  case (1 w out w')
  then have "w \<noteq> 0" by auto
  then show ?case using 1(1) by (simp add: unat_minus_one unat_gt_0)
qed

declare pad_pre.simps [simp del]

definition conv_char :: "u32 \<Rightarrow> u32 \<Rightarrow> u32 \<Rightarrow> string \<Rightarrow> string" where
  "conv_char flags w v out =
     (let (w, out) = (if \<not> has flags LEFT then pad_pre w out else (w, out));
          out = out @ [char_of_byte (ucast v)]
      in snd (pad_pre w out))"

definition conv_string :: "u32 \<Rightarrow> u32 \<Rightarrow> u32 \<Rightarrow> u32 \<Rightarrow> bmem \<Rightarrow> string \<Rightarrow> string" where
  "conv_string flags w prec s m out =
     (let len = strlen s m;
          len = (if sint prec < 0 then len else if sint prec < sint len then prec else len);
          (w, out) = (if \<not> has flags LEFT then pad_while CHR '' '' len w out else (w, out));
          out = out @ map (\<lambda>i. char_of_byte (m (s + of_nat i))) [0..<nat (sint len)]
      in snd (pad_while CHR '' '' len w out))"

definition write_u32 :: "u32 \<Rightarrow> u32 \<Rightarrow> bmem \<Rightarrow> bmem" where
  "write_u32 p v m =
     m(p := ucast v, p + 1 := ucast (drop_bit 8 v), p + 2 := ucast (drop_bit 16 v), p + 3 := ucast (drop_bit 24 v))"

definition conv_number :: "(nat \<Rightarrow> u32) \<Rightarrow> u32 \<Rightarrow> u32 \<Rightarrow> u32 \<Rightarrow> u32 \<Rightarrow> pstate \<Rightarrow> pstate option" where
  "conv_number args base w prec flags p =
     (let (v, p) = va_arg args p
      in map_option (\<lambda>out. p\<lparr>pr_out := out\<rparr>) (number (pr_out p) v base w prec flags))"

text \<open>
  The \<^verbatim>\<open>switch\<close> on the character \<open>c\<close> of the conversion.  In the default case a terminator is not printed.
\<close>

definition convert_char :: "(nat \<Rightarrow> u32) \<Rightarrow> u32 \<Rightarrow> u32 \<Rightarrow> u32 \<Rightarrow> char \<Rightarrow> pstate \<Rightarrow> pstate option" where
  "convert_char args flags w prec c p =
     (if c = CHR ''c''
      then let (v, p) = va_arg args p in Some (p\<lparr>pr_out := conv_char flags w v (pr_out p)\<rparr>)
      else if c = CHR ''s''
      then let (v, p) = va_arg args p
           in Some (p\<lparr>pr_out := conv_string flags w prec v (pr_mem p) (pr_out p)\<rparr>)
      else if c = CHR ''o'' then conv_number args 8 w prec flags p
      else if c = CHR ''p''
      then if w = - 1 then conv_number args 16 8 prec (flags OR ZEROPAD) p
           else conv_number args 16 w prec flags p
      else if c = CHR ''x'' then conv_number args 16 w prec (flags OR SMALL) p
      else if c = CHR ''X'' then conv_number args 16 w prec flags p
      else if c = CHR ''d'' \<or> c = CHR ''i'' then conv_number args 10 w prec (flags OR SIGN) p
      else if c = CHR ''u'' then conv_number args 10 w prec flags p
      else if c = CHR ''n''
      then let (v, p) = va_arg args p
           in Some (p\<lparr>pr_mem := write_u32 v (of_nat (length (pr_out p))) (pr_mem p)\<rparr>)
      else Some (p\<lparr>pr_out := pr_out p @ (if c \<noteq> CHR ''%'' then ''%'' else []) @ (if c \<noteq> CHR 0x00 then [c] else [])\<rparr>))"

text \<open>On a string, the empty rest stands for the terminator, on which \<^verbatim>\<open>fmt\<close> steps back.\<close>

definition convert :: "(nat \<Rightarrow> u32) \<Rightarrow> u32 \<Rightarrow> u32 \<Rightarrow> u32 \<Rightarrow> string \<Rightarrow> pstate \<Rightarrow> (string \<times> pstate) option" where
  "convert args flags w prec fmt p =
     (case fmt of
        [] \<Rightarrow> map_option (\<lambda>p. ([], p)) (convert_char args flags w prec CHR 0x00 p)
      | c # rest \<Rightarrow> map_option (\<lambda>p. (rest, p)) (convert_char args flags w prec c p))"

text \<open>One conversion, behind its \<^verbatim>\<open>%\<close>.\<close>

definition directive :: "(nat \<Rightarrow> u32) \<Rightarrow> string \<Rightarrow> pstate \<Rightarrow> (string \<times> pstate) option" where
  "directive args fmt p =
     (let (flags, fmt) = parse_flags fmt 0;
          (w, flags, fmt, p) = parse_width args fmt flags p;
          (prec, fmt, p) = parse_precision args fmt p;
          fmt = parse_qualifier fmt
      in convert args flags w prec fmt p)"

lemma skip_atoi_length: "length (snd (skip_atoi s i)) \<le> length s"
  by (induction s i rule: skip_atoi.induct) auto

lemma parse_flags_length: "length (snd (parse_flags s f)) \<le> length s"
  by (induction s f rule: parse_flags.induct) auto

lemma directive_length: "directive args fmt p = Some (fmt', p') \<Longrightarrow> length fmt' \<le> length fmt"
proof -
  assume d: "directive args fmt p = Some (fmt', p')"
  obtain f s1 where s1: "parse_flags fmt 0 = (f, s1)" by fastforce
  obtain w f' s2 p2 where s2: "parse_width args s1 f p = (w, f', s2, p2)" by (metis prod_cases4)
  obtain pr s3 p3 where s3: "parse_precision args s2 p2 = (pr, s3, p3)" by (metis prod_cases3)
  have "length s1 \<le> length fmt" using parse_flags_length [of fmt 0] s1 by simp
  moreover have "length s2 \<le> length s1"
    using s2 skip_atoi_length [of s1 0] by (auto simp: parse_width_def Let_def split: if_splits prod.splits)
  moreover have "length s3 \<le> length s2"
    using s3 skip_atoi_length [of "tl s2" 0] by (auto simp: parse_precision_def Let_def split: if_splits prod.splits)
  moreover have "length (parse_qualifier s3) \<le> length s3" by (simp add: parse_qualifier_def)
  moreover have "length fmt' \<le> length (parse_qualifier s3)"
    using d s1 s2 s3 by (auto simp: directive_def convert_def split: list.splits)
  ultimately show ?thesis by linarith
qed

function vsprintf_loop :: "(nat \<Rightarrow> u32) \<Rightarrow> string \<Rightarrow> pstate \<Rightarrow> pstate option" where
  "vsprintf_loop args [] p = Some p"
| "vsprintf_loop args (c # fmt) p =
     (if c \<noteq> CHR ''%'' then vsprintf_loop args fmt (p\<lparr>pr_out := pr_out p @ [c]\<rparr>)
      else
        (case directive args fmt p of
           None \<Rightarrow> None
         | Some (fmt, p) \<Rightarrow> vsprintf_loop args fmt p))"
  by pat_completeness auto
termination
  by (relation "measure (\<lambda>(args, fmt, p). length fmt)")
    (auto simp: less_Suc_eq_le dest!: directive_length)

text \<open>The string put into \<^verbatim>\<open>buf\<close>, the length returned and the memory.\<close>

definition vsprintf :: "string \<Rightarrow> (nat \<Rightarrow> u32) \<Rightarrow> bmem \<Rightarrow> (string \<times> u32 \<times> bmem) option" where
  "vsprintf fmt args m =
     map_option (\<lambda>p. (pr_out p, of_nat (length (pr_out p)), pr_mem p))
       (vsprintf_loop args fmt \<lparr>pr_ap = 0, pr_mem = m, pr_out = []\<rparr>)"

section \<open>The format in memory\<close>

definition fmt_char :: "bmem \<Rightarrow> u32 \<Rightarrow> char" where
  "fmt_char m fmt = char_of_byte (m fmt)"

partial_function (option) skip_atoi_at :: "bmem \<Rightarrow> u32 \<Rightarrow> u32 \<Rightarrow> (u32 \<times> u32) option" where
  "skip_atoi_at m s i =
     (if is_digit (fmt_char m s) then skip_atoi_at m (s + 1) (i * 10 + of_char (fmt_char m s) - of_char CHR ''0'')
      else Some (i, s))"

text \<open>From the label \<^verbatim>\<open>repeat\<close>: the pointer moves before the character is read.\<close>

partial_function (option) parse_flags_at :: "bmem \<Rightarrow> u32 \<Rightarrow> u32 \<Rightarrow> (u32 \<times> u32) option" where
  "parse_flags_at m fmt f =
     (let fmt = fmt + 1; c = fmt_char m fmt
      in if c = CHR ''-'' then parse_flags_at m fmt (f OR LEFT)
         else if c = CHR ''+'' then parse_flags_at m fmt (f OR PLUS)
         else if c = CHR '' '' then parse_flags_at m fmt (f OR SPACE)
         else if c = CHR ''#'' then parse_flags_at m fmt (f OR SPECIAL)
         else if c = CHR ''0'' then parse_flags_at m fmt (f OR ZEROPAD)
         else Some (f, fmt))"

definition parse_width_at :: "(nat \<Rightarrow> u32) \<Rightarrow> u32 \<Rightarrow> u32 \<Rightarrow> pstate \<Rightarrow> (u32 \<times> u32 \<times> u32 \<times> pstate) option" where
  "parse_width_at args fmt flags p =
     (let c = fmt_char (pr_mem p) fmt
      in if is_digit c then map_option (\<lambda>(w, fmt). (w, flags, fmt, p)) (skip_atoi_at (pr_mem p) fmt 0)
         else if c = CHR ''*''
         then let (w, p) = va_arg args p
              in Some (if sint w < 0 then (- w, flags OR LEFT, fmt, p) else (w, flags, fmt, p))
         else Some (- 1, flags, fmt, p))"

definition parse_precision_at :: "(nat \<Rightarrow> u32) \<Rightarrow> u32 \<Rightarrow> pstate \<Rightarrow> (u32 \<times> u32 \<times> pstate) option" where
  "parse_precision_at args fmt p =
     (if fmt_char (pr_mem p) fmt = CHR ''.''
      then let fmt = fmt + 1; c = fmt_char (pr_mem p) fmt
           in map_option (\<lambda>(prec, fmt, p). (if sint prec < 0 then 0 else prec, fmt, p))
                (if is_digit c then map_option (\<lambda>(n, fmt). (n, fmt, p)) (skip_atoi_at (pr_mem p) fmt 0)
                 else if c = CHR ''*'' then let (n, p) = va_arg args p in Some (n, fmt, p)
                 else Some (- 1, fmt, p))
      else Some (- 1, fmt, p))"

definition parse_qualifier_at :: "bmem \<Rightarrow> u32 \<Rightarrow> u32" where
  "parse_qualifier_at m fmt =
     (let c = fmt_char m fmt in if c = CHR ''h'' \<or> c = CHR ''l'' \<or> c = CHR ''L'' then fmt + 1 else fmt)"

text \<open>At the terminator \<^verbatim>\<open>--fmt\<close> goes back, for the \<^verbatim>\<open>++fmt\<close> of the loop to find it again.\<close>

definition convert_at :: "(nat \<Rightarrow> u32) \<Rightarrow> u32 \<Rightarrow> u32 \<Rightarrow> u32 \<Rightarrow> u32 \<Rightarrow> pstate \<Rightarrow> (u32 \<times> pstate) option" where
  "convert_at args flags w prec fmt p =
     (let c = fmt_char (pr_mem p) fmt
      in map_option (\<lambda>p. (if c = CHR 0x00 then fmt - 1 else fmt, p)) (convert_char args flags w prec c p))"

definition directive_at :: "(nat \<Rightarrow> u32) \<Rightarrow> u32 \<Rightarrow> pstate \<Rightarrow> (u32 \<times> pstate) option" where
  "directive_at args fmt p =
     Option.bind (parse_flags_at (pr_mem p) fmt 0) (\<lambda>(flags, fmt).
     Option.bind (parse_width_at args fmt flags p) (\<lambda>(w, flags, fmt, p).
     Option.bind (parse_precision_at args fmt p) (\<lambda>(prec, fmt, p).
       convert_at args flags w prec (parse_qualifier_at (pr_mem p) fmt) p)))"

partial_function (option) vsprintf_at :: "(nat \<Rightarrow> u32) \<Rightarrow> u32 \<Rightarrow> pstate \<Rightarrow> pstate option" where
  "vsprintf_at args fmt p =
     (let c = fmt_char (pr_mem p) fmt
      in if c = CHR 0x00 then Some p
         else if c \<noteq> CHR ''%'' then vsprintf_at args (fmt + 1) (p\<lparr>pr_out := pr_out p @ [c]\<rparr>)
         else Option.bind (directive_at args fmt p) (\<lambda>(fmt, p). vsprintf_at args (fmt + 1) p))"

text \<open>The text and its terminator in the buffer; nothing bounds them.\<close>

fun put_text :: "u32 \<Rightarrow> string \<Rightarrow> bmem \<Rightarrow> bmem" where
  "put_text str [] m = m(str := 0)"
| "put_text str (c # cs) m = put_text (str + 1) cs (m(str := of_char c))"

definition vsprintf_c :: "u32 \<Rightarrow> u32 \<Rightarrow> (nat \<Rightarrow> u32) \<Rightarrow> bmem \<Rightarrow> (u32 \<times> bmem) option" where
  "vsprintf_c buf fmt args m =
     map_option (\<lambda>p. (of_nat (length (pr_out p)), put_text buf (pr_out p) (pr_mem p)))
       (vsprintf_at args fmt \<lparr>pr_ap = 0, pr_mem = m, pr_out = []\<rparr>)"

section \<open>Printing\<close>

text \<open>
  \<^verbatim>\<open>printk\<close> formats into a static buffer of 1024 bytes, \<^verbatim>\<open>printm\<close> into one of 128 bytes on the stack;
  \<open>buf\<close> is the address of the buffer, which \<^verbatim>\<open>log_buf\<close> gets with the length.  No size is checked.
\<close>

definition printk :: "(u32 \<Rightarrow> u32 \<Rightarrow> bmem \<Rightarrow> 'l \<Rightarrow> 'l) \<Rightarrow> u32 \<Rightarrow> u32 \<Rightarrow> (nat \<Rightarrow> u32) \<Rightarrow> bmem \<Rightarrow> 'l \<Rightarrow> (u32 \<times> bmem \<times> 'l) option" where
  "printk log_buf buf fmt args m l =
     (case vsprintf_c buf fmt args m of
        None \<Rightarrow> None
      | Some (i, m) \<Rightarrow> Some (i, m, log_buf buf i m l))"

definition printm :: "(u32 \<Rightarrow> u32 \<Rightarrow> bmem \<Rightarrow> 'l \<Rightarrow> 'l) \<Rightarrow> u32 \<Rightarrow> u32 \<Rightarrow> (nat \<Rightarrow> u32) \<Rightarrow> bmem \<Rightarrow> 'l \<Rightarrow> (u32 \<times> bmem \<times> 'l) option" where
  "printm log_buf buf fmt args m l =
     (case vsprintf_c buf fmt args m of
        None \<Rightarrow> None
      | Some (i, m) \<Rightarrow> Some (i, m, log_buf buf i m l))"

end
