(* ===== verification/Printf_Laws.thy ===== *)
theory Printf_Laws
  imports Printf
begin

text \<open>
  What the formatted output of \<^verbatim>\<open>kernel/vsprintf.c\<close> and \<^verbatim>\<open>kernel/printk.c\<close> prints: the digits of a number in a
  base, the layout of a field and the decimal conversions.
\<close>

section \<open>Padding\<close>

lemma pad_while_replicate:
  "pad_while c lo w out =
     (if sint lo < sint w then lo - 1 else w - 1, out @ replicate (nat (sint w - sint lo)) c)"
proof (induction c lo w out rule: pad_while.induct)
  case (1 c lo w out)
  show ?case
  proof (cases "sint lo < sint w")
    case True
    have "- (2 ^ 31) < sint w" using True sint_ge [of lo] by simp
    note dec = sint_dec [OF this]
    have "nat (sint w - sint lo) = Suc (nat (sint (w - 1) - sint lo))" using True dec by simp
    then have r: "replicate (nat (sint w - sint lo)) c = c # replicate (nat (sint (w - 1) - sint lo)) c" by simp
    show ?thesis
    proof (cases "sint lo < sint (w - 1)")
      case l: True
      then show ?thesis using True 1 [OF True] r by (subst pad_while.simps) simp
    next
      case False
      then have "sint (w - 1) = sint lo" using True dec by simp
      then have "w - 1 = lo" by (rule signed_word_eqI)
      then show ?thesis using True 1 [OF True] r False by (subst pad_while.simps) simp
    qed
  next
    case False
    then show ?thesis by (subst pad_while.simps) simp
  qed
qed

section \<open>Digits\<close>

text \<open>The digits of a number in a base, the least significant first.\<close>

function digs :: "nat \<Rightarrow> nat \<Rightarrow> nat list" where
  "digs b n = (if n = 0 \<or> b < 2 then [] else n mod b # digs b (n div b))"
  by pat_completeness auto
termination by (relation "measure snd") auto

declare digs.simps [simp del]

fun value_of :: "nat \<Rightarrow> nat list \<Rightarrow> nat" where
  "value_of b [] = 0"
| "value_of b (d # ds) = d + b * value_of b ds"

lemma value_digs: "2 \<le> b \<Longrightarrow> value_of b (digs b n) = n"
proof (induction b n rule: digs.induct)
  case (1 b n)
  then show ?case by (subst digs.simps) auto
qed

lemma digs_less: "2 \<le> b \<Longrightarrow> d \<in> set (digs b n) \<Longrightarrow> d < b"
proof (induction b n rule: digs.induct)
  case (1 b n)
  then show ?case using digs.simps [of b n] by (auto split: if_splits)
qed

lemma digs_length: "2 \<le> b \<Longrightarrow> 0 < n \<Longrightarrow> 2 ^ (length (digs b n) - 1) \<le> n"
proof (induction b n rule: digs.induct)
  case (1 b n)
  have d: "digs b n = n mod b # digs b (n div b)" using 1(2,3) by (subst digs.simps) simp
  show ?case
  proof (cases "n div b = 0")
    case True
    then show ?thesis using d 1(3) by (simp add: digs.simps [of b 0])
  next
    case False
    then obtain x xs where x: "digs b (n div b) = x # xs"
      using digs.simps [of b "n div b"] 1(2) by (simp del: div_eq_0_iff)
    have "2 ^ length xs \<le> n div b" using 1(1) 1(2,3) False x by simp
    then have "2 * 2 ^ length xs \<le> b * (n div b)" using 1(2) by (intro mult_mono) simp_all
    also have "\<dots> \<le> n" by simp
    finally show ?thesis using d x by simp
  qed
qed

lemma number_digits_digs:
  "2 \<le> base \<Longrightarrow> number_digits ds base num = map ((!) ds) (digs (unat base) (unat num))"
proof (induction ds base num rule: number_digits.induct)
  case (1 ds base num)
  have b: "2 \<le> unat base" "\<not> base < 2" using 1(2) by (auto simp: word_le_nat_alt word_less_nat_alt)
  show ?case
  proof (cases "num = 0")
    case True
    then show ?thesis by (simp add: number_digits.simps digs.simps)
  next
    case False
    then have n: "unat num \<noteq> 0" by (simp add: unat_gt_0)
    have "number_digits ds base (num div base) = map ((!) ds) (digs (unat base) (unat (num div base)))"
      using 1 False b by (simp add: do_div_def)
    then show ?thesis using False n b
      by (subst number_digits.simps, subst digs.simps) (simp add: do_div_def unat_div unat_mod)
  qed
qed

lemma digs_length_32:
  assumes "2 \<le> b" and "n < 2 ^ 32"
  shows "length (digs b n) \<le> 32"
proof (cases "n = 0")
  case False
  then have "2 ^ (length (digs b n) - 1) \<le> n" using digs_length [OF assms(1)] by simp
  then have "(2 :: nat) ^ (length (digs b n) - 1) < 2 ^ 32" using assms(2) by linarith
  then have "length (digs b n) - 1 < 32" by (rule power_less_imp_less_exp [rotated]) simp
  then show ?thesis by simp
qed (simp add: digs.simps)

text \<open>Reading decimal digits back.\<close>

definition digit_char :: "nat \<Rightarrow> char" where
  "digit_char d = ''0123456789'' ! d"

lemma digit_cases: "d < 10 \<Longrightarrow> d = 0 \<or> d = 1 \<or> d = 2 \<or> d = 3 \<or> d = 4 \<or> d = 5 \<or> d = 6 \<or> d = 7 \<or> d = 8 \<or> d = (9 :: nat)"
  by auto

lemma digit_char_digit:
  assumes "d < 10"
  shows "is_digit (digit_char d)" and "(of_char (digit_char d) :: u32) - of_char CHR ''0'' = of_nat d"
  using digit_cases [OF assms] by (elim disjE; simp add: digit_char_def is_digit_def)+

lemma skip_atoi_foldl:
  "(\<And>d. d \<in> set ms \<Longrightarrow> d < 10) \<Longrightarrow> skip_atoi (map digit_char ms) i = (foldl (\<lambda>i d. i * 10 + of_nat d) i ms, [])"
proof (induction ms arbitrary: i)
  case (Cons d ms)
  then have "d < 10" by simp
  note c = digit_char_digit [OF this]
  show ?case using Cons c by (simp add: add_diff_eq [symmetric] del: add_diff_eq)
qed simp

lemma foldl_value: "foldl (\<lambda>i d. i * 10 + of_nat d) 0 (rev ds) = (of_nat (value_of 10 ds) :: u32)"
  by (induction ds) (simp_all add: algebra_simps)

definition show_nat :: "nat \<Rightarrow> string" where
  "show_nat n = (if n = 0 then ''0'' else rev (map digit_char (digs 10 n)))"

lemma skip_atoi_show: "skip_atoi (show_nat n) 0 = (of_nat n, [])"
proof (cases "n = 0")
  case True
  then show ?thesis by (simp add: show_nat_def is_digit_def)
next
  case False
  have "skip_atoi (map digit_char (rev (digs 10 n))) 0 = (of_nat (value_of 10 (digs 10 n)), [])"
    using digs_less [of 10] by (subst skip_atoi_foldl) (auto simp: foldl_value)
  then show ?thesis using False by (simp add: show_nat_def rev_map value_digs)
qed

section \<open>\<^verbatim>\<open>number\<close>\<close>

lemma sint_sub_small:
  "- (2 ^ 31) \<le> sint a - sint b \<Longrightarrow> sint a - sint b < 2 ^ 31 \<Longrightarrow> sint (a - b :: u32) = sint a - sint b"
  by (simp add: sint_word_ariths signed_take_bit_int_eq_self)

lemma has_clear_zeropad:
  "has (type AND NOT ZEROPAD) ZEROPAD \<longleftrightarrow> False" "has (type AND NOT ZEROPAD) SIGN \<longleftrightarrow> has type SIGN"
  "has (type AND NOT ZEROPAD) PLUS \<longleftrightarrow> has type PLUS" "has (type AND NOT ZEROPAD) SPACE \<longleftrightarrow> has type SPACE"
  "has (type AND NOT ZEROPAD) LEFT \<longleftrightarrow> has type LEFT" "has (type AND NOT ZEROPAD) SPECIAL \<longleftrightarrow> has type SPECIAL"
  by (simp_all add: has_def and.assoc)

lemma has_zeropad_left: "has type (ZEROPAD + LEFT) \<longleftrightarrow> has type ZEROPAD \<or> has type LEFT"
proof -
  have "type AND 17 = (type AND 1) OR (type AND 16)"
    unfolding bit.conj_disj_distrib [symmetric] by simp
  then show ?thesis by (simp add: has_def or_eq_0_iff)
qed

text \<open>What \<^verbatim>\<open>number\<close> is to print: sign, base prefix, zeros up to the precision, digits; padded to the width.\<close>

definition number_layout :: "string \<Rightarrow> string \<Rightarrow> string \<Rightarrow> int \<Rightarrow> int \<Rightarrow> u32 \<Rightarrow> string" where
  "number_layout sign pre ds width prec type =
     (let body = replicate (nat (prec - int (length ds))) CHR ''0'' @ ds;
          pad = nat (width - int (length (sign @ pre @ body)))
      in if has type LEFT then sign @ pre @ body @ replicate pad CHR '' ''
         else if has type ZEROPAD then sign @ pre @ replicate pad CHR ''0'' @ body
         else replicate pad CHR '' '' @ sign @ pre @ body)"

definition number_ref :: "u32 \<Rightarrow> nat \<Rightarrow> int \<Rightarrow> int \<Rightarrow> u32 \<Rightarrow> string" where
  "number_ref num base width prec type =
     (let neg = (has type SIGN \<and> sint num < 0);
          n = (if neg then nat (- sint num) else unat num);
          sign = (if neg then ''-'' else if has type PLUS then ''+'' else if has type SPACE then '' '' else []);
          x = (if has type SMALL then CHR ''x'' else CHR ''X'');
          pre = (if \<not> has type SPECIAL then [] else if base = 8 then ''0'' else if base = 16 then [CHR ''0'', x] else []);
          ds = (if n = 0 then ''0'' else rev (map ((!) (digits type)) (digs base n)))
      in number_layout sign pre ds width prec type)"

lemma number_ref_code:
  "number_ref num (unat base) width prec type =
    (let n = (if has type SIGN \<and> sint num < 0 then nat (- sint num) else unat num);
         ds = (if n = 0 then ''0'' else rev (map ((!) (digits type)) (digs (unat base) n)))
     in number_layout (number_sign type num) (number_prefix (digits type) base type) ds width prec type)"
proof -
  have "(unat base = 8) = (base = 8)" "(unat base = 16) = (base = 16)" by (auto simp: word_unat_eq_iff)
  then have pre: "number_prefix (digits type) base type =
    (if \<not> has type SPECIAL then [] else if unat base = 8 then ''0''
     else if unat base = 16 then [CHR ''0'', if has type SMALL then CHR ''x'' else CHR ''X''] else [])"
    by (simp add: number_prefix_def digits_def)
  show ?thesis unfolding number_ref_def number_sign_def Let_def pre ..
qed

lemma unat_of_small_int:
  assumes "0 \<le> k" and "k < 2 ^ 32"
  shows "unat (word_of_int k :: u32) = nat k"
proof -
  have "uint (word_of_int k :: u32) = take_bit 32 k" unfolding unsigned_of_int by simp
  also have "\<dots> = k" using assms by (simp add: take_bit_int_eq_self)
  finally show ?thesis using nat_uint_eq [of "word_of_int k :: u32"] by simp
qed

lemma unat_nonneg: "0 \<le> sint v \<Longrightarrow> unat (v :: u32) = nat (sint v)"
  using unat_of_small_int [of "sint v"] sint_lt [of v] by simp

lemma uint_neg_nat: "sint num < 0 \<Longrightarrow> unat (- num :: u32) = nat (- sint num)"
  using unat_of_small_int [of "- sint num"] sint_ge [of num] by simp

lemma number_put_layout:
  assumes tmp: "length tmp \<le> 36" and len: "length sign \<le> 1" "length pre \<le> 2"
    and sz: "- (2 ^ 30) \<le> sint sz" "sint sz < 2 ^ 30" and prec: "- (2 ^ 29) \<le> sint prec" "sint prec < 2 ^ 29"
    and w: "width = sint sz + int (length sign) + int (length pre)"
    and ty: "has ty ZEROPAD \<Longrightarrow> \<not> has ty LEFT"
  shows "number_put str ty sign pre tmp sz prec = str @ number_layout sign pre (rev tmp) width (sint prec) ty"
proof -
  define i where "i = (of_nat (length tmp) :: u32)"
  define p where "p = (if sint prec < sint i then i else prec)"
  have i: "sint i = int (length tmp)" unfolding i_def using tmp by (intro sint_of_nat_small) simp
  have p: "sint p = max (sint prec) (int (length tmp))" using i by (simp add: p_def)
  have s: "sint (sz - p) = sint sz - sint p" using sz prec p tmp by (intro sint_sub_small) auto
  have low: "- (2 ^ 31) + 1 < sint (sz - p)" unfolding s using sz prec p tmp by auto
  then have d1: "sint (sz - p - 1) = sint (sz - p) - 1" by (intro sint_dec) simp
  then have "sint (sz - p - 1 - 1) = sint (sz - p) - 2" using low by (subst sint_dec) simp_all
  then have d2: "sint (sz - p - 2) = sint (sz - p) - 2" by simp
  define body where "body = replicate (nat (sint prec - int (length tmp))) CHR ''0'' @ rev tmp"
  define pad where "pad = nat (width - int (length (sign @ pre @ body)))"
  have pad: "pad = nat (sint (sz - p))" unfolding pad_def body_def s w p by simp
  have zeros: "snd (pad_while CHR ''0'' i p o1) @ rev tmp = o1 @ body" for o1
    unfolding pad_while_replicate body_def i p by (simp add: max_def)
  have put: "number_put str ty sign pre tmp sz prec =
    (let (s4, str4) = (if \<not> has ty (ZEROPAD + LEFT) then pad_while CHR '' '' 0 (sz - p) str else (sz - p, str));
         (s6, str6) = (if \<not> has ty LEFT then pad_while (if has ty ZEROPAD then CHR ''0'' else CHR '' '') 0 s4 ((str4 @ sign) @ pre)
                       else (s4, (str4 @ sign) @ pre))
     in snd (pad_while CHR '' '' 0 s6 (str6 @ body)))"
    unfolding number_put_def Let_def i_def [symmetric] p_def [symmetric] case_prod_beta zeros ..
  have lay: "number_layout sign pre (rev tmp) width (sint prec) ty =
    (if has ty LEFT then sign @ pre @ body @ replicate pad CHR '' ''
     else if has ty ZEROPAD then sign @ pre @ replicate pad CHR ''0'' @ body
     else replicate pad CHR '' '' @ sign @ pre @ body)"
    unfolding number_layout_def Let_def length_rev body_def [symmetric] pad_def [symmetric] ..
  show ?thesis
    unfolding put lay has_zeropad_left Let_def
    using ty d1 d2
    by (cases "has ty LEFT"; cases "has ty ZEROPAD")
      (simp_all add: pad_while_replicate pad case_prod_beta del: ZEROPAD_def LEFT_def)
qed


lemma number_digits_length:
  assumes "2 \<le> unat base"
  shows "length (number_digits ds base num) \<le> 32"
proof -
  have "2 \<le> base" using assms by (simp add: word_le_nat_alt)
  then show ?thesis
    using digs_length_32 [OF assms, of "unat num"] unsigned_less [of num, where ?'a = nat]
    by (simp add: number_digits_digs)
qed

lemma number_text:
  assumes base: "2 \<le> unat base" "unat base \<le> 36" and sz: "- (2 ^ 29) \<le> sint sz" "sint sz < 2 ^ 29"
    and prec: "- (2 ^ 29) \<le> sint prec" "sint prec < 2 ^ 29"
  shows "number str num base sz prec type = Some (str @ number_ref num (unat base) (sint sz) (sint prec) type)"
proof -
  define ty where "ty = (if has type LEFT then type AND NOT ZEROPAD else type)"
  have ty: "has ty LEFT \<longleftrightarrow> has type LEFT" "has ty SIGN \<longleftrightarrow> has type SIGN" "has ty PLUS \<longleftrightarrow> has type PLUS"
    "has ty SPACE \<longleftrightarrow> has type SPACE" "has ty SPECIAL \<longleftrightarrow> has type SPECIAL"
    "has ty ZEROPAD \<longleftrightarrow> has type ZEROPAD \<and> \<not> has type LEFT"
    unfolding ty_def by (auto simp only: has_clear_zeropad split: if_splits)
  have sb: "sint base = int (unat base)" using sint_of_nat_small [of "unat base"] base by simp
  have "\<not> sint base < 2" "\<not> 36 < sint base" unfolding sb using base by linarith+
  then have nb: "(sint base < 2 \<or> 36 < sint base) = False" by blast
  have wb: "2 \<le> base" using base(1) by (simp add: word_le_nat_alt)
  define sign where "sign = number_sign type num"
  define pre where "pre = number_prefix (digits type) base type"
  define num' where "num' = (if has type SIGN \<and> sint num < 0 then - num else num)"
  define tmp where "tmp = (if num' = 0 then ''0'' else number_digits (digits type) base num')"
  define room where "room = number_room type base sign sz"
  have len: "length sign \<le> 1" "length pre \<le> 2" by (simp_all add: sign_def number_sign_def pre_def number_prefix_def)
  have lt: "length tmp \<le> 36" using number_digits_length [OF base(1), of "digits type" num'] by (simp add: tmp_def)
  have "sint room = sint sz - int (length sign) - int (length pre)"
    using sint_sub_small [of sz 1] sint_sub_small [of sz 2] sint_sub_small [of sz 3] sz
    by (simp add: room_def number_room_def pre_def number_prefix_def sign_def number_sign_def Let_def)
  then have room: "- (2 ^ 30) \<le> sint room" "sint room < 2 ^ 30"
    "sint sz = sint room + int (length sign) + int (length pre)" using len sz by auto
  have n: "unat num' = (if has type SIGN \<and> sint num < 0 then nat (- sint num) else unat num)"
    using uint_neg_nat by (simp add: num'_def)
  have rt: "rev tmp = (if unat num' = 0 then ''0'' else rev (map ((!) (digits type)) (digs (unat base) (unat num'))))"
    by (simp add: tmp_def number_digits_digs [OF wb] unat_eq_zero)
  have "number str num base sz prec type = Some (number_put str ty sign pre tmp room prec)"
    unfolding number_def Let_def ty_def [symmetric] nb if_False
    by (simp add: number_sign_def number_prefix_def number_room_def ty sign_def pre_def tmp_def num'_def room_def
        del: ZEROPAD_def LEFT_def SIGN_def PLUS_def SPACE_def SPECIAL_def)
  also have "number_put str ty sign pre tmp room prec = str @ number_layout sign pre (rev tmp) (sint sz) (sint prec) ty"
    by (rule number_put_layout [OF lt len room(1,2) prec room(3)]) (simp add: ty del: ZEROPAD_def LEFT_def)
  also have "number_layout sign pre (rev tmp) (sint sz) (sint prec) ty =
      number_layout sign pre (rev tmp) (sint sz) (sint prec) type"
    unfolding number_layout_def Let_def ty by simp
  also have "\<dots> = number_ref num (unat base) (sint sz) (sint prec) type"
    unfolding number_ref_code Let_def n [symmetric] rt [symmetric] sign_def pre_def by simp
  finally show ?thesis .
qed

section \<open>\<^verbatim>\<open>vsprintf\<close>\<close>

lemma number_some: "2 \<le> sint base \<Longrightarrow> sint base \<le> 36 \<Longrightarrow> \<exists>s. number str num base sz prec type = Some s"
  by (simp add: number_def Let_def)

text \<open>Every conversion ends; only \<^verbatim>\<open>%n\<close> writes to memory.\<close>

lemma convert_char_some: "\<exists>p'. convert_char args flags w prec c p = Some p' \<and> (c \<noteq> CHR ''n'' \<longrightarrow> pr_mem p' = pr_mem p)"
proof -
  have num: "\<exists>p'. conv_number args base w prec fl p = Some p' \<and> pr_mem p' = pr_mem p"
    if "base = 8 \<or> base = 10 \<or> base = 16" for base w fl
  proof -
    have "2 \<le> sint base" "sint base \<le> 36" using that by auto
    from number_some [OF this] show ?thesis by (fastforce simp: conv_number_def va_arg_def)
  qed
  obtain q1 q2 q3 q4 q5 q6 where
    q: "conv_number args 8 w prec flags p = Some q1" "conv_number args 16 8 prec (flags OR ZEROPAD) p = Some q2"
    "conv_number args 16 w prec flags p = Some q3" "conv_number args 16 w prec (flags OR SMALL) p = Some q4"
    "conv_number args 10 w prec (flags OR SIGN) p = Some q5" "conv_number args 10 w prec flags p = Some q6"
    and m: "pr_mem q1 = pr_mem p" "pr_mem q2 = pr_mem p" "pr_mem q3 = pr_mem p" "pr_mem q4 = pr_mem p"
    "pr_mem q5 = pr_mem p" "pr_mem q6 = pr_mem p"
    using num [of 8 w flags] num [of 16 8 "flags OR ZEROPAD"] num [of 16 w flags] num [of 16 w "flags OR SMALL"]
    num [of 10 w "flags OR SIGN"] num [of 10 w flags] by blast
  show ?thesis
    unfolding convert_char_def va_arg_def q case_prod_conv Let_def using m by (simp split: if_split)
qed

lemma convert_some: "\<exists>r p'. convert args flags w prec fmt p = Some (r, p') \<and> (CHR ''n'' \<notin> set fmt \<longrightarrow> pr_mem p' = pr_mem p)"
proof -
  define c where "c = (case fmt of [] \<Rightarrow> CHR 0x00 | c # _ \<Rightarrow> c)"
  obtain p' where "convert_char args flags w prec c p = Some p'" "c \<noteq> CHR ''n'' \<longrightarrow> pr_mem p' = pr_mem p"
    using convert_char_some by blast
  then show ?thesis by (cases fmt) (auto simp: convert_def c_def)
qed

lemma skip_atoi_suffix: "set (snd (skip_atoi s i)) \<subseteq> set s"
  by (induction s i rule: skip_atoi.induct) auto

lemma parse_flags_suffix: "set (snd (parse_flags s f)) \<subseteq> set s"
  by (induction s f rule: parse_flags.induct) auto

lemma directive_some:
  "\<exists>r p'. directive args fmt p = Some (r, p') \<and> set r \<subseteq> set fmt \<and> (CHR ''n'' \<notin> set fmt \<longrightarrow> pr_mem p' = pr_mem p)"
proof -
  obtain f s1 where s1: "parse_flags fmt 0 = (f, s1)" by fastforce
  obtain w f' s2 p2 where s2: "parse_width args s1 f p = (w, f', s2, p2)" by (metis prod_cases4)
  obtain pr s3 p3 where s3: "parse_precision args s2 p2 = (pr, s3, p3)" by (metis prod_cases3)
  have a: "set s1 \<subseteq> set fmt" using parse_flags_suffix [of fmt 0] s1 by simp
  have b: "set s2 \<subseteq> set s1" "pr_mem p2 = pr_mem p"
    using s2 skip_atoi_suffix [of s1 0]
    by (auto simp: parse_width_def va_arg_def Let_def split: if_splits prod.splits)
  have c: "set s3 \<subseteq> set s2" "pr_mem p3 = pr_mem p2"
    using s3 skip_atoi_suffix [of "tl s2" 0] list.set_sel(2) [of s2]
    by (auto simp: parse_precision_def va_arg_def next_is_def Let_def split: if_splits prod.splits)
  have "set (parse_qualifier s3) \<subseteq> set s3"
    using list.set_sel(2) [of s3] by (auto simp: parse_qualifier_def next_is_def)
  also have "\<dots> \<subseteq> set fmt" using a b(1) c(1) by (meson order_trans)
  finally have q: "set (parse_qualifier s3) \<subseteq> set fmt" .
  obtain r p' where r: "convert args f' w pr (parse_qualifier s3) p3 = Some (r, p')"
    "CHR ''n'' \<notin> set (parse_qualifier s3) \<longrightarrow> pr_mem p' = pr_mem p3"
    using convert_some by blast
  have "set r \<subseteq> set (parse_qualifier s3)"
    using r(1) by (auto simp: convert_def split: list.splits)
  then have "set r \<subseteq> set fmt" using q by (rule order_trans)
  moreover have "CHR ''n'' \<notin> set fmt \<longrightarrow> pr_mem p' = pr_mem p" using r(2) q b(2) c(2) by auto
  moreover have "directive args fmt p = Some (r, p')" using s1 s2 s3 r(1) by (simp add: directive_def Let_def)
  ultimately show ?thesis by blast
qed

lemma vsprintf_loop_some:
  "\<exists>p'. vsprintf_loop args fmt p = Some p' \<and> (CHR ''n'' \<notin> set fmt \<longrightarrow> pr_mem p' = pr_mem p)"
proof (induction args fmt p rule: vsprintf_loop.induct)
  case (2 args c fmt p)
  show ?case
  proof (cases "c = CHR ''%''")
    case True
    obtain r p' where d: "directive args fmt p = Some (r, p')" "set r \<subseteq> set fmt"
      "CHR ''n'' \<notin> set fmt \<longrightarrow> pr_mem p' = pr_mem p" using directive_some by blast
    obtain p'' where "vsprintf_loop args r p' = Some p''" "CHR ''n'' \<notin> set r \<longrightarrow> pr_mem p'' = pr_mem p'"
      using 2(2) [of "(r, p')" r p'] True d(1) by auto
    then show ?thesis using True d by auto
  next
    case False
    then show ?thesis using 2(1) by auto
  qed
qed simp

lemma vsprintf_loop_literal:
  "CHR ''%'' \<notin> set s \<Longrightarrow> vsprintf_loop args (s @ fmt) p = vsprintf_loop args fmt (p\<lparr>pr_out := pr_out p @ s\<rparr>)"
  by (induction s arbitrary: p) auto


lemma digits_decimal: "d < 10 \<Longrightarrow> digits type ! d = digit_char d"
  by (drule digit_cases, elim disjE) (simp_all add: digits_def digit_char_def)

text \<open>The plain decimal conversions.\<close>

definition show_int :: "int \<Rightarrow> string" where
  "show_int k = (if k < 0 then CHR ''-'' # show_nat (nat (- k)) else show_nat (nat k))"

lemma number_ref_decimal:
  "number_ref v 10 (- 1) (- 1) SIGN = show_int (sint v)" "number_ref v 10 (- 1) (- 1) 0 = show_nat (unat v)"
proof -
  have ds: "(if n = 0 then ''0'' else rev (map ((!) (digits type)) (digs 10 n))) = show_nat n" for n type
    using digs_less [of 10] by (auto simp: show_nat_def digits_decimal cong: map_cong)
  have h: "has SIGN SIGN" "\<not> has SIGN PLUS" "\<not> has SIGN SPACE" "\<not> has SIGN SPECIAL" "\<not> has SIGN LEFT" "\<not> has SIGN ZEROPAD"
    "\<not> has 0 SIGN" "\<not> has 0 PLUS" "\<not> has 0 SPACE" "\<not> has 0 SPECIAL" "\<not> has 0 LEFT" "\<not> has 0 ZEROPAD"
    by (simp_all add: has_def)
  have u: "unat v = nat (sint v)" if "\<not> sint v < 0" using unat_nonneg that by simp
  show "number_ref v 10 (- 1) (- 1) 0 = show_nat (unat v)"
    unfolding number_ref_def Let_def ds number_layout_def using h by simp
  show "number_ref v 10 (- 1) (- 1) SIGN = show_int (sint v)"
    unfolding number_ref_def Let_def ds number_layout_def show_int_def using h u by simp
qed

lemma conv_number_plain:
  assumes "base = 10" and "flags = SIGN \<or> flags = 0"
  shows "conv_number args base (- 1) (- 1) flags p =
    Some (p\<lparr>pr_ap := Suc (pr_ap p),
            pr_out := pr_out p @ (if flags = SIGN then show_int (sint (args (pr_ap p))) else show_nat (unat (args (pr_ap p))))\<rparr>)"
proof -
  have "number (pr_out p) v 10 (- 1) (- 1) flags = Some (pr_out p @ number_ref v 10 (- 1) (- 1) flags)" for v
    using number_text [of 10 "- 1" "- 1" "pr_out p" v flags] by simp
  then show ?thesis using assms number_ref_decimal
    by (auto simp: conv_number_def va_arg_def simp del: SIGN_def)
qed

lemma directive_decimal:
  "directive args (CHR ''d'' # t) p =
     Some (t, p\<lparr>pr_ap := Suc (pr_ap p), pr_out := pr_out p @ show_int (sint (args (pr_ap p)))\<rparr>)"
  "directive args (CHR ''u'' # t) p =
     Some (t, p\<lparr>pr_ap := Suc (pr_ap p), pr_out := pr_out p @ show_nat (unat (args (pr_ap p)))\<rparr>)"
  using conv_number_plain [of 10 SIGN args p] conv_number_plain [of 10 0 args p]
  by (simp_all add: directive_def parse_width_def parse_precision_def parse_qualifier_def convert_def convert_char_def next_is_def
      next_digit_def is_digit_def)

section \<open>Properties\<close>

text \<open>
  C32: \<^verbatim>\<open>number\<close> prints what its parameters ask for.  In every base from 2 to 36, for every width and
  precision below \<open>2\<^sup>2\<^sup>9\<close> and every combination of flags, it appends the sign, the base prefix, zeros up to
  the precision and the digits of the value (the absolute value of a negative number, the least
  one included), padded with blanks on the left or the right or with zeros behind the sign up to
  the width; and its digits fit the array \<^verbatim>\<open>tmp\<close> of 36 characters.
\<close>

theorem number_prints:
  assumes "2 \<le> unat base" and "unat base \<le> 36" and "- (2 ^ 29) \<le> sint sz" and "sint sz < 2 ^ 29"
    and "- (2 ^ 29) \<le> sint prec" and "sint prec < 2 ^ 29"
  shows "number str num base sz prec type = Some (str @ number_ref num (unat base) (sint sz) (sint prec) type) \<and>
    length (number_digits ds base num) \<le> 36"
  using number_text [OF assms] number_digits_length [OF assms(1), of ds num] by simp

theorem number_prints_witness: "number '''' (- 42) 10 5 3 SIGN = Some '' -042''"
proof -
  have "number_ref (- 42) 10 5 3 SIGN = '' -042''"
    by (simp add: number_ref_def number_layout_def has_def digits_def
        digs.simps [of 10 42] digs.simps [of 10 4] digs.simps [of 10 0])
  then show ?thesis using number_prints [of 10 5 3 "''''" "- 42" SIGN "''0''"] by simp
qed

text \<open>
  C33: for every argument, \<^verbatim>\<open>%d\<close> prints the decimal form of the argument as a signed number and \<^verbatim>\<open>%u\<close> as
  an unsigned one, between texts without \<^verbatim>\<open>%\<close> that are copied; the length is returned and no memory
  is written.  Reading the digits of \<^verbatim>\<open>%u\<close> with \<^verbatim>\<open>skip_atoi\<close> gives the argument back.
\<close>

theorem vsprintf_decimal:
  assumes "CHR ''%'' \<notin> set s" and "CHR ''%'' \<notin> set t"
  shows "vsprintf (s @ ''%d'' @ t) args m =
      (let out = s @ show_int (sint (args 0)) @ t in Some (out, of_nat (length out), m)) \<and>
    vsprintf (s @ ''%u'' @ t) args m =
      (let out = s @ show_nat (unat (args 0)) @ t in Some (out, of_nat (length out), m)) \<and>
    skip_atoi (show_nat (unat (args 0))) 0 = (args 0, [])"
  using vsprintf_loop_literal [OF assms(1)] vsprintf_loop_literal [OF assms(2), of args "[]"]
  by (simp add: vsprintf_def directive_decimal skip_atoi_show Let_def)

theorem vsprintf_decimal_witness:
  "vsprintf (''pid = '' @ ''%d'' @ [CHR 0x0A]) (\<lambda>_. - 3) (\<lambda>_. 0) =
     Some (''pid = -3'' @ [CHR 0x0A], 9, \<lambda>_. 0)"
  using vsprintf_decimal [of "''pid = ''" "[CHR 0x0A]" "\<lambda>_. - 3" "\<lambda>_. 0"]
  by (simp add: show_int_def show_nat_def digs.simps [of 10 3] digs.simps [of 10 0] digit_char_def)

text \<open>
  \<^verbatim>\<open>vsprintf\<close> returns for every format and all arguments, \<^verbatim>\<open>number\<close> never fails inside it, the result
  is the length of the text, and memory is written only by a conversion \<^verbatim>\<open>%n\<close>.
\<close>

lemma vsprintf_returns:
  "\<exists>out m'. vsprintf fmt args m = Some (out, of_nat (length out), m') \<and> (CHR ''n'' \<in> set fmt \<or> m' = m)"
proof -
  obtain p where "vsprintf_loop args fmt \<lparr>pr_ap = 0, pr_mem = m, pr_out = []\<rparr> = Some p"
    "CHR ''n'' \<notin> set fmt \<longrightarrow> pr_mem p = m"
    using vsprintf_loop_some [of args fmt "\<lparr>pr_ap = 0, pr_mem = m, pr_out = []\<rparr>"] by auto
  then show ?thesis by (auto simp: vsprintf_def)
qed

text \<open>
  A field width of \<^verbatim>\<open>*\<close> is taken from the arguments but not skipped in the format, so that the
  conversion behind it is not recognised: \<^verbatim>\<open>%*d\<close> prints itself, whatever the arguments.
\<close>

lemma vsprintf_star: "vsprintf ''%*d'' args m = Some (''%*d'', 3, m)"
  by (cases "sint (args 0) < 0")
    (simp_all add: vsprintf_def directive_def parse_width_def parse_precision_def parse_qualifier_def convert_def convert_char_def
      next_is_def next_digit_def is_digit_def va_arg_def)

end
