(* ===== verification/Printf_Format.thy ===== *)
theory Printf_Format
  imports Printf_Laws
begin

text \<open>
  The format of \<^verbatim>\<open>vsprintf\<close> in memory: the scans that \<^verbatim>\<open>vsprintf\<close>, \<^verbatim>\<open>skip_atoi\<close> and the \<^verbatim>\<open>repeat\<close> loop make with the
  pointer \<^verbatim>\<open>fmt\<close> end at the terminator and read what the definitions on strings read; what \<^verbatim>\<open>printk\<close> and
  \<^verbatim>\<open>printm\<close> leave in memory and hand to the log.
\<close>

section \<open>Terminated texts\<close>

fun text_at :: "bmem \<Rightarrow> u32 \<Rightarrow> string \<Rightarrow> bool" where
  "text_at m f [] \<longleftrightarrow> fmt_char m f = CHR 0x00"
| "text_at m f (c # s) \<longleftrightarrow> c \<noteq> CHR 0x00 \<and> fmt_char m f = c \<and> text_at m (f + 1) s"

lemma text_next:
  assumes "text_at m f s"
  shows "next_digit s = is_digit (fmt_char m f)"
    and "c \<noteq> CHR 0x00 \<Longrightarrow> next_is c s = (fmt_char m f = c)"
    and "next_is c s \<Longrightarrow> text_at m (f + 1) (tl s)"
  using assms by (cases s; auto simp: next_digit_def next_is_def is_digit_def)+

lemma skip_atoi_text:
  "text_at m f s \<Longrightarrow> \<exists>g. skip_atoi_at m f i = Some (fst (skip_atoi s i), g) \<and> text_at m g (snd (skip_atoi s i))"
proof (induction s i arbitrary: f rule: skip_atoi.induct)
  case (1 i)
  then show ?case by (simp add: skip_atoi_at.simps [of m f] is_digit_def)
next
  case (2 c s i)
  then show ?case by (cases "is_digit c") (simp_all add: skip_atoi_at.simps [of m f])
qed

lemma parse_flags_text:
  "text_at m (f + 1) s \<Longrightarrow> \<exists>g. parse_flags_at m f fl = Some (fst (parse_flags s fl), g) \<and> text_at m g (snd (parse_flags s fl))"
proof (induction s fl arbitrary: f rule: parse_flags.induct)
  case (1 fl)
  then show ?case by (simp add: parse_flags_at.simps [of m f])
next
  case (2 c s fl)
  then have c: "fmt_char m (f + 1) = c" "text_at m (f + 1 + 1) s" "text_at m (f + 1) (c # s)" by simp_all
  note step = parse_flags_at.simps [of m f fl, unfolded Let_def c(1)]
  consider "c = CHR ''-''" | "c = CHR ''+''" | "c = CHR '' ''" | "c = CHR ''#''" | "c = CHR ''0''"
    | "c \<noteq> CHR ''-''" "c \<noteq> CHR ''+''" "c \<noteq> CHR '' ''" "c \<noteq> CHR ''#''" "c \<noteq> CHR ''0''" by blast
  then show ?case by cases (use 2(1-5) c in \<open>auto simp: step\<close>)
qed

section \<open>The conversions\<close>

text \<open>The conversion character and what follows it, behind a \<^verbatim>\<open>%\<close>; no argument decides where it stands.\<close>

definition skip_digits :: "string \<Rightarrow> string" where
  "skip_digits s = (if next_digit s then snd (skip_atoi s 0) else s)"

definition conversion :: "string \<Rightarrow> string" where
  "conversion s =
     (let s = skip_digits (snd (parse_flags s 0))
      in parse_qualifier (if next_is CHR ''.'' s then skip_digits (tl s) else s))"

lemma conversion_length: "length (conversion s) \<le> length s"
proof -
  have d: "length (skip_digits t) \<le> length t" for t using skip_atoi_length by (simp add: skip_digits_def)
  have q: "length (parse_qualifier t) \<le> length t" for t by (simp add: parse_qualifier_def)
  define t where "t = skip_digits (snd (parse_flags s 0))"
  have "length (if next_is CHR ''.'' t then skip_digits (tl t) else t) \<le> length t"
    using d [of "tl t"] by (auto simp: order.trans [OF d [of "tl t"]])
  also have "\<dots> \<le> length s"
    using d [of "snd (parse_flags s 0)"] parse_flags_length [of s 0] unfolding t_def by linarith
  finally show ?thesis unfolding conversion_def Let_def t_def [symmetric] using q by (rule order_trans [rotated])
qed

text \<open>A format without the conversion \<^verbatim>\<open>%n\<close>.\<close>

function no_count :: "string \<Rightarrow> bool" where
  "no_count [] \<longleftrightarrow> True"
| "no_count (c # s) \<longleftrightarrow>
     (if c \<noteq> CHR ''%'' then no_count s
      else case conversion s of [] \<Rightarrow> True | d # r \<Rightarrow> d \<noteq> CHR ''n'' \<and> no_count r)"
  by pat_completeness auto
termination
proof (relation "measure length", simp, simp, goal_cases)
  case (1 c s d r)
  then show ?case using conversion_length [of s] by simp
qed

lemma parse_width_text:
  assumes "text_at (pr_mem p) f s"
  shows "\<exists>w fl' p' g. parse_width args s fl p = (w, fl', skip_digits s, p') \<and>
    parse_width_at args f fl p = Some (w, fl', g, p') \<and> text_at (pr_mem p) g (skip_digits s) \<and> pr_mem p' = pr_mem p"
proof (cases "next_digit s")
  case True
  then show ?thesis using skip_atoi_text [OF assms, of 0] text_next(1) [OF assms]
    by (auto simp: parse_width_def parse_width_at_def skip_digits_def split: prod.splits)
next
  case False
  then show ?thesis using text_next(1,2) [OF assms] assms
    by (simp add: parse_width_def parse_width_at_def skip_digits_def va_arg_def)
qed

lemma parse_precision_text:
  assumes t: "text_at (pr_mem p) f s"
  defines "r \<equiv> (if next_is CHR ''.'' s then skip_digits (tl s) else s)"
  shows "\<exists>n p' g. parse_precision args s p = (n, r, p') \<and>
    parse_precision_at args f p = Some (n, g, p') \<and> text_at (pr_mem p) g r \<and> pr_mem p' = pr_mem p"
proof (cases "next_is CHR ''.'' s")
  case True
  note t' = text_next(3) [OF t True]
  have c: "fmt_char (pr_mem p) f = CHR ''.''" using True text_next(2) [OF t] by simp
  show ?thesis
  proof (cases "next_digit (tl s)")
    case d: True
    obtain n r' where n: "skip_atoi (tl s) 0 = (n, r')" by fastforce
    then obtain g where "skip_atoi_at (pr_mem p) (f + 1) 0 = Some (n, g)" "text_at (pr_mem p) g r'"
      using skip_atoi_text [OF t', of 0] by auto
    then show ?thesis using True c d n text_next(1) [OF t']
      by (simp add: parse_precision_def parse_precision_at_def r_def skip_digits_def Let_def)
  next
    case False
    then show ?thesis using True c text_next(1,2) [OF t'] t'
      by (simp add: parse_precision_def parse_precision_at_def r_def skip_digits_def va_arg_def Let_def)
  qed
next
  case False
  then show ?thesis using text_next(2) [OF t] t by (simp add: parse_precision_def parse_precision_at_def r_def)
qed

lemma parse_qualifier_text:
  assumes "text_at m f s"
  shows "text_at m (parse_qualifier_at m f) (parse_qualifier s)"
  using text_next(2,3) [OF assms] assms by (auto simp: parse_qualifier_def parse_qualifier_at_def Let_def)

lemma directive_text:
  assumes "text_at (pr_mem p) (f + 1) s"
  shows "\<exists>fl w n q g. directive args s p = convert args fl w n (conversion s) q \<and>
    directive_at args f p = convert_at args fl w n g q \<and> text_at (pr_mem p) g (conversion s) \<and> pr_mem q = pr_mem p"
proof -
  obtain fl s1 where s1: "parse_flags s 0 = (fl, s1)" by fastforce
  obtain f1 where f1: "parse_flags_at (pr_mem p) f 0 = Some (fl, f1)" "text_at (pr_mem p) f1 s1"
    using parse_flags_text [OF assms, of 0] s1 by auto
  obtain w fl' p2 f2 where s2: "parse_width args s1 fl p = (w, fl', skip_digits s1, p2)"
    "parse_width_at args f1 fl p = Some (w, fl', f2, p2)" "text_at (pr_mem p2) f2 (skip_digits s1)" "pr_mem p2 = pr_mem p"
    using parse_width_text [OF f1(2), of args fl] by auto
  define s3 where "s3 = (if next_is CHR ''.'' (skip_digits s1) then skip_digits (tl (skip_digits s1)) else skip_digits s1)"
  obtain n p3 f3 where s3: "parse_precision args (skip_digits s1) p2 = (n, s3, p3)"
    "parse_precision_at args f2 p2 = Some (n, f3, p3)" "text_at (pr_mem p3) f3 s3" "pr_mem p3 = pr_mem p"
    using parse_precision_text [OF s2(3), of args] s2(4) unfolding s3_def by auto
  have c: "conversion s = parse_qualifier s3" by (simp add: conversion_def s1 s3_def Let_def)
  have "directive args s p = convert args fl' w n (conversion s) p3" unfolding c by (simp add: directive_def s1 s2 s3)
  moreover have "directive_at args f p = convert_at args fl' w n (parse_qualifier_at (pr_mem p3) f3) p3"
    by (simp add: directive_at_def f1 s2 s3)
  moreover have "text_at (pr_mem p) (parse_qualifier_at (pr_mem p3) f3) (conversion s)"
    using parse_qualifier_text [OF s3(3)] s3(4) unfolding c by simp
  ultimately show ?thesis using s3(4) by blast
qed

text \<open>The next character of the format is where the loop looks for it, at the terminator too.\<close>

lemma directive_step:
  assumes t: "text_at (pr_mem p) (f + 1) s" and n: "no_count (CHR ''%'' # s)"
  shows "\<exists>r p' g. directive args s p = Some (r, p') \<and> directive_at args f p = Some (g, p') \<and>
    text_at (pr_mem p') (g + 1) r \<and> pr_mem p' = pr_mem p \<and> no_count r"
proof -
  obtain fl w k q g where d: "directive args s p = convert args fl w k (conversion s) q"
    "directive_at args f p = convert_at args fl w k g q" "text_at (pr_mem p) g (conversion s)" "pr_mem q = pr_mem p"
    using directive_text [OF t] by blast
  define c where "c = fmt_char (pr_mem p) g"
  obtain p' where p': "convert_char args fl w k c q = Some p'" "c \<noteq> CHR ''n'' \<longrightarrow> pr_mem p' = pr_mem p"
    using convert_char_some [of args fl w k c q] d(4) by auto
  show ?thesis
  proof (cases "conversion s")
    case Nil
    then have "c = CHR 0x00" using d(3) by (simp add: c_def)
    then show ?thesis using Nil d p' by (simp add: convert_def convert_at_def c_def)
  next
    case (Cons a r)
    then have "c = a" "a \<noteq> CHR 0x00" "a \<noteq> CHR ''n''" "no_count r" using d(3) n by (simp_all add: c_def)
    then show ?thesis using Cons d p' by (simp add: convert_def convert_at_def c_def)
  qed
qed

lemma vsprintf_at_text:
  "text_at (pr_mem p) f s \<Longrightarrow> no_count s \<Longrightarrow>
     \<exists>p'. vsprintf_at args f p = Some p' \<and> vsprintf_loop args s p = Some p' \<and> pr_mem p' = pr_mem p"
proof (induction args s p arbitrary: f rule: vsprintf_loop.induct)
  case (1 args p)
  then show ?case by (simp add: vsprintf_at.simps [of args f])
next
  case (2 args c s p)
  have c: "fmt_char (pr_mem p) f = c" "c \<noteq> CHR 0x00" "text_at (pr_mem p) (f + 1) s" using 2(3) by simp_all
  show ?case
  proof (cases "c = CHR ''%''")
    case True
    obtain r p' g where d: "directive args s p = Some (r, p')" "directive_at args f p = Some (g, p')"
      "text_at (pr_mem p') (g + 1) r" "pr_mem p' = pr_mem p" "no_count r"
      using directive_step [OF c(3)] 2(4) True by blast
    show ?thesis using 2(2) [OF _ d(1) refl d(3,5)] True c d by (simp add: vsprintf_at.simps [of args f])
  next
    case False
    then show ?thesis using 2(1) [of "f + 1"] 2(4) c by (simp add: vsprintf_at.simps [of args f])
  qed
qed

section \<open>The buffer\<close>




section \<open>Properties\<close>

text \<open>
  C34: the scan of the format through its pointer.  For every terminated format in memory without the
  conversion \<^verbatim>\<open>%n\<close>, complete or cut off behind a \<^verbatim>\<open>%\<close>, a flag, a width or a qualifier, and for all arguments,
  \<^verbatim>\<open>vsprintf\<close> returns: it never leaves the format, puts the same text into the buffer as the definition on
  strings, writes nothing else and returns the length of the text.
\<close>

theorem vsprintf_format:
  assumes "text_at m fmt s" and "no_count s"
  shows "\<exists>out. vsprintf s args m = Some (out, of_nat (length out), m) \<and>
    vsprintf_c buf fmt args m = Some (of_nat (length out), put_text buf out m)"
  using vsprintf_at_text [of "\<lparr>pr_ap = 0, pr_mem = m, pr_out = []\<rparr>" fmt s args] assms
  by (auto simp: vsprintf_def vsprintf_c_def)

theorem vsprintf_format_witness:
  "vsprintf_c 0x300 0x100 (\<lambda>_. 7) (put_text 0x100 ''a%-'' (\<lambda>_. 1)) =
     Some (2, put_text 0x300 ''a%'' (put_text 0x100 ''a%-'' (\<lambda>_. 1)))"
proof -
  define m where "m = put_text 0x100 ''a%-'' (\<lambda>_. 1)"
  have t: "text_at m 0x100 ''a%-''" by (simp add: m_def fmt_char_def char_of_byte_def char_of_def bit_0)
  have n: "no_count ''a%-''" by (simp add: conversion_def skip_digits_def next_digit_def next_is_def parse_qualifier_def)
  have "vsprintf ''a%-'' (\<lambda>_. 7) m = Some (''a%'', 2, m)"
    by (simp add: vsprintf_def directive_def parse_width_def parse_precision_def parse_qualifier_def convert_def
        convert_char_def next_is_def next_digit_def)
  then show ?thesis using vsprintf_format [OF t n, of "\<lambda>_. 7" "0x300"] unfolding m_def by auto
qed



end
