(* ===== verification/Build.thy ===== *)
theory Build
  imports Prelude
begin

text \<open>
  The image builder \<^verbatim>\<open>tools/build.c\<close>, a program of the host: it checks the boot sector and the setup program,
  removes their headers, pads setup and writes boot sector, setup and system to its standard output.

  The files are a function \<open>files\<close> from names to contents, \<^const>\<open>None\<close> where \<^verbatim>\<open>open\<close> fails; \<open>stat\<close> gives
  the device number of a name; the standard output takes \<open>room\<close> bytes.  \<^verbatim>\<open>read\<close> returns as many bytes as
  the file still has, up to its bound.  The size of a \<^verbatim>\<open>long\<close>, which the header checks depend on, is
  the parameter \<open>L\<close>.  A run ends with the bytes written, and the message of \<^verbatim>\<open>die\<close> where it fails; the
  other messages on the standard error stream are left out.
\<close>

section \<open>The program\<close>

type_synonym 'a build = "(string \<times> u8 list) + 'a"

definition MINIX_HEADER :: nat where [simp, kconsts]: "MINIX_HEADER = 32"
definition SYS_SIZE :: u32 where [simp, kconsts]: "SYS_SIZE = 0x3000"
definition SETUP_SECTS :: u32 where [simp, kconsts]: "SETUP_SECTS = 4"
definition BUF_SIZE :: nat where [simp, kconsts]: "BUF_SIZE = 1024"

definition read_fd :: "nat \<Rightarrow> u8 list \<Rightarrow> u8 list \<Rightarrow> nat \<times> u8 list \<times> u8 list" where
  "read_fd n fd buf = (let d = take n fd in (length d, d @ drop (length d) buf, drop n fd))"

definition write_out :: "nat \<Rightarrow> nat \<Rightarrow> u8 list \<Rightarrow> u8 list \<Rightarrow> nat \<times> u8 list" where
  "write_out room n buf out = (let d = take (room - length out) (take n buf) in (length d, out @ d))"

definition dev_major :: "u32 \<Rightarrow> u8" where
  "dev_major d = ucast (drop_bit 8 d)"

definition dev_minor :: "u32 \<Rightarrow> u8" where
  "dev_minor d = ucast (d AND 0xff)"

definition named_device :: "(string \<Rightarrow> u32 option) \<Rightarrow> string \<Rightarrow> string \<Rightarrow> (u8 \<times> u8) build" where
  "named_device stat none name =
     (if name \<noteq> none
      then case stat name of
             None \<Rightarrow> Inl (''Couldn't stat root device.'', [])
           | Some d \<Rightarrow> Inr (dev_major d, dev_minor d)
      else Inr (0, 0))"

definition root_device :: "(string \<Rightarrow> u32 option) \<Rightarrow> string list \<Rightarrow> (u8 \<times> u8) build" where
  "root_device stat argv = (if length argv > 4 then named_device stat ''FLOPPY'' (argv ! 4) else Inr (3, 1))"

definition swap_device :: "(string \<Rightarrow> u32 option) \<Rightarrow> string list \<Rightarrow> (u8 \<times> u8) build" where
  "swap_device stat argv = (if length argv = 6 then named_device stat ''NONE'' (argv ! 5) else Inr (3, 4))"

definition check_devices :: "u8 \<Rightarrow> u8 \<Rightarrow> string option" where
  "check_devices major_root major_swap =
     (if major_root \<noteq> 2 \<and> major_root \<noteq> 3 \<and> major_root \<noteq> 0 then Some ''Bad root device --- major #''
      else if major_swap \<noteq> 0 \<and> major_swap \<noteq> 3 then Some ''Bad root device --- major #''
      else None)"

text \<open>\<^verbatim>\<open>((long *) buf)[k]\<close>, low byte first.\<close>

primrec le_nat :: "u8 list \<Rightarrow> nat" where
  "le_nat [] = 0"
| "le_nat (b # bs) = unat b + 256 * le_nat bs"

definition long_at :: "nat \<Rightarrow> u8 list \<Rightarrow> nat \<Rightarrow> nat" where
  "long_at L buf k = le_nat (take L (drop (L * k) buf))"

definition check_header :: "nat \<Rightarrow> string \<Rightarrow> u8 list \<Rightarrow> string option" where
  "check_header L name buf =
     (if long_at L buf 0 \<noteq> 0x04100301 then Some (''Non-Minix header of '' @ name)
      else if long_at L buf 1 \<noteq> MINIX_HEADER then Some (''Non-Minix header of '' @ name)
      else if long_at L buf 3 \<noteq> 0 then Some (''Illegal data segment in '' @ name)
      else if long_at L buf 4 \<noteq> 0 then Some (''Illegal bss in '' @ name)
      else if long_at L buf 5 \<noteq> 0 then Some (''Non-Minix header of '' @ name)
      else if long_at L buf 7 \<noteq> 0 then Some (''Illegal symbol table in '' @ name)
      else None)"

text \<open>Opening a file with a header, up to the checks: the rest of the file and the buffer.\<close>

definition open_module :: "nat \<Rightarrow> (string \<Rightarrow> u8 list option) \<Rightarrow> string \<Rightarrow> string \<Rightarrow> u8 list \<Rightarrow> u8 list \<Rightarrow>
    (u8 list \<times> u8 list) build" where
  "open_module L files path name buf out =
     (case files path of
        None \<Rightarrow> Inl (''Unable to open '' @ name, out)
      | Some fd \<Rightarrow>
          let (n, buf, fd) = read_fd MINIX_HEADER fd buf
          in if n \<noteq> MINIX_HEADER then Inl (''Unable to read header of '' @ name, out)
             else (case check_header L name buf of Some e \<Rightarrow> Inl (e, out) | None \<Rightarrow> Inr (fd, buf)))"

definition quoted :: "string \<Rightarrow> string" where
  "quoted s = [CHR 0x27] @ s @ [CHR 0x27]"

definition build_boot :: "nat \<Rightarrow> nat \<Rightarrow> (string \<Rightarrow> u8 list option) \<Rightarrow> string \<Rightarrow> u8 \<times> u8 \<Rightarrow> u8 \<times> u8 \<Rightarrow> u8 list \<Rightarrow>
    (u8 list \<times> u8 list) build" where
  "build_boot L room files path root swap buf =
     (case open_module L files path (quoted ''boot'') buf [] of
        Inl e \<Rightarrow> Inl e
      | Inr (fd, buf) \<Rightarrow>
          let (i, buf, fd) = read_fd BUF_SIZE fd buf
          in if i \<noteq> 512 then Inl (''Boot block must be exactly 512 bytes'', [])
             else if le_nat (take 2 (drop 510 buf)) \<noteq> 0xAA55
             then Inl (''Boot block hasn't got boot flag (0xAA55)'', [])
             else
               let buf = buf[506 := snd swap, 507 := fst swap, 508 := snd root, 509 := fst root];
                   (i, out) = write_out room 512 buf []
               in if i \<noteq> 512 then Inl (''Write call failed'', out) else Inr (buf, out))"

text \<open>The loop that copies the rest of a file, counting its bytes in an \<^verbatim>\<open>int\<close>.\<close>

function copy_loop :: "nat \<Rightarrow> u8 list \<Rightarrow> u8 list \<Rightarrow> u8 list \<Rightarrow> u32 \<Rightarrow> (u32 \<times> u8 list \<times> u8 list) build" where
  "copy_loop room fd buf out i =
     (let (c, buf, fd') = read_fd BUF_SIZE fd buf
      in if c = 0 then Inr (i, buf, out)
         else
           let (n, out) = write_out room c buf out
           in if n \<noteq> c then Inl (''Write call failed'', out) else copy_loop room fd' buf out (i + of_nat c))"
  by pat_completeness auto
termination
  by (relation "measure (\<lambda>(room, fd, buf, out, i). length fd)") (auto simp: read_fd_def Let_def)

declare copy_loop.simps [simp del]

text \<open>The loop that pads setup with the zero bytes of the buffer.\<close>

function pad_loop :: "nat \<Rightarrow> u8 list \<Rightarrow> u8 list \<Rightarrow> u32 \<Rightarrow> (u8 list) build" where
  "pad_loop room buf out i =
     (if sint i < sint (SETUP_SECTS * 512) then
        let c = SETUP_SECTS * 512 - i;
            c = (if c > of_nat BUF_SIZE then of_nat BUF_SIZE else c);
            (n, out) = write_out room (unat c) buf out
        in if n \<noteq> unat c then Inl (''Write call failed'', out) else pad_loop room buf out (i + c)
      else Inr out)"
  by pat_completeness auto
termination
proof (relation "measure (\<lambda>(room, buf, out, i). nat (2048 - sint i))", simp, goal_cases)
  case (1 room buf out i c c' n out')
  show ?case
  proof (cases "c > 1024")
    case True
    then have "sint (i + c') = sint i + 1024" using 1 sint_plus [of i 1024] sint_ge [of i] by simp
    then show ?thesis using 1(1) by simp
  next
    case False
    then have "i + c' = 2048" using 1 by simp
    then show ?thesis using 1(1) by simp
  qed
qed

declare pad_loop.simps [simp del]

definition build_setup :: "nat \<Rightarrow> nat \<Rightarrow> (string \<Rightarrow> u8 list option) \<Rightarrow> string \<Rightarrow> u8 list \<Rightarrow> u8 list \<Rightarrow> (u8 list) build" where
  "build_setup L room files path buf out =
     (case open_module L files path (quoted ''setup'') buf out of
        Inl e \<Rightarrow> Inl e
      | Inr (fd, buf) \<Rightarrow>
          (case copy_loop room fd buf out 0 of
             Inl e \<Rightarrow> Inl e
           | Inr (i, buf, out) \<Rightarrow>
               if sint i > sint (SETUP_SECTS * 512)
               then Inl (''Setup exceeds SETUP_SECTS sectors - rewrite build/boot/setup'', out)
               else pad_loop room (replicate BUF_SIZE 0) out i))"

definition build_system :: "nat \<Rightarrow> (string \<Rightarrow> u8 list option) \<Rightarrow> string \<Rightarrow> u8 list \<Rightarrow> u8 list \<Rightarrow> (u8 list) build" where
  "build_system room files path buf out =
     (case files path of
        None \<Rightarrow> Inl (''Unable to open '' @ quoted ''system'', out)
      | Some fd \<Rightarrow>
          (case copy_loop room fd buf out 0 of
             Inl e \<Rightarrow> Inl e
           | Inr (i, buf, out) \<Rightarrow>
               if sint i > sint (SYS_SIZE * 16) then Inl (''System is too big'', out) else Inr out))"

definition build_main :: "nat \<Rightarrow> nat \<Rightarrow> (string \<Rightarrow> u8 list option) \<Rightarrow> (string \<Rightarrow> u32 option) \<Rightarrow> string list \<Rightarrow> (u8 list) build" where
  "build_main L room files stat argv =
     (if length argv < 4 \<or> length argv > 6
      then Inl (''Usage: build bootsect setup system [rootdev] [> image]'', [])
      else case root_device stat argv of
        Inl e \<Rightarrow> Inl e
      | Inr root \<Rightarrow>
          (case swap_device stat argv of
             Inl e \<Rightarrow> Inl e
           | Inr swap \<Rightarrow>
               (case check_devices (fst root) (fst swap) of
                  Some e \<Rightarrow> Inl (e, [])
                | None \<Rightarrow>
                    (case build_boot L room files (argv ! 1) root swap (replicate BUF_SIZE 0) of
                       Inl e \<Rightarrow> Inl e
                     | Inr (buf, out) \<Rightarrow>
                         (case build_setup L room files (argv ! 2) buf out of
                            Inl e \<Rightarrow> Inl e
                          | Inr out \<Rightarrow> build_system room files (argv ! 3) (replicate BUF_SIZE 0) out)))))"

section \<open>Loops\<close>

lemma read_fd_header:
  "32 \<le> length fd \<Longrightarrow> read_fd 32 fd buf = (32, take 32 fd @ drop 32 buf, drop 32 fd)"
  by (simp add: read_fd_def min_def)

lemma take_append_room: "length out \<le> room \<Longrightarrow> out @ take (room - length out) d = take room (out @ d)"
  by simp

lemma copy_loop_eq:
  assumes "length buf = BUF_SIZE" and "length out \<le> room"
  shows "\<exists>buf'. copy_loop room fd buf out i =
    (if length out + length fd \<le> room then Inr (i + of_nat (length fd), buf', out @ fd)
     else Inl (''Write call failed'', take room (out @ fd)))"
  using assms
proof (induction room fd buf out i rule: copy_loop.induct)
  case (1 room fd buf out i)
  let ?d = "take 1024 fd"
  let ?buf = "?d @ drop (length ?d) buf"
  have r: "read_fd BUF_SIZE fd buf = (length ?d, ?buf, drop 1024 fd)" by (simp add: read_fd_def)
  have w: "write_out room (length ?d) ?buf out = (length (take (room - length out) ?d), take room (out @ ?d))"
  proof -
    have "take (length ?d) ?buf = ?d" by (simp add: min_def)
    then show ?thesis unfolding write_out_def Let_def using 1(3) by (simp only: take_append_room)
  qed
  show ?case
  proof (cases "fd = []")
    case True
    then show ?thesis using 1(3) unfolding copy_loop.simps [of room fd] r by simp
  next
    case False
    then have c: "length ?d \<noteq> 0" by simp
    show ?thesis
    proof (cases "length out + length ?d \<le> room")
      case True
      have out: "take room (out @ ?d) = out @ ?d" by (rule take_all) (use True in \<open>simp only: length_append\<close>)
      have len: "length (take (room - length out) ?d) = length ?d" using True by (simp only: length_take)
      have step: "copy_loop room fd buf out i = copy_loop room (drop 1024 fd) ?buf (out @ ?d) (i + of_nat (length ?d))"
        unfolding copy_loop.simps [of room fd] r Let_def prod.case w out len by (simp only: c if_False simp_thms)
      obtain buf' where "copy_loop room (drop 1024 fd) ?buf (out @ ?d) (i + of_nat (length ?d)) =
          (if length (out @ ?d) + length (drop 1024 fd) \<le> room
           then Inr (i + of_nat (length ?d) + of_nat (length (drop 1024 fd)), buf', (out @ ?d) @ drop 1024 fd)
           else Inl (''Write call failed'', take room ((out @ ?d) @ drop 1024 fd)))"
        using 1(1) [OF r [symmetric] refl refl c w [symmetric] refl] out len True 1(2) by fastforce
      moreover have "i + of_nat (length ?d) + of_nat (length (drop 1024 fd)) = i + of_nat (length fd)"
        by (simp only: add.assoc of_nat_add [symmetric]) (simp add: min_def)
      moreover have "length (out @ ?d) + length (drop 1024 fd) = length out + length fd" by simp
      ultimately show ?thesis unfolding step by (metis append.assoc append_take_drop_id)
    next
      case False
      then have "take room (out @ ?d) = take room (out @ fd)" by (auto simp: min_def split: if_splits)
      moreover have "length (take (room - length out) ?d) \<noteq> length ?d" "\<not> length out + length fd \<le> room"
        using False 1(3) by auto
      ultimately show ?thesis
        unfolding copy_loop.simps [of room fd] r Let_def prod.case w by (simp only: c if_False if_True simp_thms)
    qed
  qed
qed

lemma pad_loop_eq:
  assumes "n \<le> 2048" and "length out \<le> room"
  shows "pad_loop room (replicate BUF_SIZE 0) out (of_nat n) =
    (if length out + (2048 - n) \<le> room then Inr (out @ replicate (2048 - n) 0)
     else Inl (''Write call failed'', take room (out @ replicate (2048 - n) 0)))"
  using assms
proof (induction "2048 - n" arbitrary: n out rule: less_induct)
  case less
  show ?case
  proof (cases "n = 2048")
    case True
    then show ?thesis using less.prems by (simp add: pad_loop.simps [of room _ _ 2048])
  next
    case False
    define c where "c = min 1024 (2048 - n)"
    have n: "sint (of_nat n :: u32) = int n" "n < 2048" using less.prems False by (simp_all add: sint_of_nat_small)
    have sub: "(2048 :: u32) - of_nat n = of_nat (2048 - n)" using less.prems(1) by (simp add: of_nat_diff)
    have "unat (of_nat (2048 - n) :: u32) = 2048 - n" by (simp add: unat_of_nat)
    then have cw: "(if SETUP_SECTS * 512 - of_nat n > of_nat BUF_SIZE then of_nat BUF_SIZE else SETUP_SECTS * 512 - of_nat n) =
        (of_nat c :: u32)"
      using sub by (auto simp: c_def word_less_nat_alt)
    have uc: "unat (of_nat c :: u32) = c" "0 < c" "n + c \<le> 2048" using n(2) by (auto simp: c_def unat_of_nat)
    have w: "write_out room c (replicate BUF_SIZE 0) out =
        (length (take (room - length out) (replicate c (0 :: u8))), take room (out @ replicate c 0))"
      using less.prems(2) by (simp add: write_out_def c_def min_def)
    have step: "pad_loop room (replicate BUF_SIZE 0) out (of_nat n) =
        (if room < length out + c then Inl (''Write call failed'', take room (out @ replicate c 0))
         else pad_loop room (replicate BUF_SIZE 0) (out @ replicate c 0) (of_nat (n + c)))"
      unfolding pad_loop.simps [of room _ _ "of_nat n"] Let_def cw uc(1) w using n uc(2) less.prems(2) by (auto simp: min_def)
    show ?thesis
    proof (cases "room < length out + c")
      case True
      then show ?thesis unfolding step using less.prems(2) n(2) by (auto simp: c_def min_def split: if_splits)
    next
      case False
      have split: "replicate (2048 - n) (0 :: u8) = replicate c 0 @ replicate (2048 - (n + c)) 0"
        using uc by (simp flip: replicate_add)
      have "pad_loop room (replicate BUF_SIZE 0) (out @ replicate c 0) (of_nat (n + c)) =
          (if length (out @ replicate c (0 :: u8)) + (2048 - (n + c)) \<le> room
           then Inr ((out @ replicate c 0) @ replicate (2048 - (n + c)) 0)
           else Inl (''Write call failed'', take room ((out @ replicate c 0) @ replicate (2048 - (n + c)) 0)))"
        using less.hyps [of "n + c" "out @ replicate c 0"] uc False n by simp
      then show ?thesis unfolding step split using False uc by simp
    qed
  qed
qed

section \<open>Modules\<close>

text \<open>The header of a module: magic number, own length, and no data, bss, entry point or symbols.\<close>

definition minix_header :: "u8 list \<Rightarrow> bool" where
  "minix_header h \<longleftrightarrow> length h = 32 \<and>
     map (long_at 4 h) [0, 1, 3, 4, 5, 7] = [0x04100301, 32, 0, 0, 0, 0]"

lemma long_at_append: "length h = 32 \<Longrightarrow> k < 8 \<Longrightarrow> long_at 4 (h @ r) k = long_at 4 h k"
  by (simp add: long_at_def)

lemma check_header_None:
  assumes "length h = 32"
  shows "check_header 4 name (h @ r) = None \<longleftrightarrow> minix_header h"
  using assms by (simp add: check_header_def minix_header_def long_at_append)

lemma open_module_Inr:
  "open_module 4 files path name buf out = Inr (fd, buf') \<longleftrightarrow>
     (\<exists>d. files path = Some d \<and> minix_header (take 32 d) \<and> fd = drop 32 d \<and> buf' = take 32 d @ drop 32 buf)"
proof (cases "files path")
  case None
  then show ?thesis by (simp add: open_module_def)
next
  case (Some d)
  show ?thesis
  proof (cases "32 \<le> length d")
    case True
    then have "length (take 32 d) = 32" by simp
    from check_header_None [OF this] show ?thesis
      using Some True by (auto simp: open_module_def read_fd_header split: option.splits)
  next
    case False
    then show ?thesis using Some by (auto simp: open_module_def read_fd_def minix_header_def Let_def)
  qed
qed

definition stamp :: "u8 \<times> u8 \<Rightarrow> u8 \<times> u8 \<Rightarrow> u8 list \<Rightarrow> u8 list" where
  "stamp root swap boot = boot[506 := snd swap, 507 := fst swap, 508 := snd root, 509 := fst root]"

lemma boot_flag:
  assumes "length b = 512"
  shows "le_nat (take 2 (drop 510 (b @ r))) = 0xAA55 \<longleftrightarrow> b ! 510 = 0x55 \<and> b ! 511 = 0xAA"
proof -
  have "take 2 (drop 510 (b @ r)) = [b ! 510, b ! 511]"
    using assms by (simp add: list_eq_iff_nth_eq nth_append less_Suc_eq numeral_2_eq_2)
  moreover have "unat (b ! 510) < 256" "unat (b ! 511) < 256" using unsigned_less [of "b ! 510"] unsigned_less [of "b ! 511"] by simp_all
  moreover have "x + 256 * y = 0xAA55 \<longleftrightarrow> x = 0x55 \<and> y = 0xAA" if "x < 256" for x y :: nat
  proof
    assume e: "x + 256 * y = 0xAA55"
    have "x = (x + 256 * y) mod 256" using that by simp
    then have "x = 0x55" unfolding e by simp
    then show "x = 0x55 \<and> y = 0xAA" using e by simp
  qed simp
  ultimately show ?thesis by (simp add: word_unat_eq_iff)
qed

lemma write_stamped:
  assumes "length b = 512"
  shows "write_out room 512 (stamp root swap (b @ r)) [] =
    (min room 512, take room (stamp root swap b))"
proof -
  have "stamp root swap (b @ r) = stamp root swap b @ r" using assms by (simp add: stamp_def list_update_append1)
  moreover have "length (stamp root swap b) = 512" using assms by (simp add: stamp_def)
  ultimately show ?thesis by (simp add: write_out_def)
qed

lemma build_boot_Inr:
  assumes "length buf = BUF_SIZE"
  shows "build_boot 4 room files path root swap buf = Inr (buf', out) \<longleftrightarrow>
     (\<exists>d. files path = Some d \<and> minix_header (take 32 d) \<and> length d = 544 \<and> d ! 542 = 0x55 \<and> d ! 543 = 0xAA \<and>
        512 \<le> room \<and> out = stamp root swap (drop 32 d) \<and> buf' = stamp root swap (drop 32 d @ drop 512 buf))"
proof (cases "open_module 4 files path (quoted ''boot'') buf []")
  case (Inl e)
  then have "\<not> (\<exists>d. files path = Some d \<and> minix_header (take 32 d))"
    using open_module_Inr [of files path "quoted ''boot''" buf "[]"] by auto
  then show ?thesis using Inl by (auto simp: build_boot_def)
next
  case (Inr p)
  then obtain d where d: "files path = Some d" "minix_header (take 32 d)" "p = (drop 32 d, take 32 d @ drop 32 buf)"
    using open_module_Inr [of files path "quoted ''boot''" buf "[]" "fst p" "snd p"] by (metis prod.collapse)
  show ?thesis
  proof (cases "length d = 544")
    case True
    then have "read_fd 1024 (drop 32 d) (take 32 d @ drop 32 buf) = (512, drop 32 d @ drop 512 buf, [])"
      using assms by (simp add: read_fd_def)
    moreover have "length (drop 32 d) = 512" using True by simp
    moreover have "drop 32 d ! 510 = d ! 542" "drop 32 d ! 511 = d ! 543" using True by simp_all
    ultimately show ?thesis using Inr d True boot_flag [of "drop 32 d" "drop 512 buf"] write_stamped [of "drop 32 d" room root swap "drop 512 buf"]
      by (auto simp: build_boot_def stamp_def)
  next
    case False
    then have "fst (read_fd 1024 (drop 32 d) (take 32 d @ drop 32 buf)) \<noteq> 512"
      using d(2) by (auto simp: read_fd_def minix_header_def Let_def)
    then show ?thesis using Inr d False by (auto simp: build_boot_def split: prod.splits)
  qed
qed

lemma build_setup_Inr:
  assumes "length buf = BUF_SIZE" and "length out \<le> room" and "\<forall>d. files path = Some d \<longrightarrow> length d < 2 ^ 31"
  shows "build_setup 4 room files path buf out = Inr out' \<longleftrightarrow>
     (\<exists>d. files path = Some d \<and> minix_header (take 32 d) \<and> length d \<le> 32 + 2048 \<and> length out + 2048 \<le> room \<and>
        out' = out @ drop 32 d @ replicate (2080 - length d) 0)"
proof (cases "open_module 4 files path (quoted ''setup'') buf out")
  case (Inl e)
  then have "\<not> (\<exists>d. files path = Some d \<and> minix_header (take 32 d))"
    using open_module_Inr [of files path "quoted ''setup''" buf out] by auto
  then show ?thesis using Inl by (auto simp: build_setup_def)
next
  case (Inr p)
  then obtain d where d: "files path = Some d" "minix_header (take 32 d)" "p = (drop 32 d, take 32 d @ drop 32 buf)"
    using open_module_Inr [of files path "quoted ''setup''" buf out "fst p" "snd p"] by (metis prod.collapse)
  let ?s = "drop 32 d"
  have len: "32 \<le> length d" using d(2) by (simp add: minix_header_def min_def split: if_splits)
  have "length (take 32 d @ drop 32 buf) = BUF_SIZE" using assms(1) len by simp
  from copy_loop_eq [OF this assms(2), of ?s 0] obtain buf' where c: "copy_loop room ?s (take 32 d @ drop 32 buf) out 0 =
      (if length out + length ?s \<le> room then Inr (of_nat (length ?s), buf', out @ ?s)
       else Inl (''Write call failed'', take room (out @ ?s)))"
    by (metis add_0)
  have i: "sint (of_nat (length ?s) :: u32) = int (length ?s)" using assms(3) d(1) by (simp add: sint_of_nat_small)
  show ?thesis
  proof (cases "length ?s \<le> 2048 \<and> length out + length ?s \<le> room")
    case True
    then have p: "pad_loop room (replicate BUF_SIZE 0) (out @ ?s) (of_nat (length ?s)) =
      (if length (out @ ?s) + (2048 - length ?s) \<le> room then Inr ((out @ ?s) @ replicate (2048 - length ?s) 0)
       else Inl (''Write call failed'', take room ((out @ ?s) @ replicate (2048 - length ?s) 0)))"
      by (intro pad_loop_eq) simp_all
    have "build_setup 4 room files path buf out = pad_loop room (replicate BUF_SIZE 0) (out @ ?s) (of_nat (length ?s))"
      unfolding build_setup_def Inr d(3) sum.case prod.case c using True i by simp
    moreover have "length (out @ ?s) + (2048 - length ?s) = length out + 2048" using True by simp
    ultimately show ?thesis unfolding p using d True len by auto
  next
    case False
    then show ?thesis unfolding build_setup_def Inr d(3) sum.case prod.case c using i d len by auto
  qed
qed

lemma build_system_Inr:
  assumes "length out \<le> room" and "\<forall>d. files path = Some d \<longrightarrow> length d < 2 ^ 31"
  shows "build_system room files path (replicate BUF_SIZE 0) out = Inr out' \<longleftrightarrow>
     (\<exists>d. files path = Some d \<and> length d \<le> 0x30000 \<and> length out + length d \<le> room \<and> out' = out @ d)"
proof (cases "files path")
  case (Some d)
  obtain buf' where c: "copy_loop room d (replicate BUF_SIZE 0) out 0 =
      (if length out + length d \<le> room then Inr (0 + of_nat (length d), buf', out @ d)
       else Inl (''Write call failed'', take room (out @ d)))"
    using copy_loop_eq [of "replicate BUF_SIZE 0" out room d 0] assms(1) by auto
  note c = c [unfolded BUF_SIZE_def]
  have "sint (of_nat (length d) :: u32) = int (length d)" using assms(2) Some by (simp add: sint_of_nat_small)
  then show ?thesis using Some by (auto simp: build_system_def c)
qed (simp add: build_system_def)

section \<open>The image\<close>

definition disk_image :: "u8 \<times> u8 \<Rightarrow> u8 \<times> u8 \<Rightarrow> u8 list \<Rightarrow> u8 list \<Rightarrow> u8 list \<Rightarrow> u8 list" where
  "disk_image root swap boot setup sys =
     stamp root swap (drop 32 boot) @ drop 32 setup @ replicate (2080 - length setup) 0 @ sys"

definition legal_devices :: "u8 \<times> u8 \<Rightarrow> u8 \<times> u8 \<Rightarrow> bool" where
  "legal_devices root swap \<longleftrightarrow> fst root \<in> {0, 2, 3} \<and> fst swap \<in> {0, 3}"

lemma check_devices_None: "check_devices (fst root) (fst swap) = None \<longleftrightarrow> legal_devices root swap"
  by (auto simp: check_devices_def legal_devices_def)

lemma check_devices_legal: "check_devices a b = None \<Longrightarrow> legal_devices (a, x) (b, y)"
  using check_devices_None [of "(a, x)" "(b, y)"] by simp

definition boot_module :: "u8 list \<Rightarrow> bool" where
  "boot_module b \<longleftrightarrow> minix_header (take 32 b) \<and> length b = 32 + 512 \<and> b ! (32 + 510) = 0x55 \<and> b ! (32 + 511) = 0xAA"

definition setup_module :: "u8 list \<Rightarrow> bool" where
  "setup_module s \<longleftrightarrow> minix_header (take 32 s) \<and> length s \<le> 32 + 2048"

lemma modules_Inr:
  assumes "\<forall>f d. files f = Some d \<longrightarrow> length d < 2 ^ 31"
  shows "(case build_boot 4 room files pb root swap (replicate BUF_SIZE 0) of
            Inl e \<Rightarrow> Inl e
          | Inr (buf, out) \<Rightarrow>
              (case build_setup 4 room files ps buf out of
                 Inl e \<Rightarrow> Inl e
               | Inr out \<Rightarrow> build_system room files pk (replicate BUF_SIZE 0) out)) = Inr out \<longleftrightarrow>
    (\<exists>b s k. files pb = Some b \<and> files ps = Some s \<and> files pk = Some k \<and> boot_module b \<and> setup_module s \<and>
       length k \<le> 0x30000 \<and> 2560 + length k \<le> room \<and> out = disk_image root swap b s k)" (is "?lhs \<longleftrightarrow> ?rhs")
proof (cases "build_boot 4 room files pb root swap (replicate BUF_SIZE 0)")
  case (Inl e)
  then have "\<not> (\<exists>b. files pb = Some b \<and> boot_module b) \<or> room < 512"
    using build_boot_Inr [of "replicate BUF_SIZE 0" room files pb root swap] by (auto simp: boot_module_def) blast
  then show ?thesis using Inl by auto
next
  case (Inr r)
  obtain b where b: "files pb = Some b" "boot_module b" "512 \<le> room" "snd r = stamp root swap (drop 32 b)"
    and buf: "fst r = stamp root swap (drop 32 b @ drop 512 (replicate BUF_SIZE 0))"
    using build_boot_Inr [of "replicate BUF_SIZE 0" room files pb root swap "fst r" "snd r"] Inr
    by (auto simp: boot_module_def)
  have len: "length (fst r) = BUF_SIZE" "length (snd r) = 512" using b buf by (simp_all add: boot_module_def stamp_def)
  then have room: "length (snd r) \<le> room" using b(3) by simp
  note inr = build_setup_Inr [of "fst r" "snd r" room files ps, OF len(1) room assms [THEN spec [of _ ps]]]
  have "?lhs \<longleftrightarrow> (\<exists>out1. build_setup 4 room files ps (fst r) (snd r) = Inr out1 \<and>
      build_system room files pk (replicate BUF_SIZE 0) out1 = Inr out)"
    unfolding Inr by (auto split: sum.splits prod.splits)
  also have "\<dots> \<longleftrightarrow> (\<exists>s. files ps = Some s \<and> setup_module s \<and> 2560 \<le> room \<and>
      build_system room files pk (replicate BUF_SIZE 0) (snd r @ drop 32 s @ replicate (2080 - length s) 0) = Inr out)"
    unfolding inr using len(2) by (auto simp: setup_module_def)
  also have "\<dots> \<longleftrightarrow> (\<exists>s. files ps = Some s \<and> setup_module s \<and> 2560 \<le> room \<and>
      (\<exists>k. files pk = Some k \<and> length k \<le> 0x30000 \<and> 2560 + length k \<le> room \<and> out = disk_image root swap b s k))"
  proof -
    have "build_system room files pk (replicate BUF_SIZE 0) (snd r @ drop 32 s @ replicate (2080 - length s) 0) = Inr out \<longleftrightarrow>
        (\<exists>k. files pk = Some k \<and> length k \<le> 0x30000 \<and> 2560 + length k \<le> room \<and> out = disk_image root swap b s k)"
      if "setup_module s" "2560 \<le> room" for s
    proof -
      have "32 \<le> length s" using that(1) by (simp add: setup_module_def minix_header_def min_def split: if_splits)
      then have l: "length (snd r @ drop 32 s @ replicate (2080 - length s) 0) = 2560"
        using that(1) len(2) by (simp add: setup_module_def)
      show ?thesis using build_system_Inr [of "snd r @ drop 32 s @ replicate (2080 - length s) 0" room files pk out]
        assms that(2) unfolding l disk_image_def b(4) [symmetric] by simp
    qed
    then show ?thesis by blast
  qed
  also have "\<dots> \<longleftrightarrow> ?rhs" using b(1,2) by auto
  finally show ?thesis .
qed

text \<open>
  C39: where a \<^verbatim>\<open>long\<close> has 4 bytes and no file has \<open>2^31\<close> bytes, the builder succeeds exactly when it gets three
  to five arguments, the devices are legal, the three files can be opened, the boot sector and setup
  have a valid header and a legal size, the boot sector its flag, the system at most 192 KB, and the
  output takes everything.  The output is then the boot sector with the device numbers in bytes 506
  to 509, setup padded with zero bytes to four sectors, and the system.
\<close>

theorem build_image:
  assumes "\<forall>f d. files f = Some d \<longrightarrow> length d < 2 ^ 31"
  shows "build_main 4 room files stat argv = Inr out \<longleftrightarrow>
    (\<exists>root swap b s k. length argv \<in> {4..6} \<and> root_device stat argv = Inr root \<and> swap_device stat argv = Inr swap \<and>
       legal_devices root swap \<and> files (argv ! 1) = Some b \<and> files (argv ! 2) = Some s \<and> files (argv ! 3) = Some k \<and>
       boot_module b \<and> setup_module s \<and> length k \<le> 0x30000 \<and> 2560 + length k \<le> room \<and>
       out = disk_image root swap b s k)"
proof (cases "\<exists>root swap. length argv \<in> {4..6} \<and> root_device stat argv = Inr root \<and> swap_device stat argv = Inr swap \<and>
    legal_devices root swap")
  case True
  then obtain root swap where d: "length argv \<in> {4..6}" "root_device stat argv = Inr root" "swap_device stat argv = Inr swap"
    "legal_devices root swap" by blast
  have c: "check_devices (fst root) (fst swap) = None" using d(4) by (simp add: check_devices_None)
  have n: "\<not> (length argv < 4 \<or> length argv > 6)" using d(1) by auto
  show ?thesis
    unfolding build_main_def d(2,3) c if_not_P [OF n]
    using modules_Inr [OF assms, where room = room and pb = "argv ! 1" and ps = "argv ! 2" and pk = "argv ! 3" and
      root = root and swap = swap and out = out] d(1,4) by (simp add: c)
next
  case False
  then show ?thesis
    by (auto simp: build_main_def split: sum.splits option.splits dest: check_devices_legal)
qed

text \<open>A boot sector, a setup program of one byte and a system of three.\<close>

definition example_header :: "u8 list" where
  "example_header = [1, 3, 0x10, 4, 32, 0, 0, 0, 0, 0, 0, 0, 0, 0, 0, 0, 0, 0, 0, 0, 0, 0, 0, 0, 0, 0, 0, 0, 0, 0, 0, 0]"

definition example_files :: "string \<Rightarrow> u8 list option" where
  "example_files f =
     (if f = ''boot'' then Some (example_header @ replicate 510 0 @ [0x55, 0xAA])
      else if f = ''setup'' then Some (example_header @ [7])
      else if f = ''system'' then Some [1, 2, 3] else None)"

lemma example_header_ok: "minix_header example_header"
  by (simp add: minix_header_def example_header_def long_at_def)

lemma example_modules:
  "boot_module (example_header @ replicate 510 0 @ [0x55, 0xAA])" "setup_module (example_header @ [7])"
proof -
  have "length example_header = 32" by (simp add: example_header_def)
  then show "boot_module (example_header @ replicate 510 0 @ [0x55, 0xAA])" "setup_module (example_header @ [7])"
    using example_header_ok by (simp_all add: boot_module_def setup_module_def nth_append)
qed

theorem build_image_witness:
  "build_main 4 10000 example_files (\<lambda>_. None) [''build'', ''boot'', ''setup'', ''system''] =
     Inr (disk_image (3, 1) (3, 4) (example_header @ replicate 510 0 @ [0x55, 0xAA]) (example_header @ [7]) [1, 2, 3])"
proof -
  have small: "\<forall>f d. example_files f = Some d \<longrightarrow> length d < 2 ^ 31"
    by (simp add: example_files_def example_header_def)
  show ?thesis
    unfolding build_image [OF small] using example_modules
    by (simp add: example_files_def root_device_def swap_device_def legal_devices_def)
qed

text \<open>
  Where a \<^verbatim>\<open>long\<close> has 8 bytes the builder rejects every boot sector with a valid header, whatever else
  it gets, and writes nothing: the magic number is compared with the first two fields of the header.
\<close>

lemma build_long_host:
  assumes "length argv \<in> {4..6}" and "root_device stat argv = Inr root" and "swap_device stat argv = Inr swap"
    and "legal_devices root swap" and "files (argv ! 1) = Some b" and "minix_header (take 32 b)"
  shows "build_main 8 room files stat argv = Inl (''Non-Minix header of '' @ quoted ''boot'', [])"
proof -
  have len: "32 \<le> length b" using assms(6) by (simp add: minix_header_def min_def split: if_splits)
  have le: "le_nat (xs @ ys) = le_nat xs + 256 ^ length xs * le_nat ys" for xs ys
    by (induction xs) (simp_all add: algebra_simps)
  define h where "h = take 32 b"
  have h: "length h = 32" "long_at 4 h 0 = 0x04100301" "long_at 4 h 1 = 32"
    using assms(6) len by (simp_all add: h_def minix_header_def)
  have "take 8 h = take 4 h @ take 4 (drop 4 h)" by (simp flip: take_add)
  then have "long_at 8 (h @ r) 0 = long_at 4 h 0 + 256 ^ 4 * long_at 4 h 1" for r
    using h(1) by (simp add: long_at_def le)
  then have "check_header 8 name (h @ r) = Some (''Non-Minix header of '' @ name)" for name r
    unfolding check_header_def h by simp
  then have "open_module 8 files (argv ! 1) name buf [] = Inl (''Non-Minix header of '' @ name, [])" for name buf
    using assms(5) len unfolding open_module_def h_def by (simp add: read_fd_header)
  then have "build_boot 8 room files (argv ! 1) root swap (replicate BUF_SIZE 0) = Inl (''Non-Minix header of '' @ quoted ''boot'', [])"
    by (simp add: build_boot_def)
  moreover have "check_devices (fst root) (fst swap) = None" using assms(4) by (simp add: check_devices_None)
  ultimately show ?thesis using assms(1-3) by (simp add: build_main_def)
qed

lemma build_long_host_example:
  "build_main 8 10000 example_files (\<lambda>_. None) [''build'', ''boot'', ''setup'', ''system''] =
     Inl (''Non-Minix header of '' @ quoted ''boot'', [])"
proof -
  have "length example_header = 32" by (simp add: example_header_def)
  then have "minix_header (take 32 (example_header @ replicate 510 0 @ [0x55, 0xAA]))" using example_header_ok by simp
  then show ?thesis
    by (intro build_long_host [where root = "(3, 1)" and swap = "(3, 4)" and b = "example_header @ replicate 510 0 @ [0x55, 0xAA]"])
      (simp_all add: example_files_def root_device_def swap_device_def legal_devices_def)
qed

end
