(* ===== verification/CStruct.thy ===== *)
theory CStruct
  imports HardDisk
begin

text \<open>
  Types of C on the i386: size, alignment and the offsets of fields.  The structures of the headers
  are types of this theory; a program that reads or writes one of them relies on these numbers.
\<close>

section \<open>Types\<close>

datatype ctype = Char | Short | Long | Ptr | Array nat ctype | Struct fields
  and fields = No_field | Field string ctype fields

definition struct :: "(string \<times> ctype) list \<Rightarrow> ctype" where
  "struct fs = Struct (foldr (\<lambda>(f, t). Field f t) fs No_field)"

primrec alignof :: "ctype \<Rightarrow> nat" and align_fields :: "fields \<Rightarrow> nat" where
  "alignof Char = 1"
| "alignof Short = 2"
| "alignof Long = 4"
| "alignof Ptr = 4"
| "alignof (Array n t) = alignof t"
| "alignof (Struct fs) = align_fields fs"
| "align_fields No_field = 1"
| "align_fields (Field f t fs) = max (alignof t) (align_fields fs)"

text \<open>A field begins where the one before it ends, rounded up; so does the end of the structure.\<close>

primrec sizeof :: "ctype \<Rightarrow> nat" and fields_end :: "fields \<Rightarrow> nat \<Rightarrow> nat" where
  "sizeof Char = 1"
| "sizeof Short = 2"
| "sizeof Long = 4"
| "sizeof Ptr = 4"
| "sizeof (Array n t) = n * sizeof t"
| "sizeof (Struct fs) = align_up (fields_end fs 0) (align_fields fs)"
| "fields_end No_field n = n"
| "fields_end (Field f t fs) n = fields_end fs (align_up n (alignof t) + sizeof t)"

primrec field_offset :: "fields \<Rightarrow> nat \<Rightarrow> string \<Rightarrow> nat option" where
  "field_offset No_field n g = None"
| "field_offset (Field f t fs) n g =
     (if f = g then Some (align_up n (alignof t)) else field_offset fs (align_up n (alignof t) + sizeof t) g)"

definition offsetof :: "ctype \<Rightarrow> string \<Rightarrow> nat option" where
  "offsetof t f = (case t of Struct fs \<Rightarrow> field_offset fs 0 f | _ \<Rightarrow> None)"

section \<open>Structures of the headers\<close>

definition NAME_LEN :: nat where [simp, kconsts]: "NAME_LEN = 14"

text \<open>\<^verbatim>\<open>include/linux/fs.h\<close>.\<close>

definition c_buffer_head :: ctype where
  "c_buffer_head = struct
     [(''b_data'', Ptr), (''b_blocknr'', Long), (''b_dev'', Short), (''b_uptodate'', Char), (''b_dirt'', Char),
      (''b_count'', Char), (''b_lock'', Char), (''b_wait'', Ptr), (''b_prev'', Ptr), (''b_next'', Ptr),
      (''b_prev_free'', Ptr), (''b_next_free'', Ptr)]"

definition c_d_inode :: ctype where
  "c_d_inode = struct
     [(''i_mode'', Short), (''i_uid'', Short), (''i_size'', Long), (''i_time'', Long), (''i_gid'', Char),
      (''i_nlinks'', Char), (''i_zone'', Array 9 Short)]"

definition c_m_inode :: ctype where
  "c_m_inode = struct
     [(''i_mode'', Short), (''i_uid'', Short), (''i_size'', Long), (''i_mtime'', Long), (''i_gid'', Char),
      (''i_nlinks'', Char), (''i_zone'', Array 9 Short), (''i_wait'', Ptr), (''i_wait2'', Ptr), (''i_atime'', Long),
      (''i_ctime'', Long), (''i_dev'', Short), (''i_num'', Short), (''i_count'', Short), (''i_lock'', Char),
      (''i_dirt'', Char), (''i_pipe'', Char), (''i_mount'', Char), (''i_seek'', Char), (''i_update'', Char)]"

definition c_file :: ctype where
  "c_file = struct
     [(''f_mode'', Short), (''f_flags'', Short), (''f_count'', Short), (''f_inode'', Ptr), (''f_pos'', Long)]"

definition c_super_block :: ctype where
  "c_super_block = struct
     [(''s_ninodes'', Short), (''s_nzones'', Short), (''s_imap_blocks'', Short), (''s_zmap_blocks'', Short),
      (''s_firstdatazone'', Short), (''s_log_zone_size'', Short), (''s_max_size'', Long), (''s_magic'', Short),
      (''s_imap'', Array 8 Ptr), (''s_zmap'', Array 8 Ptr), (''s_dev'', Short), (''s_isup'', Ptr), (''s_imount'', Ptr),
      (''s_time'', Long), (''s_wait'', Ptr), (''s_lock'', Char), (''s_rd_only'', Char), (''s_dirt'', Char)]"

definition c_d_super_block :: ctype where
  "c_d_super_block = struct
     [(''s_ninodes'', Short), (''s_nzones'', Short), (''s_imap_blocks'', Short), (''s_zmap_blocks'', Short),
      (''s_firstdatazone'', Short), (''s_log_zone_size'', Short), (''s_max_size'', Long), (''s_magic'', Short)]"

definition c_dir_entry :: ctype where
  "c_dir_entry = struct [(''inode'', Short), (''name'', Array NAME_LEN Char)]"

definition INODES_PER_BLOCK :: nat where
  "INODES_PER_BLOCK = unat BLOCK_SIZE div sizeof c_d_inode"

definition DIR_ENTRIES_PER_BLOCK :: nat where
  "DIR_ENTRIES_PER_BLOCK = unat BLOCK_SIZE div sizeof c_dir_entry"

text \<open>\<^verbatim>\<open>sys/time.h\<close>, \<^verbatim>\<open>time.h\<close>, \<^verbatim>\<open>sys/resource.h\<close>, \<^verbatim>\<open>sys/types.h\<close> and \<^verbatim>\<open>signal.h\<close>.\<close>

definition c_timeval :: ctype where
  "c_timeval = struct [(''tv_sec'', Long), (''tv_usec'', Long)]"

definition c_timezone :: ctype where
  "c_timezone = struct [(''tz_minuteswest'', Long), (''tz_dsttime'', Long)]"

definition c_itimerval :: ctype where
  "c_itimerval = struct [(''it_interval'', c_timeval), (''it_value'', c_timeval)]"

definition c_tm :: ctype where
  "c_tm = struct
     [(''tm_sec'', Long), (''tm_min'', Long), (''tm_hour'', Long), (''tm_mday'', Long), (''tm_mon'', Long),
      (''tm_year'', Long), (''tm_wday'', Long), (''tm_yday'', Long), (''tm_isdst'', Long)]"

definition c_rusage :: ctype where
  "c_rusage = struct
     [(''ru_utime'', c_timeval), (''ru_stime'', c_timeval), (''ru_maxrss'', Long), (''ru_ixrss'', Long),
      (''ru_idrss'', Long), (''ru_isrss'', Long), (''ru_minflt'', Long), (''ru_majflt'', Long), (''ru_nswap'', Long),
      (''ru_inblock'', Long), (''ru_oublock'', Long), (''ru_msgsnd'', Long), (''ru_msgrcv'', Long),
      (''ru_nsignals'', Long), (''ru_nvcsw'', Long), (''ru_nivcsw'', Long)]"

definition c_rlimit :: ctype where
  "c_rlimit = struct [(''rlim_cur'', Long), (''rlim_max'', Long)]"

definition c_ustat :: ctype where
  "c_ustat = struct
     [(''f_tfree'', Long), (''f_tinode'', Short), (''f_fname'', Array 6 Char), (''f_fpack'', Array 6 Char)]"

definition c_sigaction :: ctype where
  "c_sigaction = struct [(''sa_handler'', Ptr), (''sa_mask'', Long), (''sa_flags'', Long), (''sa_restorer'', Ptr)]"

text \<open>\<^verbatim>\<open>linux/hdreg.h\<close>, \<^verbatim>\<open>linux/head.h\<close> and \<^verbatim>\<open>kernel/blk_drv/blk.h\<close>.\<close>

definition c_partition :: ctype where
  "c_partition = struct
     [(''boot_ind'', Char), (''head'', Char), (''sector'', Char), (''cyl'', Char), (''sys_ind'', Char),
      (''end_head'', Char), (''end_sector'', Char), (''end_cyl'', Char), (''start_sect'', Long), (''nr_sects'', Long)]"

definition c_desc_struct :: ctype where
  "c_desc_struct = struct [(''a'', Long), (''b'', Long)]"

definition c_request :: ctype where
  "c_request = struct
     [(''dev'', Long), (''cmd'', Long), (''errors'', Long), (''sector'', Long), (''nr_sectors'', Long), (''buffer'', Ptr),
      (''waiting'', Ptr), (''bh'', Ptr), (''next'', Ptr)]"

text \<open>\<^verbatim>\<open>include/linux/sched.h\<close>.\<close>

definition c_i387_struct :: ctype where
  "c_i387_struct = struct
     [(''cwd'', Long), (''swd'', Long), (''twd'', Long), (''fip'', Long), (''fcs'', Long), (''foo'', Long), (''fos'', Long),
      (''st_space'', Array 20 Long)]"

definition c_tss_struct :: ctype where
  "c_tss_struct = struct
     [(''back_link'', Long), (''esp0'', Long), (''ss0'', Long), (''esp1'', Long), (''ss1'', Long), (''esp2'', Long),
      (''ss2'', Long), (''cr3'', Long), (''eip'', Long), (''eflags'', Long), (''eax'', Long), (''ecx'', Long),
      (''edx'', Long), (''ebx'', Long), (''esp'', Long), (''ebp'', Long), (''esi'', Long), (''edi'', Long), (''es'', Long),
      (''cs'', Long), (''ss'', Long), (''ds'', Long), (''fs'', Long), (''gs'', Long), (''ldt'', Long),
      (''trace_bitmap'', Long), (''i387'', c_i387_struct)]"

definition c_task_struct :: ctype where
  "c_task_struct = struct
     [(''state'', Long), (''counter'', Long), (''priority'', Long), (''signal'', Long),
      (''sigaction'', Array 32 c_sigaction), (''blocked'', Long), (''exit_code'', Long), (''start_code'', Long),
      (''end_code'', Long), (''end_data'', Long), (''brk'', Long), (''start_stack'', Long), (''pid'', Long),
      (''pgrp'', Long), (''session'', Long), (''leader'', Long), (''groups'', Array NGROUPS Long), (''p_pptr'', Ptr),
      (''p_cptr'', Ptr), (''p_ysptr'', Ptr), (''p_osptr'', Ptr), (''uid'', Short), (''euid'', Short), (''suid'', Short),
      (''gid'', Short), (''egid'', Short), (''sgid'', Short), (''timeout'', Long), (''alarm'', Long), (''utime'', Long),
      (''stime'', Long), (''cutime'', Long), (''cstime'', Long), (''start_time'', Long),
      (''rlim'', Array RLIM_NLIMITS c_rlimit), (''flags'', Long), (''used_math'', Short), (''tty'', Long),
      (''umask'', Short), (''pwd'', Ptr), (''root'', Ptr), (''executable'', Ptr), (''library'', Ptr),
      (''close_on_exec'', Long), (''filp'', Array NR_OPEN Ptr), (''ldt'', Array 3 c_desc_struct), (''tss'', c_tss_struct)]"

lemmas c_structs = c_buffer_head_def c_d_inode_def c_m_inode_def c_file_def c_super_block_def c_d_super_block_def
  c_dir_entry_def c_timeval_def c_timezone_def c_itimerval_def c_tm_def c_rusage_def c_rlimit_def c_ustat_def
  c_sigaction_def c_partition_def c_desc_struct_def c_request_def c_i387_struct_def c_tss_struct_def

lemmas layout_simps = struct_def align_up_def numeral_2_eq_2 [symmetric]

lemma struct_sizes:
  "sizeof c_buffer_head = 36" "sizeof c_d_inode = 32" "sizeof c_m_inode = 60" "sizeof c_file = 16"
  "sizeof c_super_block = 108" "sizeof c_d_super_block = 20" "sizeof c_dir_entry = 16" "sizeof c_timeval = 8"
  "sizeof c_itimerval = 16" "sizeof c_tm = 36" "sizeof c_rusage = 72" "sizeof c_rlimit = 8" "sizeof c_ustat = 20"
  "sizeof c_sigaction = 16" "sizeof c_partition = 16" "sizeof c_desc_struct = 8" "sizeof c_request = 36"
  "sizeof c_i387_struct = 108" "sizeof c_tss_struct = 212"
  by (simp_all add: c_structs layout_simps)

lemma sizeof_task_struct: "sizeof c_task_struct = 0x484"
  by code_simp

text \<open>The list of offsets of \<^verbatim>\<open>struct task_struct\<close> that the descriptors of the GDT are computed from is that of the type.\<close>

primrec to_layout :: "fields \<Rightarrow> layout" where
  "to_layout No_field = []"
| "to_layout (Field f t fs) = (f, alignof t, sizeof t) # to_layout fs"

lemma offset_to_layout:
  fixes t :: ctype
  shows "True" and "offset_in n (to_layout fs) f = field_offset fs n f"
  by (induction t and fs arbitrary: and n) simp_all

lemma task_struct_to_layout: "case c_task_struct of Struct fs \<Rightarrow> to_layout fs = task_struct_layout | _ \<Rightarrow> False"
  by code_simp

lemma task_struct_offsets: "offsetof c_task_struct f = offset_in 0 task_struct_layout f"
proof -
  obtain fs where fs: "c_task_struct = Struct fs" unfolding c_task_struct_def struct_def by blast
  have "to_layout fs = task_struct_layout" using task_struct_to_layout unfolding fs ctype.case .
  then show ?thesis unfolding offsetof_def fs ctype.case using offset_to_layout(2) [of 0 fs f] by simp
qed

text \<open>The offsets that \<^verbatim>\<open>kernel/sys_call.s\<close> writes as numbers, and those the processor expects in a TSS.\<close>

definition sys_call_offsets :: "(string \<times> nat) list" where
  "sys_call_offsets = [(''state'', 0), (''counter'', 4), (''priority'', 8), (''signal'', 12), (''sigaction'', 16), (''blocked'', 33 * 16)]"

definition sigaction_offsets :: "(string \<times> nat) list" where
  "sigaction_offsets = [(''sa_handler'', 0), (''sa_mask'', 4), (''sa_flags'', 8), (''sa_restorer'', 12)]"

definition i386_tss :: "(string \<times> nat) list" where
  "i386_tss =
     [(''back_link'', 0), (''esp0'', 4), (''ss0'', 8), (''esp1'', 12), (''ss1'', 16), (''esp2'', 20), (''ss2'', 24), (''cr3'', 28),
      (''eip'', 32), (''eflags'', 36), (''eax'', 40), (''ecx'', 44), (''edx'', 48), (''ebx'', 52), (''esp'', 56), (''ebp'', 60),
      (''esi'', 64), (''edi'', 68), (''es'', 72), (''cs'', 76), (''ss'', 80), (''ds'', 84), (''fs'', 88), (''gs'', 92), (''ldt'', 96),
      (''trace_bitmap'', 100)]"

definition offsets_in :: "ctype \<Rightarrow> (string \<times> nat) list \<Rightarrow> bool" where
  "offsets_in t fs = list_all (\<lambda>(f, n). offsetof t f = Some n) fs"

text \<open>
  The layout of the structures in the i386 ABI.  The offsets in \<^verbatim>\<open>struct task_struct\<close> that the GDT entries
  are computed from are those of the type, and the numbers written in \<^verbatim>\<open>kernel/sys_call.s\<close> are the offsets of the
  fields they are named after; \<^verbatim>\<open>struct tss_struct\<close> begins with the fields of the processor's TSS at their
  places, inside the segment of its descriptor; a process descriptor leaves room for a kernel stack in its
  page; \<^verbatim>\<open>buffer_init\<close> and the driver step through their arrays by the sizes of the elements; 32 inodes and 64 directory entries of the disk fill a block exactly.
\<close>

lemma struct_layout:
  "offsetof c_task_struct f = offset_in 0 task_struct_layout f \<and> offsets_in c_task_struct sys_call_offsets \<and>
   offsets_in c_sigaction sigaction_offsets \<and> offsets_in c_tss_struct i386_tss \<and>
   list_all (\<lambda>(g, n). n + 4 \<le> unat (get_limit (set_tssldt_desc addr 0x89))) i386_tss \<and>
   sizeof c_task_struct = 0x484 \<and> sizeof c_buffer_head = unat sizeof_buffer_head \<and> sizeof c_request = unat sizeof_request \<and> sizeof c_desc_struct = 8 \<and>
   INODES_PER_BLOCK = 32 \<and> INODES_PER_BLOCK * sizeof c_d_inode = unat BLOCK_SIZE \<and>
   DIR_ENTRIES_PER_BLOCK = 64 \<and> DIR_ENTRIES_PER_BLOCK * sizeof c_dir_entry = unat BLOCK_SIZE"
proof -
  have "offsets_in c_task_struct sys_call_offsets"
    by (simp add: offsets_in_def sys_call_offsets_def task_struct_offsets task_struct_layout_def long_field_def short_field_def align_up_def)
  moreover have "offsets_in c_sigaction sigaction_offsets" "offsets_in c_tss_struct i386_tss" by code_simp+
  ultimately show ?thesis
    by (simp add: task_struct_offsets sizeof_task_struct struct_sizes set_tssldt_desc_fields i386_tss_def INODES_PER_BLOCK_def DIR_ENTRIES_PER_BLOCK_def)
qed

end
