(* ===== verification/Headers.thy ===== *)
theory Headers
  imports CStruct Syscalls
begin

text \<open>
  The numbers and macros of the interface headers: errors and signals (\<^verbatim>\<open>errno.h\<close>, \<^verbatim>\<open>signal.h\<close>), sets of file descriptors and times (\<^verbatim>\<open>sys/time.h\<close>, \<^verbatim>\<open>time.h\<close>,
  \<^verbatim>\<open>linux/sched.h\<close>), pipes and device numbers (\<^verbatim>\<open>linux/fs.h\<close>) and the test for the superuser
  (\<^verbatim>\<open>linux/kernel.h\<close>).  A macro that assigns through a pointer returns the new value.
\<close>

section \<open>Errors and signals\<close>

definition errno_table :: "(string \<times> nat) list" where
  "errno_table =
     [(''ERROR'', 99), (''EPERM'', 1), (''ENOENT'', 2), (''ESRCH'', 3), (''EINTR'', 4), (''EIO'', 5),
      (''ENXIO'', 6), (''E2BIG'', 7), (''ENOEXEC'', 8), (''EBADF'', 9), (''ECHILD'', 10), (''EAGAIN'', 11),
      (''ENOMEM'', 12), (''EACCES'', 13), (''EFAULT'', 14), (''ENOTBLK'', 15), (''EBUSY'', 16),
      (''EEXIST'', 17), (''EXDEV'', 18), (''ENODEV'', 19), (''ENOTDIR'', 20), (''EISDIR'', 21),
      (''EINVAL'', 22), (''ENFILE'', 23), (''EMFILE'', 24), (''ENOTTY'', 25), (''ETXTBSY'', 26),
      (''EFBIG'', 27), (''ENOSPC'', 28), (''ESPIPE'', 29), (''EROFS'', 30), (''EMLINK'', 31), (''EPIPE'', 32),
      (''EDOM'', 33), (''ERANGE'', 34), (''EDEADLK'', 35), (''ENAMETOOLONG'', 36), (''ENOLCK'', 37),
      (''ENOSYS'', 38), (''ENOTEMPTY'', 39), (''ERESTARTSYS'', 512), (''ERESTARTNOINTR'', 513)]"

definition signal_table :: "(string \<times> nat) list" where
  "signal_table =
     [(''SIGHUP'', 1), (''SIGINT'', 2), (''SIGQUIT'', 3), (''SIGILL'', 4), (''SIGTRAP'', 5), (''SIGABRT'', 6),
      (''SIGIOT'', 6), (''SIGUNUSED'', 7), (''SIGFPE'', 8), (''SIGKILL'', 9), (''SIGUSR1'', 10),
      (''SIGSEGV'', 11), (''SIGUSR2'', 12), (''SIGPIPE'', 13), (''SIGALRM'', 14), (''SIGTERM'', 15),
      (''SIGSTKFLT'', 16), (''SIGCHLD'', 17), (''SIGCONT'', 18), (''SIGSTOP'', 19), (''SIGTSTP'', 20),
      (''SIGTTIN'', 21), (''SIGTTOU'', 22)]"

text \<open>
  A function that fails returns the negated number; every number is told from a result by
  the wrappers, and no two errors have the same.
\<close>

lemma errno_distinct: "distinct (map snd errno_table)"
  by (simp add: errno_table_def)

lemma errno_reported:
  assumes "(name, n) \<in> set errno_table"
  shows "syscall_result (- of_nat n) e = (- 1, of_nat n)"
proof -
  have "list_all (\<lambda>(_, n). 0 < n \<and> n \<le> 513) errno_table" by (simp add: errno_table_def)
  then have n: "0 < n" "n \<le> 513" using assms by (auto simp: list_all_iff)
  have "- of_nat n = (of_int (- int n) :: u32)" by simp
  moreover have "sint (of_int (- int n) :: u32) = - int n"
    unfolding signed_of_int using n by (simp add: signed_take_bit_int_eq_self)
  ultimately show ?thesis using n by (simp add: syscall_result_def)
qed

text \<open>Every signal has its bit in the words \<^verbatim>\<open>signal\<close> and \<^verbatim>\<open>blocked\<close> of a task; only \<^verbatim>\<open>SIGABRT\<close> and \<^verbatim>\<open>SIGIOT\<close> share one.\<close>

lemma signals_fit:
  "(name, n) \<in> set signal_table \<Longrightarrow> 1 \<le> n \<and> n \<le> 32"
  "remdups (map snd signal_table) = [1..<23]"
proof -
  have "list_all (\<lambda>(_, n). 1 \<le> n \<and> n \<le> 32) signal_table" by (simp add: signal_table_def)
  then show "(name, n) \<in> set signal_table \<Longrightarrow> 1 \<le> n \<and> n \<le> 32" by (auto simp: list_all_iff)
  show "remdups (map snd signal_table) = [1..<23]" by (simp add: signal_table_def upt_rec)
qed

section \<open>Sets of file descriptors\<close>

type_synonym fd_set = u32

definition FD_SET :: "nat \<Rightarrow> fd_set \<Rightarrow> fd_set" where
  "FD_SET fd s = s OR push_bit fd 1"

definition FD_CLR :: "nat \<Rightarrow> fd_set \<Rightarrow> fd_set" where
  "FD_CLR fd s = s AND NOT (push_bit fd 1)"

definition FD_ISSET :: "nat \<Rightarrow> fd_set \<Rightarrow> u32" where
  "FD_ISSET fd s = drop_bit fd s AND 1"

definition FD_ZERO :: "fd_set \<Rightarrow> fd_set" where
  "FD_ZERO s = 0"

definition fds :: "fd_set \<Rightarrow> nat set" where
  "fds s = {fd. fd < 32 \<and> FD_ISSET fd s \<noteq> 0}"

lemma FD_ISSET_bit: "FD_ISSET fd s \<noteq> 0 \<longleftrightarrow> bit s fd"
  by (simp add: FD_ISSET_def bit_iff_odd_drop_bit and_one_eq odd_iff_mod_2_eq_one)

text \<open>The macros are the operations of finite sets, for every file a process can have open.\<close>

lemma fd_set_refines:
  assumes "fd < 32"
  shows "fds (FD_SET fd s) = insert fd (fds s)" and "fds (FD_CLR fd s) = fds s - {fd}"
    and "fds (FD_ZERO s) = {}" and "FD_ISSET fd s \<noteq> 0 \<longleftrightarrow> fd \<in> fds s" and "(fds s = fds t) = (s = t)"
proof -
  show "fds (FD_SET fd s) = insert fd (fds s)" "fds (FD_CLR fd s) = fds s - {fd}"
    using assms by (auto simp: fds_def FD_ISSET_bit FD_SET_def FD_CLR_def bit_simps)
  show "fds (FD_ZERO s) = {}" by (simp add: fds_def FD_ISSET_bit FD_ZERO_def)
  show "FD_ISSET fd s \<noteq> 0 \<longleftrightarrow> fd \<in> fds s" using assms by (simp add: fds_def)
  show "(fds s = fds t) = (s = t)" unfolding u32_bits_eq_iff by (auto simp: fds_def FD_ISSET_bit set_eq_iff)
qed

lemma open_files_fit: "i < NR_OPEN \<Longrightarrow> fds (FD_SET i 0) = {i}"
  using fd_set_refines(1) [of i 0] fd_set_refines(3) [of i 0] by (simp add: FD_ZERO_def)

section \<open>Times\<close>

record timeval =
  tv_sec :: u32
  tv_usec :: u32

definition timerisset :: "timeval \<Rightarrow> bool" where
  "timerisset t \<longleftrightarrow> tv_sec t \<noteq> 0 \<or> tv_usec t \<noteq> 0"

definition timercmp :: "(int \<Rightarrow> int \<Rightarrow> bool) \<Rightarrow> timeval \<Rightarrow> timeval \<Rightarrow> bool" where
  "timercmp cmp t u \<longleftrightarrow>
     cmp (sint (tv_sec t)) (sint (tv_sec u)) \<or>
     tv_sec t = tv_sec u \<and> cmp (sint (tv_usec t)) (sint (tv_usec u))"

definition timerclear :: "timeval \<Rightarrow> timeval" where
  "timerclear t = t\<lparr>tv_sec := 0, tv_usec := 0\<rparr>"

lemma timerclear_unset: "\<not> timerisset (timerclear t)"
  by (simp add: timerisset_def timerclear_def)

text \<open>
  With \<^verbatim>\<open><\<close> and \<^verbatim>\<open>>\<close> the comparison is the lexicographic order; with \<^verbatim>\<open><=\<close> it only compares the seconds, as
  the comment says.
\<close>

lemma timercmp_less:
  "timercmp (<) t u \<longleftrightarrow>
     sint (tv_sec t) < sint (tv_sec u) \<or> sint (tv_sec t) = sint (tv_sec u) \<and> sint (tv_usec t) < sint (tv_usec u)"
  by (auto simp: timercmp_def dest: signed_word_eqI)

lemma timercmp_greater: "timercmp (>) t u = timercmp (<) u t"
  by (auto simp: timercmp_def)

lemma timercmp_trans: "timercmp (<) t u \<Longrightarrow> timercmp (<) u v \<Longrightarrow> timercmp (<) t v"
  unfolding timercmp_less by linarith

lemma timercmp_total: "timercmp (<) t u \<or> timercmp (<) u t \<or> tv_sec t = tv_sec u \<and> tv_usec t = tv_usec u"
  unfolding timercmp_less by (metis less_linear signed_word_eqI)

lemma timercmp_le: "timercmp (\<le>) t u \<longleftrightarrow> sint (tv_sec t) \<le> sint (tv_sec u)"
  by (auto simp: timercmp_def)

definition isleap :: "int \<Rightarrow> bool" where
  "isleap year \<longleftrightarrow> year mod 4 = 0 \<and> (year mod 100 \<noteq> 0 \<or> year mod 1000 = 0)"

definition leap_year :: "int \<Rightarrow> bool" where
  "leap_year year \<longleftrightarrow> year mod 4 = 0 \<and> (year mod 100 \<noteq> 0 \<or> year mod 400 = 0)"

text \<open>The macro tests for a multiple of 1000 in the place of one of 400.\<close>

lemma isleap_wrong: "isleap year \<noteq> leap_year year \<longleftrightarrow> ((year mod 400 = 0) \<noteq> (year mod 1000 = 0))"
proof -
  have "year mod 400 = 0 \<Longrightarrow> year mod 4 = 0 \<and> year mod 100 = 0" "year mod 1000 = 0 \<Longrightarrow> year mod 4 = 0 \<and> year mod 100 = 0"
    using mod_mod_cancel [of 4 400 year] mod_mod_cancel [of 100 400 year] mod_mod_cancel [of 4 1000 year]
      mod_mod_cancel [of 100 1000 year] by simp_all
  then show ?thesis unfolding isleap_def leap_year_def by auto
qed

text \<open>Ticks of a \<^verbatim>\<open>long\<close> as seconds and microseconds; C truncates both divisions towards zero.\<close>

definition c_mod :: "u32 \<Rightarrow> u32 \<Rightarrow> u32" where
  "c_mod x y = x - c_div x y * y"

definition CT_TO_SECS :: "u32 \<Rightarrow> u32" where
  "CT_TO_SECS x = c_div x (of_nat HZ)"

definition CT_TO_USECS :: "u32 \<Rightarrow> u32" where
  "CT_TO_USECS x = c_div (c_mod x (of_nat HZ) * 1000000) (of_nat HZ)"

lemma c_div_small:
  assumes "0 \<le> sint x" and "0 < n" and "n < 2 ^ 31"
  shows "uint (c_div x (of_nat n)) = sint x div int n"
proof -
  have n: "sint (of_nat n :: u32) = int n" using assms(3) by (rule sint_of_nat_small)
  have "sint x < 2 ^ 31" using sint_lt [of x] by simp
  moreover have "sint x div int n \<le> sint x" using assms by (simp add: zdiv_mono2 [of "sint x" 1 "int n", simplified])
  ultimately have "0 \<le> sint x div int n" "sint x div int n < 2 ^ 32" using assms by (simp_all add: pos_imp_zdiv_nonneg_iff)
  moreover have "sgn (sint x) * sgn (int n) * (\<bar>sint x\<bar> div \<bar>int n\<bar>) = sint x div int n"
    using assms by (cases "sint x = 0") simp_all
  ultimately show ?thesis unfolding c_div_def n by (simp add: uint_word_of_int)
qed

lemma ct_to_time:
  assumes "0 \<le> sint x"
  shows "uint (CT_TO_SECS x) * 1000000 + uint (CT_TO_USECS x) = sint x * 10000"
proof -
  have s: "uint (CT_TO_SECS x) = sint x div 100" using c_div_small [of x 100] assms by (simp add: CT_TO_SECS_def)
  have q: "c_div x 100 = of_int (sint x div 100)" using s by (simp add: CT_TO_SECS_def flip: s)
  have "c_mod x 100 = of_int (sint x - sint x div 100 * 100)" by (simp add: c_mod_def q)
  then have m: "c_mod x 100 * 1000000 = of_nat (nat (sint x mod 100) * 1000000)"
    using assms by (simp add: minus_div_mult_eq_mod)
  have "nat (sint x mod 100) * 1000000 < 2 ^ 31" by simp
  then have "sint (c_mod x 100 * 1000000) = sint x mod 100 * 1000000"
    unfolding m by (subst sint_of_nat_small) simp_all
  then have "uint (CT_TO_USECS x) = 10000 * (sint x mod 100)"
    using c_div_small [of "c_mod x 100 * 1000000" 100] by (simp add: CT_TO_USECS_def)
  then show ?thesis using s div_mult_mod_eq [of "sint x" 100] by linarith
qed

section \<open>The running task\<close>

text \<open>The macro \<^verbatim>\<open>str\<close>: the number of a task from the task register.\<close>

definition str_task :: "u32 \<Rightarrow> u32" where
  "str_task sel = drop_bit 4 ((sel AND 0xffff) - push_bit 3 (of_nat FIRST_TSS_ENTRY))"

lemma str_switch_to:
  assumes "n < NR_TASKS" and "task s n \<noteq> current s"
  shows "str_task (tr (switch_to n s)) = of_nat n"
proof -
  define k where "k = 16 * n + 32"
  have k: "k < 2 ^ 16" "TSS_sel (of_nat n) = of_nat k" using assms(1) by (simp_all add: k_def TSS_sel_def FIRST_TSS_ENTRY_def push_bit_eq_mult)
  have m: "unat (of_nat k :: u32) = k" using k(1) by (simp add: unat_of_nat)
  have "(of_nat k :: u32) AND mask 16 = of_nat k"
    using k(1) m by (simp add: word_unat_eq_iff unsigned_take_bit_eq take_bit_nat_eq_self flip: take_bit_eq_mask)
  then have "(of_nat k :: u32) AND 0xffff = of_nat k" by (simp add: mask_eq_exp_minus_1)
  then have "str_task (of_nat k) = drop_bit 4 (of_nat (16 * n))" by (simp add: str_task_def FIRST_TSS_ENTRY_def k_def)
  also have "\<dots> = of_nat n"
  proof -
    have "unat (of_nat (16 * n) :: u32) = 16 * n" "unat (of_nat n :: u32) = n"
      using assms(1) by (simp_all add: unat_of_nat del: of_nat_mult)
    then show ?thesis by (simp add: word_unat_eq_iff drop_bit_eq_div unat_div_distrib del: of_nat_mult)
  qed
  finally show ?thesis using assms(2) k(2) by (simp add: switch_to_def)
qed

section \<open>Pipes and devices\<close>

definition PIPE_HEAD :: "m_inode \<Rightarrow> u16" where "PIPE_HEAD i = i_zone i 0"
definition PIPE_TAIL :: "m_inode \<Rightarrow> u16" where "PIPE_TAIL i = i_zone i 1"

definition PIPE_SIZE :: "m_inode \<Rightarrow> u32" where
  "PIPE_SIZE i = (ucast (PIPE_HEAD i) - ucast (PIPE_TAIL i)) AND (word_of_int PAGE_SIZE - 1)"

definition PIPE_EMPTY :: "m_inode \<Rightarrow> bool" where
  "PIPE_EMPTY i \<longleftrightarrow> PIPE_HEAD i = PIPE_TAIL i"

definition PIPE_FULL :: "m_inode \<Rightarrow> bool" where
  "PIPE_FULL i \<longleftrightarrow> PIPE_SIZE i = word_of_int PAGE_SIZE - 1"

text \<open>A ring of one page with \<open>n\<close> bytes from the tail on, \<open>n\<close> at most 4095.\<close>

lemma pipe_ring:
  assumes "unat (PIPE_TAIL i) < 4096" and "unat (PIPE_HEAD i) = (unat (PIPE_TAIL i) + n) mod 4096" and "n < 4096"
  shows "unat (PIPE_SIZE i) = n" and "PIPE_EMPTY i \<longleftrightarrow> n = 0" and "PIPE_FULL i \<longleftrightarrow> n = 4095"
proof -
  let ?h = "unat (PIPE_HEAD i)" and ?t = "unat (PIPE_TAIL i)"
  have "uint (PIPE_SIZE i) = (int ?h - int ?t) mod 4096"
  proof -
    have "PIPE_SIZE i = take_bit 12 (ucast (PIPE_HEAD i) - ucast (PIPE_TAIL i) :: u32)"
      by (simp add: PIPE_SIZE_def take_bit_eq_mask mask_eq_exp_minus_1)
    then have "uint (PIPE_SIZE i) = take_bit 12 (uint (ucast (PIPE_HEAD i) - ucast (PIPE_TAIL i) :: u32))"
      by (simp only: unsigned_take_bit_eq)
    also have "\<dots> = take_bit 12 (take_bit 32 (int ?h - int ?t))"
      by (simp only: uint_word_ariths unsigned_ucast_eq take_bit_eq_mod) (simp add: mod_simps)
    finally show ?thesis by (simp add: take_bit_eq_mod mod_mod_cancel)
  qed
  also have "\<dots> = int n" using assms by (simp add: zmod_int mod_simps)
  finally show s: "unat (PIPE_SIZE i) = n" by (metis of_nat_eq_iff of_nat_unat)
  have "?h = ?t \<longleftrightarrow> n = 0" using assms by (cases "?t + n < 4096") (auto simp: mod_if)
  then show "PIPE_EMPTY i \<longleftrightarrow> n = 0" by (simp add: PIPE_EMPTY_def unat_arith_simps)
  show "PIPE_FULL i \<longleftrightarrow> n = 4095" using s by (simp add: PIPE_FULL_def word_unat_eq_iff)
qed

definition IS_SEEKABLE :: "u32 \<Rightarrow> bool" where
  "IS_SEEKABLE x \<longleftrightarrow> 1 \<le> sint x \<and> sint x \<le> 3"

definition suser :: "task_struct \<Rightarrow> bool" where
  "suser t \<longleftrightarrow> ts_euid t = 0"

lemma suser_init: "suser (INIT_TASK p d)"
  by (simp add: suser_def INIT_TASK_def)

end
