(* ===== verification/Spec2Isabelle.thy ===== *)
theory Spec2Isabelle
  imports Descriptors System String_Laws Printf_Format Build Headers
begin

text \<open>
  A verification of \<^verbatim>\<open>mockos\<close>, a small 32-bit kernel for the i386 derived from Linux 0.12.

  \<^bold>\<open>The program.\<close>  The boot code enters \<^verbatim>\<open>main\<close> (\<^verbatim>\<open>init/main.c\<close>), which initialises the memory map, the
  buffer cache, the interrupt gates, the scheduler and the disk and goes to user mode, where task 0
  forks.  From then on the kernel runs in system calls, in the timer interrupt, which calls the
  scheduler, in page faults and in disk interrupts.  Processes share pages until they write to them;
  tasks that wait sleep on queues whose links are on their kernel stacks.

  \<^bold>\<open>Theories and sources.\<close>
  \<^item> \<^verbatim>\<open>Prelude\<close>: machine words, paths that do not return (\<^verbatim>\<open>kexc\<close>: \<^verbatim>\<open>panic\<close>, accesses out of bounds), rule
    collections, and the locales \<^verbatim>\<open>field_lens\<close>, \<^verbatim>\<open>field_pair\<close> (a field that is read and written),
    \<^verbatim>\<open>step_invariant\<close> (an invariant of a step relation) and \<^verbatim>\<open>event_refinement\<close> (sequences of events that refine a
    specification).
  \<^item> \<^verbatim>\<open>Descriptors\<close>: segment and gate descriptors (\<^verbatim>\<open>include/linux/head.h\<close>, \<^verbatim>\<open>include/asm/system.h\<close>,
    \<^verbatim>\<open>get_base\<close> and \<^verbatim>\<open>set_base\<close> of \<^verbatim>\<open>kernel/sched.c\<close>, \<^verbatim>\<open>trap_init\<close>).  Base and limit are interpreted as
    independent fields; gates are read back as the processor does.
  \<^item> \<^verbatim>\<open>Memory\<close>, \<^verbatim>\<open>Paging\<close>: \<^verbatim>\<open>mm/memory.c\<close>, \<^verbatim>\<open>mm/swap.c\<close>.  \<^verbatim>\<open>Memory\<close> has the definitions and the contract of the
    allocator (locale \<^verbatim>\<open>page_allocator\<close>, interpreted on \<^verbatim>\<open>get_free_page\<close>); \<^verbatim>\<open>Paging\<close> shows what sharing and
    copy-on-write do to the address spaces, and what faults on missing pages and tables do.
  \<^item> \<^verbatim>\<open>Tasks\<close>, \<^verbatim>\<open>Sched\<close>: the process descriptor with its layout, and the scheduler and wait queues of
    \<^verbatim>\<open>kernel/sched.c\<close>.  The search of \<^verbatim>\<open>schedule\<close> ends, is round robin and fair.
  \<^item> \<^verbatim>\<open>Mutex\<close>: \<^verbatim>\<open>sys_klock\<close> and \<^verbatim>\<open>sys_kunlock\<close> and the step relation \<^verbatim>\<open>kstep\<close> of all interleavings of tasks that
    use a mutex, with preemption inside \<^verbatim>\<open>sys_kunlock\<close> and \<^verbatim>\<open>wake_up\<close>: the chain of sleepers, no lost wake-up; mutual exclusion
    when tasks release only what they hold, and how a release by another task breaks it.
  \<^item> \<^verbatim>\<open>Fork\<close>: \<^verbatim>\<open>kernel/fork.c\<close> and \<^verbatim>\<open>sys_fork\<close> over the state of the whole kernel (record \<^verbatim>\<open>kernel\<close>): the process
    table invariant, the child's registers, descriptors and memory, the search for a process number.
  \<^item> \<^verbatim>\<open>Space_Inv\<close>, \<^verbatim>\<open>Address_Space\<close>, \<^verbatim>\<open>Isolation\<close>: the address spaces of all processes together.  \<^verbatim>\<open>Space_Inv\<close> has the invariant of
    the page directory, the page tables and the reference counts (a frame counts the spaces that have it, and only a
    single user may write it) and what keeps it; \<^verbatim>\<open>Address_Space\<close> shows that the code of \<^verbatim>\<open>mm/memory.c\<close> does; \<^verbatim>\<open>Isolation\<close> takes the
    memory that each process sees out of the physical memory and shows that stores and forks refine the
    operations on these memories, by the locale \<^verbatim>\<open>event_refinement\<close> also for every sequence of them.  The pages of task 0 are the
    exception: its stores show in a process that still has the page in common with it, which the specification has too.
  \<^item> \<^verbatim>\<open>System\<close>: the scheduler, the mutexes, process creation and the address spaces over one state (record \<^verbatim>\<open>system\<close>) and
    all interleavings of mutex calls, \<^verbatim>\<open>pause\<close>, timer interrupts, stores and forks of the running tasks (\<^verbatim>\<open>sys_step\<close>): the invariants of the parts hold together
    from the start of the kernel on, and \<^verbatim>\<open>fork\<close> always finds what it needs.  The properties are at the end
    of this theory.
  \<^item> \<^verbatim>\<open>Buffer\<close>, \<^verbatim>\<open>Cache\<close>, \<^verbatim>\<open>Cache_Init\<close>: \<^verbatim>\<open>fs/buffer.c\<close>.  \<^verbatim>\<open>Buffer\<close> has the definitions; \<^verbatim>\<open>Cache\<close> the invariant of
    the free ring and the hash chains, the abstract cache (a map from blocks to buffers and an order
    of reuse) that \<^verbatim>\<open>getblk\<close> refines, and the locale \<^verbatim>\<open>block_cache\<close> for clients that ask for several
    blocks; \<^verbatim>\<open>Cache_Init\<close> shows that \<^verbatim>\<open>buffer_init\<close> establishes the invariant and where it puts the blocks.
  \<^item> \<^verbatim>\<open>Strings\<close>, \<^verbatim>\<open>String_Laws\<close>: the inline assembly of \<^verbatim>\<open>include/string.h\<close> over registers, flags and bytes, and
    its meaning on strings; the five scanning loops are interpretations of the locale \<^verbatim>\<open>span_loop\<close>.
  \<^item> \<^verbatim>\<open>Printf\<close>, \<^verbatim>\<open>Printf_Laws\<close>, \<^verbatim>\<open>Printf_Format\<close>: \<^verbatim>\<open>kernel/vsprintf.c\<close>, \<^verbatim>\<open>printk\<close> and \<^verbatim>\<open>printm\<close>.  \<^verbatim>\<open>Printf_Laws\<close> has \<^verbatim>\<open>number\<close> against a reference
    layout and the decimal conversions read back; \<^verbatim>\<open>Printf_Format\<close> shows that \<^verbatim>\<open>vsprintf\<close> on a format in memory, walked with its
    pointer, ends at the terminator and prints what the definition on strings does, and what is written to the buffers.
  \<^item> \<^verbatim>\<open>Syscalls\<close>: the call table (\<^verbatim>\<open>include/linux/sys.h\<close>), the numbers and wrappers (\<^verbatim>\<open>include/unistd.h\<close>), the
    calls of \<^verbatim>\<open>kernel/traps.c\<close> and the path through \<^verbatim>\<open>system_call\<close> (\<^verbatim>\<open>kernel/sys_call.s\<close>).
  \<^item> \<^verbatim>\<open>HardDisk\<close>: \<^verbatim>\<open>kernel/blk_drv/hd.c\<close> with \<^verbatim>\<open>blk.h\<close>, \<^verbatim>\<open>ll_rw_blk.c\<close> and \<^verbatim>\<open>hd_interrupt\<close>; a run of interrupts
    that reads the sectors of a request, and the error path.
  \<^item> \<^verbatim>\<open>LogBuffer\<close>: the log buffer of \<^verbatim>\<open>kernel/nasm.asm\<close>.  The step relation \<^verbatim>\<open>lstep\<close> has all interleavings of writers,
    instruction by instruction, with the timer interrupt that empties the buffer: the bounds, the order
    of the texts up to the first emptying, that a text copied between two interrupts is always sent,
    and how later rounds lose others.
  \<^item> \<^verbatim>\<open>Entry_Code\<close>: \<^verbatim>\<open>system_call\<close>, \<^verbatim>\<open>timer_interrupt\<close> and \<^verbatim>\<open>sys_fork\<close> (\<^verbatim>\<open>kernel/sys_call.s\<close>), \<^verbatim>\<open>page_fault\<close> (\<^verbatim>\<open>mm/page.asm\<close>) and
    \<^verbatim>\<open>hd_interrupt\<close> (\<^verbatim>\<open>kernel/idt.asm\<close>) as instructions on registers and stack: registers and frames are restored, and
    \<^verbatim>\<open>fork\<close> through the gate returns twice.
  \<^item> \<^verbatim>\<open>Boot\<close>, \<^verbatim>\<open>Kernel_Init\<close>, \<^verbatim>\<open>User_Mode\<close>: \<^verbatim>\<open>boot/head.s\<close>, \<^verbatim>\<open>main\<close> with \<^verbatim>\<open>init_serial\<close>, and \<^verbatim>\<open>move_to_user_mode\<close> over the
    state of the machine (record \<^verbatim>\<open>machine\<close>: the kernel and the buffer cache).  The properties of the start,
    which rest on those of the initialisers, are at the end of this theory.
  \<^item> \<^verbatim>\<open>CStruct\<close>, \<^verbatim>\<open>Headers\<close>: the types of C with their layout and the structures of the headers as
    such types; numbers of errors and signals and the macros of the headers.
  \<^item> \<^verbatim>\<open>Build\<close>: the image builder \<^verbatim>\<open>tools/build.c\<close>, for either size of a \<^verbatim>\<open>long\<close>.

  \<^bold>\<open>Conventions.\<close>  Integers have their width and wrap around; pointers are addresses; objects live in
  stores indexed by their address.  \<^verbatim>\<open>panic\<close> and accesses out of bounds are values of \<^verbatim>\<open>kexc\<close>.  A function
  that sleeps is cut at its calls of \<^verbatim>\<open>schedule\<close>.  A loop with no bound of its own is a
  \<^verbatim>\<open>partial_function\<close> into an option, \<^const>\<open>None\<close> for a loop that does not end; the theorems say when the
  result is there (\<^verbatim>\<open>schedule\<close>, \<^verbatim>\<open>find_empty_process\<close>, \<^verbatim>\<open>buffer_init\<close>, \<^verbatim>\<open>find_buffer\<close>, \<^verbatim>\<open>getblk\<close>) and when it is
  not (\<^verbatim>\<open>getblk\<close> with only dirty buffers left).  There is no fuel.

  \<^bold>\<open>Parameters.\<close>  Hardware and code outside the modelled components are arguments: bytes read from
  ports, the words of a disk sector, how long the serial line is ready, the A20 line, what functions of
  C leave in the registers they may change, what other tasks do while one is switched away, the
  addresses the linker chooses, the files of the builder.

  \<^bold>\<open>Not modelled.\<close>  The boot sector and the switch to protected mode, whose sources are not in the
  repository; the stubs \<^verbatim>\<open>ignore_int_n\<close> of \<^verbatim>\<open>kernel/idt.asm\<close>, which are endless loops; \<^verbatim>\<open>end_request\<close> and the device
  macros of \<^verbatim>\<open>blk.h\<close> for the ram disk and the floppy, which are not compiled; prototypes and constants
  of headers that nothing uses; the messages of the builder on its standard error stream other than
  the last.  The TLB: \<^verbatim>\<open>invalidate\<close> counts the loads of \<^verbatim>\<open>cr3\<close>, and translations always follow the tables in
  memory.  The kernel's data are in records of their own and not in the pages below 640 KB of the physical memory, where
  the tables are; a store of task 0, or one through the selector \<^verbatim>\<open>0x1b\<close>, to the kernel's data is therefore not seen as a change
  of them.  \<^verbatim>\<open>System\<close> has no steps for \<^verbatim>\<open>sys_kdebug\<close>, for disk interrupts and for stores through \<^verbatim>\<open>0x1b\<close>.  \<^verbatim>\<open>wake_up\<close> is taken
  to load the head of the queue once.  The log buffer gets texts of fewer than 1024 bytes, none of them zero, and
  the output of \<^verbatim>\<open>vsprintf\<close> does not overlap its format and the strings it prints.
\<close>

section \<open>The start of the kernel\<close>

text \<open>
  C10: the start of the kernel, from \<^verbatim>\<open>startup_32\<close> to the \<^verbatim>\<open>sti\<close> of \<^verbatim>\<open>main\<close>.  When the A20 line is open, the mask registers of the interrupt
  controllers return what was last written to them and the kernel ends above 1 KB, with room for a
  buffer below 4 MB, the start comes to its end.  Then the buffer cache satisfies its invariant, with at least
  one buffer and all hash queues empty; the free page frames are those from 4 MB on, and no buffer
  reaches into one of them; the first 16 MB are mapped to themselves; all slots but that of task 0 are
  empty; the gates of the page fault, the timer, the system call and the disk lead to their
  entries and every other one to \<^verbatim>\<open>ignore_int\<close>'s place with the low half of its own entry; and the lines of the
  timer, of the second controller and of the disk are open.
\<close>

theorem kernel_start_ready:
  assumes "reads_back inb" and "1024 \<le> unat (start_buffer (mcache m))"
    and "unat (start_buffer (mcache m)) + 1060 \<le> 0x400000"
  shows "\<exists>m' xs. kernel_start True inb e m = Some m' \<and> xs \<noteq> [] \<and> cache_ok (mcache m') xs (\<lambda>_. []) \<and>
    buffers_below_pages m' xs \<and> frames_free_from (kmm (mk m')) 768 \<and> identity_mapped (kmm (mk m')) \<and>
    bsched (mcache m') = ksched (mk m') \<and>
    task (ksched (mk m')) = (\<lambda>i. if 1 \<le> i \<and> i < NR_TASKS then NULL else task (ksched (mk m)) i) \<and>
    gates_ok e (kcpu (mk m')) \<and> irqs_open (kcpu (mk m'))"
proof -
  let ?b = "(mcache m)\<lparr>bsched := ksched (mk m)\<rparr>"
  have top: "buffer_top BUF_MEM_END = 0x400000" by (simp add: buffer_top_def)
  have "\<exists>b xs. buffer_init BUF_MEM_END ?b = Some b \<and> xs \<noteq> [] \<and> cache_ok b xs (\<lambda>_. []) \<and>
      (\<forall>p \<in> set xs. unat p + 36 \<le> 0x400000 \<and> unat (b_data (heads b p)) + 1024 \<le> 0x400000)"
    unfolding top [symmetric] by (rule buffer_init_below) (use assms top in simp_all)
  then obtain b xs where b: "buffer_init BUF_MEM_END ?b = Some b" "xs \<noteq> []" "cache_ok b xs (\<lambda>_. [])"
    "\<forall>p \<in> set xs. unat p + 36 \<le> 0x400000 \<and> unat (b_data (heads b p)) + 1024 \<le> 0x400000"
    by blast
  obtain w where w: "bsched b = ksched (mk m)\<lparr>waitq := w\<rparr>" using buffer_init_bsched [OF b(1)] by (auto simp: buffer_queues_def)
  define c1 where "c1 = snd (init_serial inb ((kcpu (mk m))\<lparr>idt := setup_idt (e_ignore_int e) (idt (kcpu (mk m))), gdt := boot_gdt\<rparr>))"
  define c0 where "c0 = c1\<lparr>idt := trap_init (e_idt_ptrs e) (e_page_fault e) (idt c1)\<rparr>"
  obtain s c where sc: "sched_init (e_timer_interrupt e) (e_system_call e) (inb (io_out c0)) (bsched b, c0) = (s, c)"
    by fastforce
  obtain m' where m': "kernel_start True inb e m = Some m'" "mcache m' = b\<lparr>bsched := s\<rparr>" "ksched (mk m') = s"
    "kcpu (mk m') = hd_init (e_hd_interrupt e) (inb (io_out c)) c"
    "kmm (mk m') = mem_init MAIN_MEM_START MAIN_MEM_END (setup_paging (kmm (mk m)))"
    using kernel_start_eq [OF b(1) c1_def c0_def sc] by blast
  have g: "\<forall>i < 256. idt c1 i = set_gate 14 0 (e_ignore_int e)"
    by (simp add: c1_def init_serial_idt setup_idt_gate)
  note cpu = init_cpu [OF assms(1) sc c0_def g m'(4)]
  have free: "frames_free_from (kmm (mk m')) 768" unfolding m'(5) by (rule mem_init_main)
  have below: "buffers_below_pages m' xs"
    unfolding buffers_below_pages_def
  proof (intro allI impI)
    fix i p assume i: "0 \<le> i \<and> i < int PAGING_PAGES \<and> mem_map (kmm (mk m')) i = 0 \<and> p \<in> set xs"
    then have "768 \<le> i" using free unfolding frames_free_from_def by blast
    then have "0x400000 \<le> unat (frame_addr i)" using i by (simp add: frame_addr_high)
    then show "unat p + 36 \<le> unat (frame_addr i) \<and> unat (b_data (heads (mcache m') p)) + 1024 \<le> unat (frame_addr i)"
      using b(4) i m'(2) by fastforce
  qed
  have "identity_mapped (setup_paging (kmm (mk m)))" using setup_paging_identity by (simp add: identity_mapped_def)
  then have map: "identity_mapped (kmm (mk m'))" unfolding m'(5) identity_mapped_pmem [OF mem_init_main(2)] .
  have cache: "cache_ok (mcache m') xs (\<lambda>_. [])" "bsched (mcache m') = ksched (mk m')" using b(3) m'(2,3) by simp_all
  have tasks: "task (ksched (mk m')) = (\<lambda>i. if 1 \<le> i \<and> i < NR_TASKS then NULL else task (ksched (mk m)) i)"
    unfolding m'(3) cpu(3) w by (simp cong: if_cong)
  show ?thesis
    by (intro exI [of _ m'] exI [of _ xs] conjI) (fact m'(1) b(2) cache below free map tasks cpu)+
qed

theorem kernel_start_ready_witness:
  "\<exists>m' xs. kernel_start True example_ports example_entries example_machine = Some m' \<and>
     cache_ok (mcache m') xs (\<lambda>_. []) \<and> buffers_below_pages m' xs \<and> identity_mapped (kmm (mk m')) \<and>
     gates_ok example_entries (kcpu (mk m')) \<and> irqs_open (kcpu (mk m'))"
proof -
  have "reads_back example_ports" by (simp add: reads_back_def example_ports_def last_out_def)
  then show ?thesis using kernel_start_ready [of example_ports example_machine example_entries] example_start by auto
qed

text \<open>
  C16: from the initialised kernel \<^verbatim>\<open>move_to_user_mode\<close> goes on at its label in ring 3, on the same stack, with the
  code and data segments of task 0, 640 KB from address 0; the selector \<^verbatim>\<open>0x1b\<close> that \<^verbatim>\<open>log_buf\<close> loads
  names a segment of all linear addresses that ring 3 may write.
\<close>

theorem enters_user_mode:
  assumes "kernel_start a20 inb e m = Some m'"
    and "tasks (ksched (mk m)) (init_task (ksched (mk m))) = INIT_TASK p d"
  shows "\<exists>u. move_to_user_mode label flags esp g = Some u \<and>
    u_eip u = label \<and> u_esp u = esp \<and> u_eflags u = flags \<and>
    user_seg (mk m') (u_cs u) 0xfa 0x9ffff \<and> user_seg (mk m') (u_ss u) 0xf2 0x9ffff \<and>
    (\<forall>r \<in> {DS, ES, FS, GS}. user_seg (mk m') (u_regs u r) 0xf2 0x9ffff) \<and>
    user_seg (mk m') 0x1b 0xf2 0xffffffff"
proof -
  note t = kernel_start_tables [OF assms(1)]
  have "loaded_ldt (mk m') = INIT_LDT"
    using assms(2) by (simp add: loaded_ldt_def Let_def t set_tssldt_desc_fields task_at_def INIT_TASK_def)
  then have l: "seg_of (mk m') 0x0f = INIT_LDT 1" "seg_of (mk m') 0x17 = INIT_LDT 2" "seg_of (mk m') 0x1b = boot_gdt 3"
    using t(4) [of 3] by (simp_all add: seg_of_def bit_iff_odd)
  have a: "desc_access (INIT_LDT 1) = 0xfa" "desc_access (INIT_LDT 2) = 0xf2" by (simp_all add: INIT_LDT_def desc_access_def)
  have g3: "desc_access (boot_gdt 3) = 0xf2" "get_base (boot_gdt 3) = 0" "lsl_limit (boot_gdt 3) = 0xffffffff"
    by (simp_all add: boot_gdt_def desc_access_def get_base_def lsl_limit_def limit_field_def)
  have lim: "lsl_limit (INIT_LDT 1) = 0x9ffff" "lsl_limit (INIT_LDT 2) = 0x9ffff"
    by (simp_all add: INIT_LDT_def lsl_limit_def limit_field_def)
  show ?thesis
    unfolding move_to_user_mode_eq by (simp add: user_seg_def l a [unfolded One_nat_def] g3 lim [unfolded One_nat_def] INIT_LDT_segments [unfolded One_nat_def])
qed

theorem enters_user_mode_witness:
  "\<exists>m' u. kernel_start True example_ports example_entries example_machine = Some m' \<and>
     move_to_user_mode 0x6800 0x202 0x27000 (\<lambda>_. 0) = Some u \<and> user_seg (mk m') (u_cs u) 0xfa 0x9ffff \<and>
     user_seg (mk m') 0x1b 0xf2 0xffffffff"
proof -
  obtain m' where m': "kernel_start True example_ports example_entries example_machine = Some m'"
    using kernel_start_returns [of example_machine] example_start by fastforce
  have "tasks (ksched (mk example_machine)) (init_task (ksched (mk example_machine))) = INIT_TASK 0x25000 0"
    using boot_kernel_simps by (simp add: example_machine_def task_at_def)
  then show ?thesis
    using enters_user_mode [OF m', of "0x25000" 0 "0x6800" "0x202" "0x27000" "\<lambda>_. 0"] m' by blast
qed

section \<open>The processes\<close>



section \<open>The running system\<close>







end
